(* ===== verification/Prelude.thy ===== *)
theory Prelude
  imports Main "HOL-Library.Word" "HOL-Library.List_Lexorder"
begin

text \<open>
  What every component of the model shares: the exceptions as values, Python's strings (code
  points) and bytes, big-endian integer fields as \<open>int.to_bytes\<close> and \<open>struct.pack\<close> write them,
  slices and slice assignment, decimal formatting of integers, and files that are read and written
  at an offset. The lemma collections \<open>field_be\<close> (lengths and round trips of fields) and
  \<open>slice_rules\<close> (reading slices of concatenations) are extended by the component theories.
\<close>

named_theorems field_be "lengths and round trips of fixed-width fields"
named_theorems slice_rules "slices of concatenations and updated buffers"

subsection \<open>Exceptions as values\<close>

text \<open>The exception classes the program raises or catches, one constructor per class.\<close>

datatype error =
    ValueError | TypeError | KeyError | IndexError | AttributeError | StructError | OSError
  | UnicodeEncodeError | UnicodeDecodeError | JSONDecodeError | ZlibError | InvalidTag
  | PageOverflowError | PageCorruptionError | TableHandlerError | RouterError
  | WALCorruptionError | WALCapacityError | CompactorError | RuntimeError | OverflowError
  | LoggingHandlerError

text \<open>\<open>except ValueError\<close> also catches its subclasses.\<close>

fun is_value_error :: "error \<Rightarrow> bool" where
  "is_value_error ValueError = True"
| "is_value_error UnicodeEncodeError = True"
| "is_value_error UnicodeDecodeError = True"
| "is_value_error JSONDecodeError = True"
| "is_value_error _ = False"

fun is_page_error :: "error \<Rightarrow> bool" where
  "is_page_error PageOverflowError = True"
| "is_page_error PageCorruptionError = True"
| "is_page_error _ = False"

text \<open>A fallible computation, and one that also changes a state (which a raise keeps as it is).\<close>

type_synonym 'a result = "error + 'a"
type_synonym ('s, 'a) step_result = "'a result \<times> 's"

fun bind_result :: "'a result \<Rightarrow> ('a \<Rightarrow> 'b result) \<Rightarrow> 'b result" where
  "bind_result (Inl e) f = Inl e"
| "bind_result (Inr x) f = f x"

fun bind_step :: "('s, 'a) step_result \<Rightarrow> ('a \<Rightarrow> 's \<Rightarrow> ('s, 'b) step_result) \<Rightarrow> ('s, 'b) step_result"
  where
  "bind_step (Inl e, s) f = (Inl e, s)"
| "bind_step (Inr x, s) f = f x s"

lemma bind_result_eq_Inr [simp]:
  "bind_result r f = Inr y \<longleftrightarrow> (\<exists>x. r = Inr x \<and> f x = Inr y)"
  by (cases r) auto

lemma bind_result_eq_Inl: "bind_result r f = Inl e \<longleftrightarrow> r = Inl e \<or> (\<exists>x. r = Inr x \<and> f x = Inl e)"
  by (cases r) auto

lemma bind_step_eq_Inr [simp]:
  "bind_step r f = (Inr y, s') \<longleftrightarrow> (\<exists>x s. r = (Inr x, s) \<and> f x s = (Inr y, s'))"
  by (cases "(r, f)" rule: bind_step.cases) auto

definition is_ok :: "'a result \<Rightarrow> bool" where
  "is_ok r \<longleftrightarrow> (case r of Inl _ \<Rightarrow> False | Inr _ \<Rightarrow> True)"

lemma is_ok_simps [simp]: "is_ok (Inr x)" "\<not> is_ok (Inl e)"
  by (simp_all add: is_ok_def)

lemma is_ok_iff: "is_ok r \<longleftrightarrow> (\<exists>x. r = Inr x)"
  by (cases r) auto

subsection \<open>Strings, bytes and slices\<close>

text \<open>
  A Python \<open>str\<close> is a sequence of code points, so \<open>len\<close> counts code points and \<open><\<close> is the
  lexicographic order on code points (\<open>HOL-Library.List_Lexorder\<close>). \<open>lit\<close> turns an ASCII literal
  of the source into such a string.
\<close>

type_synonym pystr = "nat list"
type_synonym byte = "8 word"
type_synonym bytes = "byte list"

definition lit :: "string \<Rightarrow> pystr" where
  "lit s = map of_char s"

definition blit :: "string \<Rightarrow> bytes" where
  "blit s = map of_char s"

lemma length_lit [simp]: "length (lit s) = length s"
  by (simp add: lit_def)

lemma length_blit [simp]: "length (blit s) = length s"
  by (simp add: blit_def)

text \<open>\<open>xs[a:b]\<close> and \<open>xs[a:b] = ys\<close> for offsets \<open>a \<ge> 0\<close> and \<open>b \<ge> 0\<close>; both clamp as Python does.\<close>

definition slice :: "'a list \<Rightarrow> nat \<Rightarrow> nat \<Rightarrow> 'a list" where
  "slice xs a b = take (b - a) (drop a xs)"

definition slice_assign :: "'a list \<Rightarrow> nat \<Rightarrow> nat \<Rightarrow> 'a list \<Rightarrow> 'a list" where
  "slice_assign xs a b ys = take a xs @ ys @ drop (max a b) xs"

lemma length_slice: "length (slice xs a b) = min (b - a) (length xs - a)"
  by (simp add: slice_def)

lemma length_slice_le [slice_rules]: "b \<le> length xs \<Longrightarrow> length (slice xs a b) = b - a"
  by (auto simp: slice_def)

lemma length_slice_assign [slice_rules]:
  "a + length ys = b \<Longrightarrow> b \<le> length xs \<Longrightarrow> length (slice_assign xs a b ys) = length xs"
  by (auto simp: slice_assign_def)

lemma nth_slice: "i < b - a \<Longrightarrow> b \<le> length xs \<Longrightarrow> slice xs a b ! i = xs ! (a + i)"
  by (simp add: slice_def)

lemma nth_slice_assign:
  assumes "a + length ys = b" and "b \<le> length xs" and "i < length xs"
  shows "slice_assign xs a b ys ! i = (if a \<le> i \<and> i < b then ys ! (i - a) else xs ! i)"
  using assms by (auto simp: slice_assign_def nth_append min_def)

lemma slice_assign_same [slice_rules]:
  "a + length ys = b \<Longrightarrow> b \<le> length xs \<Longrightarrow> slice (slice_assign xs a b ys) a b = ys"
  by (auto simp: slice_def slice_assign_def)

lemma slice_assign_other:
  assumes "a + length ys = b" and "b \<le> length xs" and "d \<le> length xs" and "d \<le> a \<or> b \<le> c"
  shows "slice (slice_assign xs a b ys) c d = slice xs c d"
  by (rule nth_equalityI)
    (use assms in \<open>auto simp: length_slice length_slice_assign nth_slice nth_slice_assign\<close>)

lemma slice_append_left [slice_rules]: "b \<le> length xs \<Longrightarrow> slice (xs @ ys) a b = slice xs a b"
  by (simp add: slice_def)

lemma slice_append_right [slice_rules]:
  "length xs \<le> a \<Longrightarrow> slice (xs @ ys) a b = slice ys (a - length xs) (b - length xs)"
  by (simp add: slice_def)

lemma slice_whole [slice_rules]: "length xs \<le> b \<Longrightarrow> slice xs 0 b = xs"
  by (simp add: slice_def)

lemma slice_empty [slice_rules, simp]: "b \<le> a \<Longrightarrow> slice xs a b = []"
  by (simp add: slice_def)

lemma slice_split: "a \<le> b \<Longrightarrow> b \<le> c \<Longrightarrow> slice xs a c = slice xs a b @ slice xs b c"
proof -
  assume "a \<le> b" "b \<le> c"
  then obtain d e where "b = a + d" "c = a + d + e"
    using le_Suc_ex by metis
  then show ?thesis
    by (simp add: slice_def take_add drop_drop add.commute)
qed

text \<open>The same with Python's integer indices, where a negative one counts from the end.\<close>

definition py_index :: "nat \<Rightarrow> int \<Rightarrow> nat" where
  "py_index n i = nat (if i < 0 then max 0 (int n + i) else min i (int n))"

definition py_slice :: "'a list \<Rightarrow> int \<Rightarrow> int \<Rightarrow> 'a list" where
  "py_slice xs i j = slice xs (py_index (length xs) i) (py_index (length xs) j)"

definition py_slice_assign :: "'a list \<Rightarrow> int \<Rightarrow> int \<Rightarrow> 'a list \<Rightarrow> 'a list" where
  "py_slice_assign xs i j ys = slice_assign xs (py_index (length xs) i) (py_index (length xs) j) ys"

lemma py_slice_nat [simp]: "0 \<le> i \<Longrightarrow> 0 \<le> j \<Longrightarrow> py_slice xs i j = slice xs (nat i) (nat j)"
  by (auto simp: py_slice_def py_index_def slice_def min_def)

lemma py_slice_assign_nat [simp]:
  "0 \<le> i \<Longrightarrow> 0 \<le> j \<Longrightarrow> py_slice_assign xs i j ys = slice_assign xs (nat i) (nat j) ys"
  by (auto simp: py_slice_assign_def py_index_def slice_assign_def min_def max_def)

lemma slice_assign_empty: "slice_assign xs a a [] = xs"
  by (simp add: slice_assign_def)

text \<open>The pieces of a concatenation, and a piece of a piece.\<close>

lemma slice_concat:
  "i < length xs \<Longrightarrow>
   slice (concat xs) (length (concat (take i xs))) (length (concat (take i xs)) + length (xs ! i)) = xs ! i"
proof (induction xs arbitrary: i)
  case (Cons x xs)
  show ?case
  proof (cases i)
    case (Suc j)
    then show ?thesis using Cons by (simp add: slice_append_right add.assoc)
  qed (simp add: slice_def)
qed simp

lemma slice_slice: "d \<le> b - a \<Longrightarrow> slice (slice xs a b) c d = slice xs (a + c) (a + d)"
  by (simp add: slice_def drop_take min_def add.commute)

subsection \<open>Big-endian fields\<close>

text \<open>
  \<open>x.to_bytes(k, "big")\<close> for a value that fits, and \<open>int.from_bytes(bs, "big")\<close>; \<open>to_be\<close> is the
  checked form (\<open>struct.pack\<close> and \<open>to_bytes\<close> raise when the value does not fit).
\<close>

fun be_bytes :: "nat \<Rightarrow> nat \<Rightarrow> bytes" where
  "be_bytes 0 x = []"
| "be_bytes (Suc k) x = be_bytes k (x div 256) @ [of_nat (x mod 256)]"

definition be_val :: "bytes \<Rightarrow> nat" where
  "be_val bs = foldl (\<lambda>a b. 256 * a + unat b) 0 bs"

definition to_be :: "nat \<Rightarrow> int \<Rightarrow> bytes result" where
  "to_be k x = (if 0 \<le> x \<and> x < 256 ^ k then Inr (be_bytes k (nat x)) else Inl StructError)"

lemma length_be_bytes [simp, field_be]: "length (be_bytes k x) = k"
  by (induction k x rule: be_bytes.induct) auto

lemma be_val_snoc [simp]: "be_val (bs @ [b]) = 256 * be_val bs + unat b"
  by (simp add: be_val_def)

lemma be_val_Nil [simp]: "be_val [] = 0"
  by (simp add: be_val_def)

lemma unat_byte_of_nat [simp]: "x < 256 \<Longrightarrow> unat (of_nat x :: byte) = x"
  by (simp add: unsigned_of_nat take_bit_nat_eq_self)

lemma unat_byte_less: "unat (b :: byte) < 256"
  using unsigned_less [of b] by simp

lemma be_val_bytes [simp, field_be]: "x < 256 ^ k \<Longrightarrow> be_val (be_bytes k x) = x"
proof (induction k x rule: be_bytes.induct)
  case (2 k x)
  then have "x div 256 < 256 ^ k"
    by (simp add: less_mult_imp_div_less mult.commute)
  with 2 have "be_val (be_bytes k (x div 256)) = x div 256" by blast
  then show ?case by simp
qed simp

lemma be_val_bound: "be_val bs < 256 ^ length bs"
proof (induction bs rule: rev_induct)
  case (snoc b bs)
  have "256 * be_val bs + unat b < 256 * (be_val bs + 1)"
    using unat_byte_less [of b] by (simp add: distrib_left)
  also have "\<dots> \<le> 256 * 256 ^ length bs"
    using snoc by (intro mult_le_mono2) simp
  finally show ?case by simp
qed simp

lemma be_bytes_val [field_be]: "be_bytes (length bs) (be_val bs) = bs"
proof (induction bs rule: rev_induct)
  case (snoc b bs)
  have "unat b < 256" by (rule unat_byte_less)
  with snoc show ?case by simp
qed simp

lemma be_val_inj: "be_val xs = be_val ys \<Longrightarrow> length xs = length ys \<Longrightarrow> xs = ys"
  by (metis be_bytes_val)

lemma to_be_Inr [simp]:
  "to_be k x = Inr bs \<longleftrightarrow> 0 \<le> x \<and> x < 256 ^ k \<and> bs = be_bytes k (nat x)"
  by (auto simp: to_be_def)

subsection \<open>Decimal formatting\<close>

text \<open>\<open>str(n)\<close> and the \<open>{n}\<close> of an f-string, as code points.\<close>

fun dec_nat :: "nat \<Rightarrow> pystr" where
  "dec_nat n = (if n < 10 then [48 + n] else dec_nat (n div 10) @ [48 + n mod 10])"

declare dec_nat.simps [simp del]

definition dec_int :: "int \<Rightarrow> pystr" where
  "dec_int i = (if i < 0 then 45 # dec_nat (nat (- i)) else dec_nat (nat i))"

definition digit :: "nat \<Rightarrow> bool" where
  "digit c \<longleftrightarrow> 48 \<le> c \<and> c \<le> 57"

definition val_dec :: "pystr \<Rightarrow> nat" where
  "val_dec ds = foldl (\<lambda>a d. 10 * a + (d - 48)) 0 ds"

lemma val_dec_snoc [simp]: "val_dec (ds @ [d]) = 10 * val_dec ds + (d - 48)"
  by (simp add: val_dec_def)

lemma dec_nat_not_Nil [simp]: "dec_nat n \<noteq> []"
  by (subst dec_nat.simps) simp

lemma dec_nat_digits: "c \<in> set (dec_nat n) \<Longrightarrow> digit c"
proof (induction n rule: dec_nat.induct)
  case (1 n)
  show ?case
  proof (cases "n < 10")
    case True
    with 1 show ?thesis by (simp add: dec_nat.simps [of n] digit_def)
  next
    case False
    have "n mod 10 < 10" by simp
    then have "n mod 10 \<le> 9" by linarith
    with False 1 show ?thesis
      by (auto simp: dec_nat.simps [of n] digit_def)
  qed
qed

lemma val_dec_nat [simp]: "val_dec (dec_nat n) = n"
proof (induction n rule: dec_nat.induct)
  case (1 n)
  show ?case
  proof (cases "n < 10")
    case True
    then show ?thesis by (simp add: dec_nat.simps [of n] val_dec_def)
  next
    case False
    with 1 show ?thesis by (simp add: dec_nat.simps [of n])
  qed
qed

lemma dec_nat_inj [simp]: "dec_nat m = dec_nat n \<longleftrightarrow> m = n"
  by (metis val_dec_nat)

lemma dec_nat_hd: "hd (dec_nat n) = 48 \<longleftrightarrow> n = 0"
proof (induction n rule: dec_nat.induct)
  case (1 n)
  show ?case
  proof (cases "n < 10")
    case True
    then show ?thesis by (simp add: dec_nat.simps [of n])
  next
    case False
    then have "n div 10 \<noteq> 0" by (simp add: div_eq_0_iff)
    with False 1 show ?thesis by (simp add: dec_nat.simps [of n])
  qed
qed

subsection \<open>Files\<close>

text \<open>
  An open binary file: its size and its bytes. \<open>f.seek(off); f.write(bs)\<close> extends the file with
  zeros when it starts behind the end, and \<open>f.seek(off); f.read(n)\<close> returns fewer bytes at the end.
\<close>

record pyfile =
  fsize :: nat
  fbyte :: "nat \<Rightarrow> byte"

definition empty_file :: pyfile where
  "empty_file = \<lparr>fsize = 0, fbyte = (\<lambda>_. 0)\<rparr>"

definition zero_file :: "nat \<Rightarrow> pyfile" where
  "zero_file n = \<lparr>fsize = n, fbyte = (\<lambda>_. 0)\<rparr>"

definition fread :: "pyfile \<Rightarrow> nat \<Rightarrow> nat \<Rightarrow> bytes" where
  "fread f off n = map (fbyte f) [off ..< min (off + n) (fsize f)]"

definition fwrite :: "pyfile \<Rightarrow> nat \<Rightarrow> bytes \<Rightarrow> pyfile" where
  "fwrite f off bs =
     (if bs = [] then f
      else \<lparr>fsize = max (fsize f) (off + length bs),
            fbyte = (\<lambda>i. if off \<le> i \<and> i < off + length bs then bs ! (i - off)
                         else if i < fsize f then fbyte f i else 0)\<rparr>)"

lemma length_fread: "length (fread f off n) = min (off + n) (fsize f) - off"
  by (simp add: fread_def)

lemma length_fread_in [field_be]: "off + n \<le> fsize f \<Longrightarrow> length (fread f off n) = n"
  by (simp add: fread_def)

lemma nth_fread: "off + n \<le> fsize f \<Longrightarrow> i < n \<Longrightarrow> fread f off n ! i = fbyte f (off + i)"
  by (simp add: fread_def)

lemma fsize_fwrite [field_be]:
  "fsize (fwrite f off bs) = (if bs = [] then fsize f else max (fsize f) (off + length bs))"
  by (simp add: fwrite_def)

lemma fread_fwrite_same [field_be]: "fread (fwrite f off bs) off (length bs) = bs"
  by (rule nth_equalityI) (auto simp: fread_def fwrite_def)

lemma fread_fwrite_part:
  "off \<le> a \<Longrightarrow> a + n \<le> off + length bs \<Longrightarrow>
   fread (fwrite f off bs) a n = slice bs (a - off) (a - off + n)"
  by (rule nth_equalityI) (auto simp: fread_def fwrite_def length_slice nth_slice)

lemma fread_fwrite_other:
  assumes "a + n \<le> off \<or> off + length bs \<le> a" and "a + n \<le> fsize f"
  shows "fread (fwrite f off bs) a n = fread f a n"
  by (rule nth_equalityI) (use assms in \<open>auto simp: fread_def fwrite_def\<close>)

lemma fread_split: "a + m \<le> fsize f \<Longrightarrow> fread f a (m + k) = fread f a m @ fread f (a + m) k"
  by (rule nth_equalityI) (auto simp: fread_def nth_append min_def)

lemma fread_within: "c + n \<le> length (fread f a m) \<Longrightarrow> fread f (a + c) n = slice (fread f a m) c (c + n)"
  by (rule nth_equalityI) (auto simp: fread_def length_slice nth_slice min_def add.assoc split: if_splits)

lemma fread_fwrite_into:
  assumes "a \<le> off" and "off + length bs \<le> a + n" and "a + n \<le> fsize f"
  shows "fread (fwrite f off bs) a n = slice_assign (fread f a n) (off - a) (off - a + length bs) bs"
  by (rule nth_equalityI)
    (use assms in \<open>auto simp: fread_def fwrite_def length_slice_assign nth_slice_assign add.commute\<close>)

end
