(* ===== verification/Py_Dict.thy ===== *)
theory Py_Dict
  imports Prelude
begin

text \<open>
  Python's \<open>dict\<close> (and \<open>OrderedDict\<close>): association lists in insertion order with distinct keys.
  Assigning to a present key keeps its position, assigning to an absent key appends; \<open>len\<close> is the
  length of the list. The locale \<open>keyed_store\<close> is the contract that the components which are only
  written to by "last write wins" assignments promise (the dictionaries here, the B-tree MemTable
  in \<open>BTree_Memtable\<close>); \<open>keyed_store_del\<close> adds removal.
\<close>

type_synonym ('k, 'v) dict = "('k \<times> 'v) list"

abbreviation dget :: "('k, 'v) dict \<Rightarrow> 'k \<Rightarrow> 'v option" where
  "dget d k \<equiv> map_of d k"

definition dkeys :: "('k, 'v) dict \<Rightarrow> 'k list" where
  "dkeys d = map fst d"

fun dset :: "('k, 'v) dict \<Rightarrow> 'k \<Rightarrow> 'v \<Rightarrow> ('k, 'v) dict" where
  "dset [] k v = [(k, v)]"
| "dset ((k', v') # d) k v = (if k' = k then (k, v) # d else (k', v') # dset d k v)"

definition ddel :: "('k, 'v) dict \<Rightarrow> 'k \<Rightarrow> ('k, 'v) dict" where
  "ddel d k = filter (\<lambda>e. fst e \<noteq> k) d"

definition dupdate :: "('k, 'v) dict \<Rightarrow> ('k \<times> 'v) list \<Rightarrow> ('k, 'v) dict" where
  "dupdate d es = foldl (\<lambda>d (k, v). dset d k v) d es"

definition dict_ok :: "('k, 'v) dict \<Rightarrow> bool" where
  "dict_ok d \<longleftrightarrow> distinct (map fst d)"

lemma dget_dset [simp]: "dget (dset d k v) k' = (if k' = k then Some v else dget d k')"
  by (induction d k v rule: dset.induct) auto

lemma dget_dset_fun: "dget (dset d k v) = (dget d)(k \<mapsto> v)"
  by (rule ext) simp

lemma dget_ddel [simp]: "dget (ddel d k) k' = (if k' = k then None else dget d k')"
  by (induction d) (auto simp: ddel_def)

lemma keys_dset [simp]: "fst ` set (dset d k v) = insert k (fst ` set d)"
  by (induction d k v rule: dset.induct) auto

lemma keys_ddel [simp]: "fst ` set (ddel d k) = fst ` set d - {k}"
  by (auto simp: ddel_def)

lemma dict_ok_Nil [simp]: "dict_ok []"
  by (simp add: dict_ok_def)

lemma dict_ok_dset [simp, intro]: "dict_ok d \<Longrightarrow> dict_ok (dset d k v)"
  unfolding dict_ok_def
proof (induction d k v rule: dset.induct)
  case (2 k' v' d k v)
  have "fst ` set (dset d k v) = insert k (fst ` set d)" by simp
  with 2 show ?case by auto
qed simp

lemma dict_ok_ddel [simp, intro]: "dict_ok d \<Longrightarrow> dict_ok (ddel d k)"
  by (auto simp: dict_ok_def ddel_def distinct_map_filter)

lemma dget_None_iff: "dget d k = None \<longleftrightarrow> k \<notin> fst ` set d"
  by (simp add: map_of_eq_None_iff)

lemma length_dset:
  "length (dset d k v) = (if k \<in> fst ` set d then length d else Suc (length d))"
  by (induction d k v rule: dset.induct) auto

lemma ddel_absent: "k \<notin> fst ` set d \<Longrightarrow> ddel d k = d"
  by (force simp: ddel_def filter_id_conv)

lemma length_ddel:
  "dict_ok d \<Longrightarrow> length (ddel d k) = (if k \<in> fst ` set d then length d - 1 else length d)"
proof (induction d)
  case (Cons e d)
  have tl: "k \<notin> fst ` set d \<Longrightarrow> filter (\<lambda>e. fst e \<noteq> k) d = d"
    using ddel_absent [of k d] by (simp add: ddel_def)
  have "k \<in> fst ` set d \<Longrightarrow> length d > 0" by auto
  with Cons tl show ?case
    by (auto simp: dict_ok_def ddel_def)
qed (simp add: ddel_def)

lemma dset_absent: "k \<notin> fst ` set d \<Longrightarrow> dset d k v = d @ [(k, v)]"
  by (induction d k v rule: dset.induct) auto

lemma dset_dset: "dset (dset d k v) k w = dset d k w"
  by (induction d k v rule: dset.induct) auto

lemma dupdate_simps [simp]:
  "dupdate d [] = d" "dupdate d ((k, v) # es) = dupdate (dset d k v) es"
  by (simp_all add: dupdate_def)

lemma dict_ok_dupdate [simp, intro]: "dict_ok d \<Longrightarrow> dict_ok (dupdate d es)"
  by (induction es arbitrary: d) auto

lemma map_of_rev_distinct: "distinct (map fst es) \<Longrightarrow> map_of (rev es) = map_of es"
  by (subst map_of_inject_set) (simp_all add: rev_map [symmetric])

subsection \<open>The contract of a store with last-write-wins assignment\<close>

locale keyed_store =
  fixes empty :: "'s" and upsert :: "'k \<Rightarrow> 'v \<Rightarrow> 's \<Rightarrow> 's"
    and lookup :: "'s \<Rightarrow> 'k \<Rightarrow> 'v option" and inv :: "'s \<Rightarrow> bool"
  assumes inv_empty: "inv empty"
    and lookup_empty: "lookup empty k = None"
    and inv_upsert: "inv s \<Longrightarrow> inv (upsert k v s)"
    and lookup_upsert: "inv s \<Longrightarrow> lookup (upsert k v s) k' = (if k' = k then Some v else lookup s k')"
begin

text \<open>A batch of assignments: the last one to a key decides, other keys keep their value.\<close>

lemma inv_batch: "inv s \<Longrightarrow> inv (fold (\<lambda>(k, v). upsert k v) es s)"
  by (induction es arbitrary: s) (auto intro: inv_upsert)

lemma lookup_batch:
  "inv s \<Longrightarrow> lookup (fold (\<lambda>(k, v). upsert k v) es s) k =
     (case map_of (rev es) k of None \<Rightarrow> lookup s k | Some v \<Rightarrow> Some v)"
proof (induction es arbitrary: s)
  case (Cons e es)
  obtain k' v' where e: "e = (k', v')" by (cases e)
  with Cons.prems have "inv (upsert k' v' s)" by (simp add: inv_upsert)
  from Cons.IH [OF this] Cons.prems e show ?case
    by (auto simp: lookup_upsert map_add_def split: option.splits)
qed simp

lemma lookup_batch_distinct:
  assumes "inv s" and "distinct (map fst es)"
  shows "lookup (fold (\<lambda>(k, v). upsert k v) es s) k =
     (case map_of es k of None \<Rightarrow> lookup s k | Some v \<Rightarrow> Some v)"
  using lookup_batch [OF assms(1), of es k] map_of_rev_distinct [OF assms(2)] by simp

lemma lookup_idem: "inv s \<Longrightarrow> lookup (upsert k v (upsert k w s)) k' = lookup (upsert k v s) k'"
  by (simp add: lookup_upsert inv_upsert)

lemma lookup_commute:
  "inv s \<Longrightarrow> k \<noteq> l \<Longrightarrow> lookup (upsert k v (upsert l w s)) x = lookup (upsert l w (upsert k v s)) x"
  by (simp add: lookup_upsert inv_upsert)

end

locale keyed_store_del = keyed_store +
  fixes remove :: "'b \<Rightarrow> 'a \<Rightarrow> 'a"
  assumes inv_remove: "inv s \<Longrightarrow> inv (remove k s)"
    and lookup_remove: "inv s \<Longrightarrow> lookup (remove k s) k' = (if k' = k then None else lookup s k')"
begin

lemma lookup_remove_batch:
  "inv s \<Longrightarrow> lookup (fold remove ks s) k = (if k \<in> set ks then None else lookup s k)"
  by (induction ks arbitrary: s) (auto simp: lookup_remove inv_remove)

lemma inv_remove_batch: "inv s \<Longrightarrow> inv (fold remove ks s)"
  by (induction ks arbitrary: s) (auto intro: inv_remove)

end

interpretation pd: keyed_store_del "[]" "\<lambda>k v d. dset d k v" dget dict_ok "\<lambda>k d. ddel d k"
  by unfold_locales auto

lemma dupdate_fold: "dupdate d es = fold (\<lambda>(k, v) d. dset d k v) es d"
  by (induction es arbitrary: d) auto

end
