(* ===== verification/Utf8.thy ===== *)
theory Utf8
  imports Prelude
begin

text \<open>
  \<open>str.encode("utf-8")\<close> and the strict \<open>bytes.decode("utf-8")\<close> that the router applies to keys and
  to JSON texts: surrogates do not encode, and decoding rejects overlong forms, surrogates and code
  points above 0x10FFFF.
\<close>

definition code_point :: "nat \<Rightarrow> bool" where
  "code_point c \<longleftrightarrow> c < 0x110000"

definition surrogate :: "nat \<Rightarrow> bool" where
  "surrogate c \<longleftrightarrow> 0xD800 \<le> c \<and> c < 0xE000"

definition mk_byte :: "nat \<Rightarrow> byte" where
  "mk_byte n = of_nat n"

lemma unat_mk_byte [simp]: "n < 256 \<Longrightarrow> unat (mk_byte n) = n"
  by (simp add: mk_byte_def)

definition utf8_tail :: "nat \<Rightarrow> byte" where
  "utf8_tail n = mk_byte (0x80 + n mod 64)"

definition utf8_char :: "nat \<Rightarrow> bytes result" where
  "utf8_char c =
     (if c < 0x80 then Inr [mk_byte c]
      else if c < 0x800 then Inr [mk_byte (0xC0 + c div 64), utf8_tail c]
      else if surrogate c \<or> 0x110000 \<le> c then Inl UnicodeEncodeError
      else if c < 0x10000 then Inr [mk_byte (0xE0 + c div 4096), utf8_tail (c div 64), utf8_tail c]
      else Inr [mk_byte (0xF0 + c div 262144), utf8_tail (c div 4096), utf8_tail (c div 64), utf8_tail c])"

fun utf8_encode :: "pystr \<Rightarrow> bytes result" where
  "utf8_encode [] = Inr []"
| "utf8_encode (c # s) = bind_result (utf8_char c) (\<lambda>b. bind_result (utf8_encode s) (\<lambda>bs. Inr (b @ bs)))"

definition tail_byte :: "nat \<Rightarrow> bool" where
  "tail_byte x \<longleftrightarrow> 0x80 \<le> x \<and> x < 0xC0"

definition add_char :: "nat \<Rightarrow> pystr result \<Rightarrow> pystr result" where
  "add_char c r = bind_result r (\<lambda>s. Inr (c # s))"

text \<open>One character from the front of the numeric values of the bytes, with what is left.\<close>

definition utf8_step :: "nat list \<Rightarrow> (nat \<times> nat) option" where
  "utf8_step xs =
     (case xs of
        [] \<Rightarrow> None
      | a # ys \<Rightarrow>
          if a < 0x80 then Some (a, 1)
          else (case ys of
            [] \<Rightarrow> None
          | b # zs \<Rightarrow>
              if 0xC2 \<le> a \<and> a < 0xE0 then
                (if tail_byte b then Some ((a - 0xC0) * 64 + (b - 0x80), 2) else None)
              else (case zs of
                [] \<Rightarrow> None
              | c # ws \<Rightarrow>
                  if 0xE0 \<le> a \<and> a < 0xF0 then
                    (let n = (a - 0xE0) * 4096 + (b - 0x80) * 64 + (c - 0x80)
                     in if tail_byte b \<and> tail_byte c \<and> 0x800 \<le> n \<and> \<not> surrogate n then Some (n, 3) else None)
                  else (case ws of
                    [] \<Rightarrow> None
                  | d # _ \<Rightarrow>
                      if 0xF0 \<le> a \<and> a < 0xF5 then
                        (let n = (a - 0xF0) * 262144 + (b - 0x80) * 4096 + (c - 0x80) * 64 + (d - 0x80)
                         in if tail_byte b \<and> tail_byte c \<and> tail_byte d \<and> 0x10000 \<le> n \<and> n < 0x110000
                            then Some (n, 4) else None)
                      else None))))"

lemma utf8_step_length: "utf8_step xs = Some (c, k) \<Longrightarrow> 0 < k \<and> k \<le> length xs"
  by (auto simp: utf8_step_def Let_def split: list.splits if_splits)

function utf8_decode_vals :: "nat list \<Rightarrow> pystr result" where
  "utf8_decode_vals xs =
     (if xs = [] then Inr []
      else case utf8_step xs of
             None \<Rightarrow> Inl UnicodeDecodeError
           | Some (c, k) \<Rightarrow> add_char c (utf8_decode_vals (drop k xs)))"
  by pat_completeness auto
termination
  by (relation "measure length") (auto dest: utf8_step_length)

declare utf8_decode_vals.simps [simp del]

definition utf8_decode :: "bytes \<Rightarrow> pystr result" where
  "utf8_decode bs = utf8_decode_vals (map unat bs)"

subsection \<open>The two are inverse to each other\<close>

lemma unat_tail [simp]: "unat (utf8_tail n) = 0x80 + n mod 64"
  by (simp add: utf8_tail_def)

lemma utf8_char_length: "utf8_char c = Inr b \<Longrightarrow> b \<noteq> []"
  by (auto simp: utf8_char_def split: if_splits)

lemma utf8_parts:
  "(c::nat) div 64 * 64 + c mod 64 = c"
  "c div 4096 * 4096 + c div 64 mod 64 * 64 + c mod 64 = c"
  "c div 262144 * 262144 + c div 4096 mod 64 * 4096 + c div 64 mod 64 * 64 + c mod 64 = c"
proof -
  have "c div 64 = c div 4096 * 64 + c div 64 mod 64" using div_mult_mod_eq [of "c div 64" 64] by (simp add: div_mult2_eq [symmetric])
  moreover have "c div 4096 = c div 262144 * 64 + c div 4096 mod 64"
    using div_mult_mod_eq [of "c div 4096" 64] by (simp add: div_mult2_eq [symmetric])
  moreover have "c div 64 * 64 + c mod 64 = c" by simp
  ultimately show "c div 64 * 64 + c mod 64 = c"
    "c div 4096 * 4096 + c div 64 mod 64 * 64 + c mod 64 = c"
    "c div 262144 * 262144 + c div 4096 mod 64 * 4096 + c div 64 mod 64 * 64 + c mod 64 = c"
    by linarith+
qed

lemma utf8_step_char:
  assumes "utf8_char c = Inr b"
  shows "utf8_step (map unat b @ xs) = Some (c, length b)"
proof -
  consider "c < 0x80" | "0x80 \<le> c" "c < 0x800" | "0x800 \<le> c" "c < 0x10000" "\<not> surrogate c"
    | "0x10000 \<le> c" "c < 0x110000"
    using assms by (fastforce simp: utf8_char_def split: if_splits)
  then show ?thesis
  proof cases
    case 1
    with assms show ?thesis by (auto simp: utf8_char_def utf8_step_def)
  next
    case 2
    then have "c div 64 < 32" "2 \<le> c div 64" by auto
    then show ?thesis using assms 2 utf8_parts(1) [of c]
      by (auto simp: utf8_char_def utf8_step_def tail_byte_def)
  next
    case 3
    then have "c div 4096 < 16" by auto
    then show ?thesis using assms 3 utf8_parts(2) [of c]
      by (auto simp: utf8_char_def utf8_step_def tail_byte_def Let_def)
  next
    case 4
    then have "c div 262144 < 5" "\<not> surrogate c" by (auto simp: surrogate_def)
    then show ?thesis using assms 4 utf8_parts(3) [of c]
      by (auto simp: utf8_char_def utf8_step_def tail_byte_def Let_def)
  qed
qed

lemma utf8_roundtrip: "utf8_encode s = Inr bs \<Longrightarrow> utf8_decode bs = Inr s"
proof (induction s arbitrary: bs)
  case Nil
  then show ?case by (simp add: utf8_decode_def utf8_decode_vals.simps)
next
  case (Cons c s)
  then obtain b bs' where b: "utf8_char c = Inr b" "utf8_encode s = Inr bs'" "bs = b @ bs'" by auto
  then have "utf8_decode bs' = Inr s" using Cons.IH by simp
  with b utf8_step_char [OF b(1), of "map unat bs'"] utf8_char_length [OF b(1)] show ?case
    by (simp add: utf8_decode_def utf8_decode_vals.simps [of "map unat b @ _"] add_char_def)
qed

definition plain_text :: "pystr \<Rightarrow> bool" where
  "plain_text s \<longleftrightarrow> (\<forall>c \<in> set s. code_point c \<and> \<not> surrogate c)"

lemma utf8_encode_ok: "(\<exists>bs. utf8_encode s = Inr bs) \<longleftrightarrow> plain_text s"
proof (induction s)
  case (Cons c s)
  have "(\<exists>b. utf8_char c = Inr b) \<longleftrightarrow> code_point c \<and> \<not> surrogate c"
    by (auto simp: utf8_char_def code_point_def surrogate_def)
  with Cons show ?case by (auto simp: plain_text_def)
qed (simp add: plain_text_def)

lemma utf8_encode_error: "utf8_encode s = Inl e \<Longrightarrow> e = UnicodeEncodeError"
  by (induction s) (auto simp: utf8_char_def split: if_splits elim!: bind_result.elims)

lemma utf8_ascii:
  "\<forall>c \<in> set s. c < 128 \<Longrightarrow> utf8_encode s = Inr (map mk_byte s)"
  by (induction s) (auto simp: utf8_char_def)

lemma utf8_encode_append:
  "utf8_encode (s @ t) = bind_result (utf8_encode s) (\<lambda>a. bind_result (utf8_encode t) (\<lambda>b. Inr (a @ b)))"
proof (induction s)
  case Nil
  then show ?case by (cases "utf8_encode t") auto
next
  case (Cons c s)
  then show ?case by (cases "utf8_char c"; cases "utf8_encode s"; cases "utf8_encode t") auto
qed

lemma length_utf8_encode: "utf8_encode s = Inr bs \<Longrightarrow> length s \<le> length bs"
proof (induction s arbitrary: bs)
  case (Cons c s)
  then obtain b bs' where "utf8_char c = Inr b" "utf8_encode s = Inr bs'" "bs = b @ bs'" by auto
  with Cons.IH utf8_char_length [of c b] show ?case by (cases b) fastforce+
qed simp

lemma utf8_decode_error: "utf8_decode bs = Inl e \<Longrightarrow> e = UnicodeDecodeError"
proof -
  have "utf8_decode_vals xs = Inl e \<Longrightarrow> e = UnicodeDecodeError" for xs
  proof (induction xs rule: utf8_decode_vals.induct)
    case (1 xs)
    show ?case
    proof (cases "xs = []")
      case True
      then show ?thesis using "1.prems" by (simp add: utf8_decode_vals.simps [of "[]"])
    next
      case False
      then show ?thesis using "1.IH" "1.prems"
        by (cases "utf8_step xs")
          (auto simp: utf8_decode_vals.simps [of xs] add_char_def bind_result_eq_Inl split: prod.splits)
    qed
  qed
  then show "utf8_decode bs = Inl e \<Longrightarrow> e = UnicodeDecodeError" by (simp add: utf8_decode_def)
qed

end
