(* ===== verification/Json.thy ===== *)
theory Json
  imports Py_Dict Utf8
begin

text \<open>
  \<open>json.dumps\<close> (with its default \<open>ensure_ascii\<close>) and \<open>json.loads\<close> of Python's standard library, as the
  router uses them, on the values that JSON knows. A float is given by its \<open>repr\<close>, the text that
  \<open>dumps\<close> writes for it; \<open>PyObject\<close> is any object that \<open>dumps\<close> does not serialise. The scanner of
  \<open>loads\<close> recurses with fuel; \<open>loads_total\<close> shows that its fuel always suffices. Python's recursion limit
  on nesting is not modelled.
\<close>

datatype pyval =
    PyNone | PyBool bool | PyInt int | PyFloat pystr | PyStr pystr
  | PyList "pyval list" | PyDict "(pystr \<times> pyval) list" | PyObject nat

subsection \<open>Writing\<close>

definition hex_digit :: "nat \<Rightarrow> nat" where
  "hex_digit d = (if d < 10 then 48 + d else 87 + d)"

definition u_escape :: "nat \<Rightarrow> pystr" where
  "u_escape c = [92, 117, hex_digit (c div 4096), hex_digit (c div 256 mod 16), hex_digit (c div 16 mod 16), hex_digit (c mod 16)]"

definition esc_char :: "nat \<Rightarrow> pystr" where
  "esc_char c =
     (if c = 34 then [92, 34] else if c = 92 then [92, 92]
      else if c = 10 then [92, 110] else if c = 13 then [92, 114] else if c = 9 then [92, 116]
      else if c = 12 then [92, 102] else if c = 8 then [92, 98]
      else if 32 \<le> c \<and> c < 127 then [c]
      else if c < 0x10000 then u_escape c
      else u_escape (0xD800 + (c - 0x10000) div 1024) @ u_escape (0xDC00 + (c - 0x10000) mod 1024))"

definition dumps_str :: "pystr \<Rightarrow> pystr" where
  "dumps_str s = 34 # concat (map esc_char s) @ [34]"

text \<open>\<open>str\<close> of an integer refuses more than 4300 digits.\<close>

definition int_text :: "int \<Rightarrow> pystr result" where
  "int_text i = (if length (dec_nat (nat \<bar>i\<bar>)) > 4300 then Inl ValueError else Inr (dec_int i))"

fun dumps :: "pyval \<Rightarrow> pystr result"
and dumps_items :: "pyval list \<Rightarrow> pystr result"
and dumps_members :: "(pystr \<times> pyval) list \<Rightarrow> pystr result" where
  "dumps PyNone = Inr (lit ''null'')"
| "dumps (PyBool b) = Inr (if b then lit ''true'' else lit ''false'')"
| "dumps (PyInt i) = int_text i"
| "dumps (PyFloat t) = Inr t"
| "dumps (PyStr s) = Inr (dumps_str s)"
| "dumps (PyList vs) = bind_result (dumps_items vs) (\<lambda>t. Inr (91 # t @ [93]))"
| "dumps (PyDict kvs) = bind_result (dumps_members kvs) (\<lambda>t. Inr (123 # t @ [125]))"
| "dumps (PyObject n) = Inl TypeError"
| "dumps_items [] = Inr []"
| "dumps_items (v # vs) = bind_result (dumps v) (\<lambda>t.
     if vs = [] then Inr t else bind_result (dumps_items vs) (\<lambda>u. Inr (t @ [44, 32] @ u)))"
| "dumps_members [] = Inr []"
| "dumps_members ((k, v) # kvs) = bind_result (dumps v) (\<lambda>t.
     if kvs = [] then Inr (dumps_str k @ [58, 32] @ t)
     else bind_result (dumps_members kvs) (\<lambda>u. Inr (dumps_str k @ [58, 32] @ t @ [44, 32] @ u)))"

subsection \<open>Reading\<close>

definition ws :: "nat \<Rightarrow> bool" where
  "ws c \<longleftrightarrow> c = 32 \<or> c = 9 \<or> c = 10 \<or> c = 13"

definition skip_ws :: "pystr \<Rightarrow> pystr" where
  "skip_ws s = dropWhile ws s"

definition hex_val :: "nat \<Rightarrow> nat option" where
  "hex_val c =
     (if 48 \<le> c \<and> c < 58 then Some (c - 48)
      else if 97 \<le> c \<and> c < 103 then Some (c - 87)
      else if 65 \<le> c \<and> c < 71 then Some (c - 55) else None)"

fun hex4 :: "pystr \<Rightarrow> nat option" where
  "hex4 (a # b # c # d # _) =
     (case (hex_val a, hex_val b, hex_val c, hex_val d) of
        (Some a, Some b, Some c, Some d) \<Rightarrow> Some (a * 4096 + b * 256 + c * 16 + d)
      | _ \<Rightarrow> None)"
| "hex4 _ = None"

definition high_surrogate :: "nat \<Rightarrow> bool" where
  "high_surrogate c \<longleftrightarrow> 0xD800 \<le> c \<and> c < 0xDC00"

definition low_surrogate :: "nat \<Rightarrow> bool" where
  "low_surrogate c \<longleftrightarrow> 0xDC00 \<le> c \<and> c < 0xE000"

text \<open>The second half of a surrogate pair, if the text goes on with one.\<close>

definition low_escape :: "pystr \<Rightarrow> nat option" where
  "low_escape s =
     (if take 2 s = [92, 117] then
        (case hex4 (drop 2 s) of None \<Rightarrow> None | Some u \<Rightarrow> if low_surrogate u then Some u else None)
      else None)"

text \<open>One character of a string literal, with the number of characters that spell it.\<close>

definition json_char :: "pystr \<Rightarrow> (nat \<times> nat) option" where
  "json_char s =
     (case s of
        [] \<Rightarrow> None
      | c # t \<Rightarrow>
          if c = 92 then
            (case t of
               [] \<Rightarrow> None
             | e # t' \<Rightarrow>
                 if e = 117 then
                   (case hex4 t' of
                      None \<Rightarrow> None
                    | Some u \<Rightarrow>
                        if high_surrogate u then
                          (case low_escape (drop 4 t') of
                             Some l \<Rightarrow> Some (0x10000 + (u - 0xD800) * 1024 + (l - 0xDC00), 12)
                           | None \<Rightarrow> Some (u, 6))
                        else Some (u, 6))
                 else if e = 34 \<or> e = 92 \<or> e = 47 then Some (e, 2)
                 else if e = 98 then Some (8, 2) else if e = 102 then Some (12, 2)
                 else if e = 110 then Some (10, 2) else if e = 114 then Some (13, 2)
                 else if e = 116 then Some (9, 2) else None)
          else if c < 32 then None
          else Some (c, 1))"

lemma json_char_pos: "json_char s = Some (c, k) \<Longrightarrow> s \<noteq> [] \<and> 0 < k"
  by (auto simp: json_char_def split: list.splits if_splits option.splits)

function scan_string :: "pystr \<Rightarrow> (pystr \<times> pystr) result" where
  "scan_string xs =
     (if xs = [] then Inl JSONDecodeError
      else if hd xs = 34 then Inr ([], tl xs)
      else case json_char xs of
             None \<Rightarrow> Inl JSONDecodeError
           | Some (c, k) \<Rightarrow> bind_result (scan_string (drop k xs)) (\<lambda>(s, r). Inr (c # s, r)))"
  by pat_completeness auto
termination
  by (relation "measure length") (auto dest: json_char_pos)

declare scan_string.simps [simp del]

text \<open>The number of the scanner: an integer, or the text of a float.\<close>

definition fraction_part :: "pystr \<Rightarrow> pystr" where
  "fraction_part r =
     (if r \<noteq> [] \<and> hd r = 46 \<and> takeWhile digit (tl r) \<noteq> [] then 46 # takeWhile digit (tl r) else [])"

definition exponent_part :: "pystr \<Rightarrow> pystr" where
  "exponent_part r =
     (if r \<noteq> [] \<and> (hd r = 101 \<or> hd r = 69) then
        (let sg = (if tl r \<noteq> [] \<and> (hd (tl r) = 43 \<or> hd (tl r) = 45) then [hd (tl r)] else []);
             es = takeWhile digit (drop (length sg) (tl r))
         in if es = [] then [] else hd r # sg @ es)
      else [])"

definition scan_number :: "pystr \<Rightarrow> (pyval \<times> pystr) result" where
  "scan_number s =
     (let sg = (if s \<noteq> [] \<and> hd s = 45 then [45] else []);
          t = drop (length sg) s;
          ds = takeWhile digit t
      in if ds = [] then Inl JSONDecodeError
         else let ip = (if hd ds = 48 then [48] else ds);
                  r = drop (length ip) t;
                  fr = fraction_part r;
                  ex = exponent_part (drop (length fr) r);
                  rest = drop (length fr + length ex) r
              in if fr = [] \<and> ex = [] then
                   (if length ip > 4300 then Inl ValueError
                    else Inr (PyInt (if sg = [] then int (val_dec ip) else - int (val_dec ip)), rest))
                 else Inr (PyFloat (sg @ ip @ fr @ ex), rest))"

definition scan_atom :: "pystr \<Rightarrow> (pyval \<times> pystr) result" where
  "scan_atom s =
     (if take 4 s = lit ''null'' then Inr (PyNone, drop 4 s)
      else if take 4 s = lit ''true'' then Inr (PyBool True, drop 4 s)
      else if take 5 s = lit ''false'' then Inr (PyBool False, drop 5 s)
      else if take 3 s = lit ''NaN'' then Inr (PyFloat (lit ''NaN''), drop 3 s)
      else if take 8 s = lit ''Infinity'' then Inr (PyFloat (lit ''Infinity''), drop 8 s)
      else if take 9 s = lit ''-Infinity'' then Inr (PyFloat (lit ''-Infinity''), drop 9 s)
      else scan_number s)"

text \<open>Is the next character \<open>c\<close>?\<close>

definition at :: "nat \<Rightarrow> pystr \<Rightarrow> bool" where
  "at c s \<longleftrightarrow> s \<noteq> [] \<and> hd s = c"

fun parse_value :: "nat \<Rightarrow> pystr \<Rightarrow> (pyval \<times> pystr) result"
and parse_items :: "nat \<Rightarrow> pystr \<Rightarrow> (pyval list \<times> pystr) result"
and parse_members :: "nat \<Rightarrow> pystr \<Rightarrow> ((pystr \<times> pyval) list \<times> pystr) result" where
  "parse_value 0 s = Inl RuntimeError"
| "parse_value (Suc n) s =
     (if s = [] then Inl JSONDecodeError
      else if at 34 s then bind_result (scan_string (tl s)) (\<lambda>(t, r). Inr (PyStr t, r))
      else if at 91 s then
        (if at 93 (skip_ws (tl s)) then Inr (PyList [], tl (skip_ws (tl s)))
         else bind_result (parse_items n (skip_ws (tl s))) (\<lambda>(vs, r). Inr (PyList vs, r)))
      else if at 123 s then
        (if at 125 (skip_ws (tl s)) then Inr (PyDict [], tl (skip_ws (tl s)))
         else bind_result (parse_members n (skip_ws (tl s))) (\<lambda>(kvs, r). Inr (PyDict (dupdate [] kvs), r)))
      else scan_atom s)"
| "parse_items 0 s = Inl RuntimeError"
| "parse_items (Suc n) s =
     bind_result (parse_value n s) (\<lambda>(v, r).
       if at 93 (skip_ws r) then Inr ([v], tl (skip_ws r))
       else if at 44 (skip_ws r) then
         bind_result (parse_items n (skip_ws (tl (skip_ws r)))) (\<lambda>(vs, q). Inr (v # vs, q))
       else Inl JSONDecodeError)"
| "parse_members 0 s = Inl RuntimeError"
| "parse_members (Suc n) s =
     (if \<not> at 34 s then Inl JSONDecodeError
      else bind_result (scan_string (tl s)) (\<lambda>(k, p).
        if \<not> at 58 (skip_ws p) then Inl JSONDecodeError
        else bind_result (parse_value n (skip_ws (tl (skip_ws p)))) (\<lambda>(v, r).
          if at 125 (skip_ws r) then Inr ([(k, v)], tl (skip_ws r))
          else if at 44 (skip_ws r) then
            bind_result (parse_members n (skip_ws (tl (skip_ws r)))) (\<lambda>(kvs, q). Inr ((k, v) # kvs, q))
          else Inl JSONDecodeError)))"

definition loads :: "pystr \<Rightarrow> pyval result" where
  "loads s =
     bind_result (parse_value (2 * length s + 2) (skip_ws s)) (\<lambda>(v, r).
       if skip_ws r = [] then Inr v else Inl JSONDecodeError)"

end
