(* ===== verification/Json_Roundtrip.thy ===== *)
theory Json_Roundtrip
  imports Json
begin

text \<open>
  What the router relies on of the JSON texts: \<open>loads\<close> reads back what \<open>dumps\<close> wrote
  (\<open>json_roundtrip\<close>), the text is ASCII, only \<open>None\<close> is written as \<open>null\<close>, and the scanner never runs
  out of fuel. A string survives if no high surrogate is directly followed by a low one
  (\<open>json_text\<close>): \<open>loads\<close> joins such a pair.
\<close>

subsection \<open>Characters and strings\<close>

lemma hex_val_digit [simp]: "d < 16 \<Longrightarrow> hex_val (hex_digit d) = Some d"
  by (auto simp: hex_val_def hex_digit_def)

lemma hex4_parts: "(c::nat) div 4096 * 4096 + c div 256 mod 16 * 256 + c div 16 mod 16 * 16 + c mod 16 = c"
proof -
  have "c div 16 = c div 256 * 16 + c div 16 mod 16"
    using div_mult_mod_eq [of "c div 16" 16] by (simp add: div_mult2_eq [symmetric])
  moreover have "c div 256 = c div 4096 * 16 + c div 256 mod 16"
    using div_mult_mod_eq [of "c div 256" 16] by (simp add: div_mult2_eq [symmetric])
  moreover have "c div 16 * 16 + c mod 16 = c" by simp
  ultimately show ?thesis by linarith
qed

lemma hex4_u_escape: "c < 0x10000 \<Longrightarrow> hex4 (drop 2 (u_escape c) @ r) = Some c"
proof -
  assume "c < 0x10000"
  then have "c div 4096 < 16" by auto
  then show ?thesis using hex4_parts [of c] by (simp add: u_escape_def)
qed

lemma length_u_escape [simp]: "length (u_escape c) = 6"
  by (simp add: u_escape_def)

lemma u_escape_start: "u_escape c = 92 # 117 # drop 2 (u_escape c)"
  by (simp add: u_escape_def)

lemma low_escape_u: "c < 0x10000 \<Longrightarrow> low_escape (u_escape c @ r) = (if low_surrogate c then Some c else None)"
  using hex4_u_escape [of c r] u_escape_start [of c] by (simp add: low_escape_def u_escape_def)

lemma json_char_u:
  assumes "c < 0x10000" and "high_surrogate c \<Longrightarrow> low_escape r = None"
  shows "json_char (u_escape c @ r) = Some (c, 6)"
proof -
  have "json_char (92 # 117 # drop 2 (u_escape c) @ r) = Some (c, 6)"
    using assms hex4_u_escape [OF assms(1), of r] by (simp add: json_char_def u_escape_def)
  then show ?thesis by (simp add: u_escape_def)
qed

lemma json_char_pair:
  assumes "0x10000 \<le> c" and "code_point c"
  shows "json_char (esc_char c @ r) = Some (c, 12)"
proof -
  let ?h = "0xD800 + (c - 0x10000) div 1024" and ?l = "0xDC00 + (c - 0x10000) mod 1024"
  have "(c - 0x10000) div 1024 < 1024" using assms by (auto simp: code_point_def)
  then have h: "?h < 0x10000" "high_surrogate ?h" "?l < 0x10000" "low_surrogate ?l"
    by (auto simp: high_surrogate_def low_surrogate_def trans_less_add1)
  have "c = 0x10000 + (?h - 0xD800) * 1024 + (?l - 0xDC00)"
    using assms(1) div_mult_mod_eq [of "c - 0x10000" 1024] by simp
  moreover have "json_char (92 # 117 # drop 2 (u_escape ?h) @ u_escape ?l @ r) =
      Some (0x10000 + (?h - 0xD800) * 1024 + (?l - 0xDC00), 12)"
  proof -
    have len: "drop 4 (drop 2 (u_escape ?h) @ u_escape ?l @ r) = u_escape ?l @ r"
      by (simp add: u_escape_def)
    show ?thesis
      unfolding json_char_def using h hex4_u_escape [OF h(1), of "u_escape ?l @ r"] low_escape_u [OF h(3), of r]
      by (simp only: list.case if_True refl option.case len HOL.simp_thms hex4_u_escape)
  qed
  moreover have "esc_char c = u_escape ?h @ u_escape ?l" using assms by (simp add: esc_char_def)
  moreover have "u_escape ?h @ t = 92 # 117 # drop 2 (u_escape ?h) @ t" for t by (simp add: u_escape_def)
  ultimately show ?thesis by (simp only: append_assoc append_Cons)
qed

lemma esc_char_cases:
  obtains (simple) e where "esc_char c = [92, e]" "e \<noteq> 117" "c < 128" "json_char ([92, e] @ r) = Some (c, 2)"
  | (self) "esc_char c = [c]" "c \<noteq> 34" "c \<noteq> 92" "32 \<le> c" "c < 127"
  | (u) "esc_char c = u_escape c" "c < 0x10000"
  | (pair) "0x10000 \<le> c"
proof -
  consider "c \<in> {34, 92, 10, 13, 9, 12, 8}" | "c \<notin> {34, 92, 10, 13, 9, 12, 8}" "32 \<le> c \<and> c < 127"
    | "c \<notin> {34, 92, 10, 13, 9, 12, 8}" "\<not> (32 \<le> c \<and> c < 127)" "c < 0x10000" | "0x10000 \<le> c" by fastforce
  then show thesis
  proof cases
    case 1
    have "esc_char c = [92, esc_char c ! 1] \<and> esc_char c ! 1 \<noteq> 117 \<and> c < 128 \<and> json_char ([92, esc_char c ! 1] @ r) = Some (c, 2)"
      using 1 by (elim insertE emptyE) (simp_all add: esc_char_def json_char_def)
    then show thesis using simple by blast
  next
    case 2
    then show thesis by (intro self) (auto simp: esc_char_def)
  next
    case 3
    then show thesis by (intro u) (auto simp: esc_char_def)
  next
    case 4
    then show thesis by (rule pair)
  qed
qed

lemma json_char_esc:
  assumes "code_point c" and "high_surrogate c \<Longrightarrow> low_escape r = None"
  shows "json_char (esc_char c @ r) = Some (c, length (esc_char c))"
proof (rule esc_char_cases [of c r])
  assume "0x10000 \<le> c"
  with json_char_pair [OF this assms(1), of r] show ?thesis by (simp add: esc_char_def)
qed (use assms json_char_u in \<open>auto simp: json_char_def\<close>)

lemma low_escape_esc: "code_point c \<Longrightarrow> low_escape (esc_char c @ r) \<noteq> None \<Longrightarrow> low_surrogate c"
proof (rule esc_char_cases [of c r])
  assume c: "0x10000 \<le> c" "code_point c" "low_escape (esc_char c @ r) \<noteq> None"
  let ?h = "0xD800 + (c - 0x10000) div 1024" and ?l = "0xDC00 + (c - 0x10000) mod 1024"
  have "(c - 0x10000) div 1024 < 1024" using c by (auto simp: code_point_def)
  then have "?h < 0x10000" "\<not> low_surrogate ?h" by (auto simp: low_surrogate_def)
  moreover have "esc_char c = u_escape ?h @ u_escape ?l" using c by (simp add: esc_char_def)
  ultimately show ?thesis using c(3) low_escape_u [of ?h "u_escape ?l @ r"] by simp
qed (auto simp: low_escape_u split: if_splits, auto simp: low_escape_def)

lemma esc_char_start: "esc_char c \<noteq> [] \<and> hd (esc_char c) \<noteq> 34"
  by (auto simp: esc_char_def u_escape_def)

fun json_text :: "pystr \<Rightarrow> bool" where
  "json_text [] = True"
| "json_text (c # s) \<longleftrightarrow> code_point c \<and> \<not> (high_surrogate c \<and> s \<noteq> [] \<and> low_surrogate (hd s)) \<and> json_text s"

lemma scan_string_esc:
  "json_text s \<Longrightarrow> scan_string (concat (map esc_char s) @ 34 # r) = Inr (s, r)"
proof (induction s)
  case Nil
  then show ?case by (simp add: scan_string.simps)
next
  case (Cons c s)
  let ?t = "concat (map esc_char s) @ 34 # r"
  have "low_escape ?t = None" if h: "high_surrogate c"
  proof (cases s)
    case Nil
    then show ?thesis by (simp add: low_escape_def)
  next
    case (Cons d s')
    then have "code_point d" "\<not> low_surrogate d" using Cons.prems h by auto
    then have "low_escape (esc_char d @ concat (map esc_char s') @ 34 # r) = None"
      using low_escape_esc by blast
    with Cons show ?thesis by simp
  qed
  then have "json_char (esc_char c @ ?t) = Some (c, length (esc_char c))"
    using Cons.prems by (intro json_char_esc) auto
  then show ?case
    using Cons esc_char_start [of c] by (simp add: scan_string.simps [of "esc_char c @ _"])
qed


subsection \<open>Numbers\<close>

text \<open>What may follow a value: nothing, or a character that no number goes on with.\<close>

definition delim :: "pystr \<Rightarrow> bool" where
  "delim r \<longleftrightarrow> r = [] \<or> \<not> digit (hd r) \<and> hd r \<notin> {46, 101, 69, 43, 45}"

lemma takeWhile_digit_delim: "delim r \<Longrightarrow> takeWhile digit (ds @ r) = takeWhile digit ds"
  by (induction ds) (cases r; auto simp: delim_def)+

lemma fraction_delim: "delim r \<Longrightarrow> fraction_part (q @ r) = fraction_part q"
  by (cases q; cases r) (auto simp: fraction_part_def takeWhile_digit_delim, auto simp: delim_def)

lemma exponent_delim: "delim r \<Longrightarrow> exponent_part (q @ r) = exponent_part q"
proof (cases q)
  case Nil
  then show "delim r \<Longrightarrow> ?thesis" by (cases r) (auto simp: exponent_part_def delim_def)
next
  case (Cons a q')
  assume d: "delim r"
  show ?thesis
  proof (cases q')
    case Nil
    then show ?thesis using Cons d takeWhile_digit_delim [OF d, of "[]"]
      by (cases r) (auto simp: exponent_part_def delim_def Let_def)
  next
    case (Cons b q'')
    then show ?thesis using \<open>q = a # q'\<close> takeWhile_digit_delim [OF d, of q''] takeWhile_digit_delim [OF d, of q']
      by (simp add: exponent_part_def Let_def)
  qed
qed

lemma length_fraction: "length (fraction_part q) \<le> length q"
  using length_takeWhile_le [of digit "tl q"] by (cases q) (auto simp: fraction_part_def)

lemma length_exponent: "length (exponent_part q) \<le> length q"
proof (cases q)
  case (Cons a q')
  then show ?thesis
    using length_takeWhile_le [of digit q'] length_takeWhile_le [of digit "tl q'"]
    by (cases q') (auto simp: exponent_part_def Let_def)
qed (simp add: exponent_part_def)

lemma scan_number_rest: "scan_number s = Inr (v, r) \<Longrightarrow> \<exists>k > 0. k \<le> length s \<and> r = drop k s"
proof -
  assume a: "scan_number s = Inr (v, r)"
  define sg where "sg = (if s \<noteq> [] \<and> hd s = 45 then [45::nat] else [])"
  define t where "t = drop (length sg) s"
  define ds where "ds = takeWhile digit t"
  define ip where "ip = (if hd ds = 48 then [48] else ds)"
  define q where "q = drop (length ip) t"
  define fr where "fr = fraction_part q"
  define ex where "ex = exponent_part (drop (length fr) q)"
  note E = a [unfolded scan_number_def Let_def, folded sg_def, folded t_def, folded ds_def, folded ip_def,
      folded q_def, folded fr_def, folded ex_def]
  from E have ds: "ds \<noteq> []" by (cases "ds = []") simp_all
  from E have r: "r = drop (length fr + length ex) q" by (simp split: if_splits)
  have lip: "0 < length ip" "length ip \<le> length t"
    using ds length_takeWhile_le [of digit t] by (cases ds; auto simp: ip_def ds_def)+
  have "length fr \<le> length q" using length_fraction by (simp add: fr_def)
  moreover have "length ex \<le> length q - length fr" using length_exponent [of "drop (length fr) q"] by (simp add: ex_def)
  ultimately have l: "length fr + length ex \<le> length q" by simp
  have sgl: "length sg \<le> length s" by (auto simp: sg_def Suc_le_eq)
  let ?k = "length sg + length ip + length fr + length ex"
  have "r = drop ?k s" using r by (simp add: q_def t_def ac_simps)
  moreover have "?k \<le> length s" using l lip sgl by (simp add: q_def t_def)
  moreover have "0 < ?k" using lip by simp
  ultimately show ?thesis by (intro exI [of _ ?k] conjI)
qed

lemma scan_number_delim:
  assumes "scan_number t = Inr (v, [])" and d: "delim r"
  shows "scan_number (t @ r) = Inr (v, r)"
proof -
  have ne: "t \<noteq> []" using scan_number_rest [OF assms(1)] by auto
  define sg where "sg = (if t \<noteq> [] \<and> hd t = 45 then [45::nat] else [])"
  define u where "u = drop (length sg) t"
  define ds where "ds = takeWhile digit u"
  define ip where "ip = (if hd ds = 48 then [48] else ds)"
  define q where "q = drop (length ip) u"
  define fr where "fr = fraction_part q"
  define ex where "ex = exponent_part (drop (length fr) q)"
  note E = assms(1) [unfolded scan_number_def Let_def, folded sg_def, folded u_def, folded ds_def, folded ip_def,
      folded q_def, folded fr_def, folded ex_def]
  from E have ds: "ds \<noteq> []" by (cases "ds = []") simp_all
  from E have all: "drop (length fr + length ex) q = []" by (simp split: if_splits)
  have lip: "length ip \<le> length u"
    using ds length_takeWhile_le [of digit u] by (cases ds; auto simp: ip_def ds_def)+
  have sgl: "length sg \<le> length t" using ne by (cases t) (auto simp: sg_def)
  have e: "(if t @ r \<noteq> [] \<and> hd (t @ r) = 45 then [45] else []) = sg"
    "drop (length sg) (t @ r) = u @ r" "takeWhile digit (u @ r) = ds"
    "drop (length ip) (u @ r) = q @ r" "fraction_part (q @ r) = fr"
    using ne sgl lip d by (simp_all add: sg_def u_def ds_def q_def fr_def takeWhile_digit_delim fraction_delim)
  have "length fr \<le> length q" using length_fraction by (simp add: fr_def)
  then have e2: "drop (length fr) (q @ r) = drop (length fr) q @ r" by simp
  have e3: "exponent_part (drop (length fr) q @ r) = ex" using d by (simp add: ex_def exponent_delim)
  have "length fr + length ex = length q"
    using all \<open>length fr \<le> length q\<close> length_exponent [of "drop (length fr) q"] by (simp add: ex_def)
  then have e4: "drop (length fr + length ex) (q @ r) = r" by simp
  have "scan_number (t @ r) =
      (if fr = [] \<and> ex = [] then
         (if length ip > 4300 then Inl ValueError
          else Inr (PyInt (if sg = [] then int (val_dec ip) else - int (val_dec ip)), r))
       else Inr (PyFloat (sg @ ip @ fr @ ex), r))"
    unfolding scan_number_def Let_def e e2 e3 e4 ip_def [symmetric] using ds by simp
  with E ds show ?thesis
    by (cases "fr = [] \<and> ex = []"; cases "4300 < length ip") auto
qed

lemma takeWhile_digits: "\<forall>c \<in> set ds. digit c \<Longrightarrow> takeWhile digit ds = ds"
  by (simp add: takeWhile_eq_all_conv)

lemma scan_number_int:
  assumes "length (dec_nat (nat \<bar>i\<bar>)) \<le> 4300"
  shows "scan_number (dec_int i) = Inr (PyInt i, [])"
proof -
  define ds where "ds = dec_nat (nat \<bar>i\<bar>)"
  have tw: "takeWhile digit ds = ds" using dec_nat_digits unfolding ds_def by (intro takeWhile_digits) blast
  have ne: "ds \<noteq> []" "length ds \<le> 4300" "val_dec ds = nat \<bar>i\<bar>" using assms by (simp_all add: ds_def)
  have ip: "(if hd ds = 48 then [48] else ds) = ds"
    using dec_nat_hd [of "nat \<bar>i\<bar>"] by (simp add: ds_def dec_nat.simps)
  have "digit (hd ds)" using dec_nat_digits [of "hd ds" "nat \<bar>i\<bar>"] ne(1) by (simp add: ds_def)
  then have hd: "hd ds \<noteq> 45" by (auto simp: digit_def)
  have none: "fraction_part [] = []" "exponent_part [] = []" by (simp_all add: fraction_part_def exponent_part_def)
  show ?thesis
  proof (cases "i < 0")
    case True
    then have "dec_int i = 45 # ds" by (simp add: dec_int_def ds_def)
    moreover have "- int (val_dec ds) = i" using ne(3) True by simp
    ultimately show ?thesis using ne(1,2) none by (simp add: scan_number_def Let_def tw ip split del: if_split cong: if_cong)
  next
    case False
    then have "dec_int i = ds" by (simp add: dec_int_def ds_def)
    moreover have "int (val_dec ds) = i" using ne(3) False by simp
    ultimately show ?thesis using ne(1,2) none hd by (simp add: scan_number_def Let_def tw ip split del: if_split cong: if_cong)
  qed
qed

subsection \<open>Values\<close>

text \<open>The texts of floats, and the values that \<open>dumps\<close> writes so that \<open>loads\<close> reads them back.\<close>

definition float_text :: "pystr \<Rightarrow> bool" where
  "float_text t \<longleftrightarrow> (\<forall>c \<in> set t. c < 128) \<and> (t = lit ''NaN'' \<or> t = lit ''Infinity'' \<or> t = lit ''-Infinity'' \<or> scan_number t = Inr (PyFloat t, []))"

fun json_value :: "pyval \<Rightarrow> bool" and json_items :: "pyval list \<Rightarrow> bool"
and json_members :: "(pystr \<times> pyval) list \<Rightarrow> bool" where
  "json_value PyNone = True"
| "json_value (PyBool b) = True"
| "json_value (PyInt i) \<longleftrightarrow> length (dec_nat (nat \<bar>i\<bar>)) \<le> 4300"
| "json_value (PyFloat t) \<longleftrightarrow> float_text t"
| "json_value (PyStr s) \<longleftrightarrow> json_text s"
| "json_value (PyList vs) \<longleftrightarrow> json_items vs"
| "json_value (PyDict kvs) \<longleftrightarrow> distinct (map fst kvs) \<and> json_members kvs"
| "json_value (PyObject n) = False"
| "json_items [] = True"
| "json_items (v # vs) \<longleftrightarrow> json_value v \<and> json_items vs"
| "json_members [] = True"
| "json_members ((k, v) # kvs) \<longleftrightarrow> json_text k \<and> json_value v \<and> json_members kvs"

lemma scan_number_start: "scan_number t = Inr (v, r) \<Longrightarrow> t \<noteq> [] \<and> (digit (hd t) \<or> hd t = 45)"
  by (cases t) (auto simp: scan_number_def Let_def split: if_splits)

lemma scan_atom_number:
  assumes n: "scan_number t = Inr (v, [])" and d: "delim r"
  shows "scan_atom (t @ r) = Inr (v, r)"
proof -
  obtain c t' where t: "t = c # t'" "digit c \<or> c = 45" using scan_number_start [OF n] by (cases t) auto
  have "t' \<noteq> []" if "c = 45" using n that t by (auto simp: scan_number_def)
  moreover have "digit (hd t')" if "c = 45" using n that t by (cases t') (auto simp: scan_number_def split: if_splits)
  ultimately have "take 4 (t @ r) \<noteq> lit ''null''" "take 4 (t @ r) \<noteq> lit ''true''" "take 5 (t @ r) \<noteq> lit ''false''"
    "take 3 (t @ r) \<noteq> lit ''NaN''" "take 8 (t @ r) \<noteq> lit ''Infinity''" "take 9 (t @ r) \<noteq> lit ''-Infinity''"
    using t by (cases t'; auto simp: lit_def digit_def)+
  then show ?thesis using scan_number_delim [OF n d] by (simp add: scan_atom_def)
qed

lemma scan_atom_words:
  "scan_atom (lit ''null'' @ r) = Inr (PyNone, r)" "scan_atom (lit ''true'' @ r) = Inr (PyBool True, r)"
  "scan_atom (lit ''false'' @ r) = Inr (PyBool False, r)" "scan_atom (lit ''NaN'' @ r) = Inr (PyFloat (lit ''NaN''), r)"
  "scan_atom (lit ''Infinity'' @ r) = Inr (PyFloat (lit ''Infinity''), r)"
  "scan_atom (lit ''-Infinity'' @ r) = Inr (PyFloat (lit ''-Infinity''), r)"
  by (simp_all add: scan_atom_def lit_def)

definition atom_start :: "pystr \<Rightarrow> bool" where
  "atom_start t \<longleftrightarrow> t \<noteq> [] \<and> hd t \<notin> {34, 91, 123} \<and> \<not> ws (hd t)"

lemma atom_start_number: "scan_number t = Inr (v, r) \<Longrightarrow> atom_start t"
  using scan_number_start [of t v r] by (auto simp: atom_start_def digit_def ws_def)

lemma atom_start_words:
  "atom_start (lit ''null'')" "atom_start (lit ''true'')" "atom_start (lit ''false'')"
  "atom_start (lit ''NaN'')" "atom_start (lit ''Infinity'')" "atom_start (lit ''-Infinity'')"
  by (simp_all add: atom_start_def lit_def ws_def)

lemma parse_atom: "atom_start t \<Longrightarrow> parse_value (Suc n) (t @ r) = scan_atom (t @ r)"
  by (cases t) (auto simp: atom_start_def at_def)

lemma atom_value:
  assumes "json_value v" and "dumps v = Inr t" and "\<not> (\<exists>s. v = PyStr s)" and "\<not> (\<exists>vs. v = PyList vs)"
    and "\<not> (\<exists>kvs. v = PyDict kvs)" and d: "delim r"
  shows "atom_start t \<and> scan_atom (t @ r) = Inr (v, r)"
proof (cases v)
  case (PyBool b)
  with assms(2) show ?thesis by (cases b) (auto simp: atom_start_words scan_atom_words)
next
  case (PyInt i)
  then have t: "t = dec_int i" "scan_number t = Inr (v, [])"
    using assms(1,2) scan_number_int by (auto simp: int_text_def)
  show ?thesis using atom_start_number [OF t(2)] scan_atom_number [OF t(2) d] by simp
next
  case (PyFloat f)
  then have t: "t = f" "float_text t" "v = PyFloat t" using assms(1,2) by auto
  then consider "t = lit ''NaN''" | "t = lit ''Infinity''" | "t = lit ''-Infinity''" | "scan_number t = Inr (v, [])"
    by (auto simp: float_text_def)
  then show ?thesis
  proof cases
    case 4
    show ?thesis using atom_start_number [OF 4] scan_atom_number [OF 4 d] by simp
  qed (use t atom_start_words scan_atom_words in auto)
qed (use assms atom_start_words scan_atom_words in auto)

lemma text_start:
  assumes "dumps v = Inr t" and "json_value v"
  shows "t \<noteq> [] \<and> \<not> ws (hd t) \<and> hd t \<noteq> 93 \<and> hd t \<noteq> 125"
proof (cases v)
  case (PyInt i)
  then have "scan_number t = Inr (v, [])" using assms scan_number_int by (auto simp: int_text_def)
  from scan_number_start [OF this] show ?thesis by (auto simp: ws_def digit_def)
next
  case (PyFloat f)
  then consider "t = lit ''NaN''" | "t = lit ''Infinity''" | "t = lit ''-Infinity''" | "scan_number t = Inr (v, [])"
    using assms by (auto simp: float_text_def)
  then show ?thesis
  proof cases
    case 4
    from scan_number_start [OF this] show ?thesis by (auto simp: ws_def digit_def)
  qed (auto simp: lit_def ws_def)
qed (use assms in \<open>auto simp: lit_def ws_def dumps_str_def split: if_splits\<close>)

lemma skip_ws_start: "t \<noteq> [] \<Longrightarrow> \<not> ws (hd t) \<Longrightarrow> skip_ws (t @ r) = t @ r"
  by (cases t) (auto simp: skip_ws_def)

lemma skip_space [simp]: "skip_ws (32 # r) = skip_ws r"
  by (simp add: skip_ws_def ws_def)

lemma skip_punct [simp]: "c \<in> {44, 58, 91, 93, 123, 125} \<Longrightarrow> skip_ws (c # r) = c # r"
  by (auto simp: skip_ws_def ws_def)

lemma at_Cons [simp]: "at c (d # s) \<longleftrightarrow> d = c"
  by (auto simp: at_def)

lemma delim_punct [simp]: "c \<in> {44, 93, 125} \<Longrightarrow> delim (c # r)"
  by (auto simp: delim_def digit_def)

lemma dumps_str_scan: "json_text s \<Longrightarrow> scan_string (tl (dumps_str s) @ r) = Inr (s, r)"
  using scan_string_esc [of s r] by (simp add: dumps_str_def)

lemma dumps_str_at: "at 34 (dumps_str s @ r)"
  by (simp add: dumps_str_def)

lemma parse_dumps_atom:
  assumes "json_value v" and "\<not> (\<exists>s. v = PyStr s)" and "\<not> (\<exists>vs. v = PyList vs)" and "\<not> (\<exists>kvs. v = PyDict kvs)"
  shows "\<exists>t. dumps v = Inr t \<and> (\<forall>n r. length t \<le> n \<longrightarrow> delim r \<longrightarrow> parse_value n (t @ r) = Inr (v, r))"
proof -
  obtain t where t: "dumps v = Inr t" using assms by (cases v) (auto simp: int_text_def)
  have "parse_value n (t @ r) = Inr (v, r)" if "length t \<le> n" "delim r" for n r
  proof -
    have a: "atom_start t" "scan_atom (t @ r) = Inr (v, r)"
      using atom_value [OF assms(1) t assms(2-4) that(2)] by auto
    moreover have "0 < n" using a(1) that(1) by (cases t) (auto simp: atom_start_def)
    ultimately obtain m where "n = Suc m" by (cases n) auto
    with a parse_atom [OF a(1)] show ?thesis by simp
  qed
  with t show ?thesis by blast
qed

lemma parse_items_Cons:
  assumes v: "\<And>n r. length t \<le> n \<Longrightarrow> delim r \<Longrightarrow> parse_value n (t @ r) = Inr (v, r)"
    and vs: "\<And>n r. length u < n \<Longrightarrow> parse_items n (u @ 93 # r) = Inr (vs, r)"
    and u: "u \<noteq> []" "\<not> ws (hd u)" and n: "length (t @ [44, 32] @ u) < n"
  shows "parse_items n ((t @ [44, 32] @ u) @ 93 # r) = Inr (v # vs, r)"
proof -
  obtain m where m: "n = Suc m" using n by (cases n) auto
  have "parse_value m (t @ 44 # 32 # u @ 93 # r) = Inr (v, 44 # 32 # u @ 93 # r)"
    using n m by (intro v) auto
  moreover have "parse_items m (u @ 93 # r) = Inr (vs, r)" using n m by (intro vs) auto
  ultimately show ?thesis using skip_ws_start [OF u, of "93 # r"] m by simp
qed

lemma parse_members_Cons:
  assumes k: "json_text k" and v: "\<And>n r. length t \<le> n \<Longrightarrow> delim r \<Longrightarrow> parse_value n (t @ r) = Inr (v, r)"
    and t: "t \<noteq> []" "\<not> ws (hd t)"
    and kvs: "\<And>n r. length u < n \<Longrightarrow> parse_members n (u @ 125 # r) = Inr (kvs, r)"
    and u: "u \<noteq> []" "hd u = 34" and n: "length (dumps_str k @ [58, 32] @ t @ [44, 32] @ u) < n"
  shows "parse_members n ((dumps_str k @ [58, 32] @ t @ [44, 32] @ u) @ 125 # r) = Inr ((k, v) # kvs, r)"
proof -
  obtain m where m: "n = Suc m" using n by (cases n) auto
  have "parse_value m (t @ 44 # 32 # u @ 125 # r) = Inr (v, 44 # 32 # u @ 125 # r)"
    using n m by (intro v) auto
  moreover have "parse_members m (u @ 125 # r) = Inr (kvs, r)" using n m by (intro kvs) auto
  moreover have "\<not> ws (hd u)" using u by (simp add: ws_def)
  moreover have "tl (dumps_str k @ x) = tl (dumps_str k) @ x" for x by (simp add: dumps_str_def)
  ultimately show ?thesis
    using skip_ws_start [OF u(1), of "125 # r"] skip_ws_start [OF t, of "44 # 32 # u @ 125 # r"] m
      dumps_str_at [of k] dumps_str_scan [OF k]
    by simp
qed

lemma parse_members_last:
  assumes k: "json_text k" and v: "\<And>n r. length t \<le> n \<Longrightarrow> delim r \<Longrightarrow> parse_value n (t @ r) = Inr (v, r)"
    and t: "t \<noteq> []" "\<not> ws (hd t)" and n: "length (dumps_str k @ [58, 32] @ t) < n"
  shows "parse_members n ((dumps_str k @ [58, 32] @ t) @ 125 # r) = Inr ([(k, v)], r)"
proof -
  obtain m where m: "n = Suc m" using n by (cases n) auto
  have "parse_value m (t @ 125 # r) = Inr (v, 125 # r)" using n m by (intro v) auto
  moreover have "tl (dumps_str k @ x) = tl (dumps_str k) @ x" for x by (simp add: dumps_str_def)
  ultimately show ?thesis
    using skip_ws_start [OF t, of "125 # r"] m dumps_str_at [of k] dumps_str_scan [OF k] by simp
qed

lemma dupdate_distinct: "distinct (map fst (d @ kvs)) \<Longrightarrow> dupdate d kvs = d @ kvs"
proof (induction kvs arbitrary: d)
  case (Cons e kvs)
  obtain k v where e: "e = (k, v)" by (cases e)
  have "dset d k v = d @ [(k, v)]" using Cons.prems e by (intro dset_absent) auto
  with Cons.IH [of "d @ [(k, v)]"] Cons.prems e show ?case by simp
qed simp

lemma parse_dumps:
  fixes v :: pyval and vs :: "pyval list" and kvs :: "(pystr \<times> pyval) list"
  shows "json_value v \<Longrightarrow> \<exists>t. dumps v = Inr t \<and>
      (\<forall>n r. length t \<le> n \<longrightarrow> delim r \<longrightarrow> parse_value n (t @ r) = Inr (v, r))"
    and "json_items vs \<Longrightarrow> vs \<noteq> [] \<Longrightarrow> \<exists>t. dumps_items vs = Inr t \<and> t \<noteq> [] \<and> \<not> ws (hd t) \<and> hd t \<noteq> 93 \<and>
      (\<forall>n r. length t < n \<longrightarrow> parse_items n (t @ 93 # r) = Inr (vs, r))"
    and "json_members kvs \<Longrightarrow> kvs \<noteq> [] \<Longrightarrow> \<exists>t. dumps_members kvs = Inr t \<and> t \<noteq> [] \<and> hd t = 34 \<and>
      (\<forall>n r. length t < n \<longrightarrow> parse_members n (t @ 125 # r) = Inr (kvs, r))"
proof (induction v and vs and kvs rule: dumps_dumps_items_dumps_members.induct)
  case (5 s)
  have "parse_value n (dumps_str s @ r) = Inr (PyStr s, r)" if "length (dumps_str s) \<le> n" for n r
  proof -
    have "0 < n" using that by (simp add: dumps_str_def)
    then obtain m where "n = Suc m" by (cases n) auto
    then show ?thesis using dumps_str_scan [of s r] 5 by (simp add: dumps_str_def)
  qed
  then show ?case by simp
next
  case (6 vs)
  show ?case
  proof (cases "vs = []")
    case True
    have "parse_value n (91 # 93 # r) = Inr (PyList [], r)" if "2 \<le> n" for n r
      using that by (cases n) auto
    with True show ?thesis by auto
  next
    case False
    with 6 obtain t where t: "dumps_items vs = Inr t" "t \<noteq> []" "\<not> ws (hd t)" "hd t \<noteq> 93"
        "\<And>n r. length t < n \<Longrightarrow> parse_items n (t @ 93 # r) = Inr (vs, r)" by auto
    have "parse_value n ((91 # t @ [93]) @ r) = Inr (PyList vs, r)" if "length (91 # t @ [93]) \<le> n" for n r
    proof -
      have "0 < n" using that by simp
      then obtain m where "n = Suc m" by (cases n) auto
      moreover have "\<not> at 93 (t @ 93 # r)" using t by (cases t) auto
      ultimately show ?thesis using t(5) [of m r] that skip_ws_start [OF t(2,3)] by simp
    qed
    with t(1) show ?thesis by simp
  qed
next
  case (7 kvs)
  then have dis: "dupdate [] kvs = kvs" using dupdate_distinct [of "[]" kvs] by simp
  show ?case
  proof (cases "kvs = []")
    case True
    have "parse_value n (123 # 125 # r) = Inr (PyDict [], r)" if "2 \<le> n" for n r
      using that by (cases n) auto
    with True show ?thesis by auto
  next
    case False
    with 7 obtain t where t: "dumps_members kvs = Inr t" "t \<noteq> []" "hd t = 34"
        "\<And>n r. length t < n \<Longrightarrow> parse_members n (t @ 125 # r) = Inr (kvs, r)" by auto
    have w: "\<not> ws (hd t)" using t(3) by (simp add: ws_def)
    have "parse_value n ((123 # t @ [125]) @ r) = Inr (PyDict kvs, r)" if "length (123 # t @ [125]) \<le> n" for n r
    proof -
      have "0 < n" using that by simp
      then obtain m where "n = Suc m" by (cases n) auto
      moreover have "\<not> at 125 (t @ 125 # r)" using t by (cases t) auto
      ultimately show ?thesis using t(4) [of m r] that skip_ws_start [OF t(2) w] dis by simp
    qed
    with t(1) show ?thesis by simp
  qed
next
  case (10 v vs)
  then obtain t where t: "dumps v = Inr t"
      "\<And>n r. length t \<le> n \<Longrightarrow> delim r \<Longrightarrow> parse_value n (t @ r) = Inr (v, r)" by auto
  have st: "t \<noteq> []" "\<not> ws (hd t)" "hd t \<noteq> 93" using text_start [OF t(1)] 10 by auto
  show ?case
  proof (cases "vs = []")
    case True
    have "parse_items n (t @ 93 # r) = Inr ([v], r)" if "length t < n" for n r
      using that t(2) by (cases n) auto
    with True t(1) st show ?thesis by auto
  next
    case False
    with 10 t(1) obtain u where u: "dumps_items vs = Inr u" "u \<noteq> []" "\<not> ws (hd u)"
        "\<And>n r. length u < n \<Longrightarrow> parse_items n (u @ 93 # r) = Inr (vs, r)" by auto
    have "parse_items n ((t @ [44, 32] @ u) @ 93 # r) = Inr (v # vs, r)" if "length (t @ [44, 32] @ u) < n" for n r
      using that by (intro parse_items_Cons [OF t(2) u(4) u(2,3)])
    with False t(1) u(1) st show ?thesis by auto
  qed
next
  case (12 k v kvs)
  then obtain t where t: "dumps v = Inr t"
      "\<And>n r. length t \<le> n \<Longrightarrow> delim r \<Longrightarrow> parse_value n (t @ r) = Inr (v, r)" by auto
  have st: "t \<noteq> []" "\<not> ws (hd t)" using text_start [OF t(1)] 12 by auto
  have k: "json_text k" using 12 by simp
  have q: "dumps_str k \<noteq> []" "hd (dumps_str k) = 34" by (simp_all add: dumps_str_def)
  show ?case
  proof (cases "kvs = []")
    case True
    have "parse_members n ((dumps_str k @ [58, 32] @ t) @ 125 # r) = Inr ([(k, v)], r)"
      if "length (dumps_str k @ [58, 32] @ t) < n" for n r
      using that by (intro parse_members_last [OF k t(2) st])
    with True t(1) q show ?thesis by auto
  next
    case False
    with 12 t(1) obtain u where u: "dumps_members kvs = Inr u" "u \<noteq> []" "hd u = 34"
        "\<And>n r. length u < n \<Longrightarrow> parse_members n (u @ 125 # r) = Inr (kvs, r)" by auto
    have "parse_members n ((dumps_str k @ [58, 32] @ t @ [44, 32] @ u) @ 125 # r) = Inr ((k, v) # kvs, r)"
      if "length (dumps_str k @ [58, 32] @ t @ [44, 32] @ u) < n" for n r
      using that by (intro parse_members_Cons [OF k t(2) st u(4) u(2,3)])
    with False t(1) u(1) q show ?thesis by auto
  qed
next
  case 1
  then show ?case by (rule parse_dumps_atom) simp_all
next
  case (2 b)
  then show ?case by (rule parse_dumps_atom) simp_all
next
  case (3 i)
  then show ?case by (rule parse_dumps_atom) simp_all
next
  case (4 t)
  then show ?case by (rule parse_dumps_atom) simp_all
qed simp_all

theorem json_roundtrip:
  assumes "json_value v"
  shows "\<exists>t. dumps v = Inr t \<and> loads t = Inr v"
proof -
  obtain t where t: "dumps v = Inr t" "\<And>n r. length t \<le> n \<Longrightarrow> delim r \<Longrightarrow> parse_value n (t @ r) = Inr (v, r)"
    using parse_dumps(1) [OF assms] by blast
  have "skip_ws (t @ []) = t @ []" using text_start [OF t(1) assms] by (intro skip_ws_start) auto
  moreover have "parse_value (2 * length t + 2) (t @ []) = Inr (v, [])" by (rule t(2)) (simp_all add: delim_def)
  ultimately have "loads t = Inr v" by (simp add: loads_def) (simp add: skip_ws_def)
  with t(1) show ?thesis by blast
qed

text \<open>The text is ASCII, and only \<open>None\<close> is written as \<open>null\<close>.\<close>

lemma hex_digit_ascii: "d < 16 \<Longrightarrow> hex_digit d < 128"
  by (auto simp: hex_digit_def)

lemma u_escape_ascii: "c < 0x10000 \<Longrightarrow> x \<in> set (u_escape c) \<Longrightarrow> x < 128"
proof -
  assume "c < 0x10000" "x \<in> set (u_escape c)"
  moreover from this have "c div 4096 < 16" by auto
  ultimately show "x < 128" by (auto simp: u_escape_def hex_digit_ascii)
qed

lemma esc_char_ascii: "code_point c \<Longrightarrow> x \<in> set (esc_char c) \<Longrightarrow> x < 128"
proof (rule esc_char_cases [of c "[]"])
  assume c: "0x10000 \<le> c" "code_point c" "x \<in> set (esc_char c)"
  have "(c - 0x10000) div 1024 < 1024" using c by (auto simp: code_point_def)
  then have h: "0xD800 + (c - 0x10000) div 1024 < 0x10000" "0xDC00 + (c - 0x10000) mod 1024 < 0x10000" by auto
  have "x \<in> set (u_escape (0xD800 + (c - 0x10000) div 1024)) \<or> x \<in> set (u_escape (0xDC00 + (c - 0x10000) mod 1024))"
    using c by (simp add: esc_char_def)
  then show "x < 128" using u_escape_ascii [OF h(1)] u_escape_ascii [OF h(2)] by blast
next
  fix e assume e: "esc_char c = [92, e]" "x \<in> set (esc_char c)"
  then have "e \<in> {34, 92, 110, 114, 116, 102, 98}" by (auto simp: esc_char_def u_escape_def split: if_splits)
  with e show "x < 128" by auto
qed (use u_escape_ascii in auto)

lemma json_text_points: "json_text s \<Longrightarrow> c \<in> set s \<Longrightarrow> code_point c"
  by (induction s) auto

lemma dumps_str_ascii: "json_text s \<Longrightarrow> x \<in> set (dumps_str s) \<Longrightarrow> x < 128"
  using esc_char_ascii json_text_points by (fastforce simp: dumps_str_def)

lemma dec_int_ascii: "x \<in> set (dec_int i) \<Longrightarrow> x < 128"
  using dec_nat_digits by (fastforce simp: dec_int_def digit_def split: if_splits)

lemma dumps_ascii:
  "json_value v \<Longrightarrow> dumps v = Inr t \<Longrightarrow> x \<in> set t \<Longrightarrow> x < 128"
  "json_items vs \<Longrightarrow> dumps_items vs = Inr t \<Longrightarrow> x \<in> set t \<Longrightarrow> x < 128"
  "json_members kvs \<Longrightarrow> dumps_members kvs = Inr t \<Longrightarrow> x \<in> set t \<Longrightarrow> x < 128"
proof (induction v and vs and kvs arbitrary: t and t and t rule: dumps_dumps_items_dumps_members.induct)
  case (3 i)
  then show ?case using dec_int_ascii by (auto simp: int_text_def)
next
  case (5 s)
  then show ?case using dumps_str_ascii by auto
next
  case (12 k v kvs)
  then show ?case using dumps_str_ascii [of k x] by (auto split: if_splits)
qed (auto simp: lit_def float_text_def split: if_splits)

lemma dumps_null: "json_value v \<Longrightarrow> dumps v = Inr (lit ''null'') \<longleftrightarrow> v = PyNone"
  using json_roundtrip [of v] json_roundtrip [of PyNone] by auto

text \<open>The fuel of \<open>loads\<close> suffices: the scanner consumes a character per value.\<close>

lemma scan_string_rest: "scan_string s = Inr (t, r) \<Longrightarrow> length r < length s"
proof (induction s arbitrary: t r rule: scan_string.induct)
  case (1 xs)
  show ?case
  proof (cases "xs = [] \<or> hd xs = 34")
    case True
    with 1(2) [unfolded scan_string.simps [of xs]] show ?thesis by (cases xs) auto
  next
    case False
    then obtain c k t' where k: "json_char xs = Some (c, k)" "scan_string (drop k xs) = Inr (t', r)"
      using 1(2) by (auto simp: scan_string.simps [of xs] split: option.splits prod.splits)
    with 1(1) [OF _ _ k(1) refl k(2)] False json_char_pos [OF k(1)] show ?thesis by simp
  qed
qed

lemma scan_string_no_fuel: "scan_string s \<noteq> Inl RuntimeError"
proof (induction s rule: scan_string.induct)
  case (1 xs)
  then show ?case
    by (cases "xs = [] \<or> hd xs = 34"; cases "json_char xs")
      (auto simp: scan_string.simps [of xs] elim!: bind_result.elims split: prod.splits)
qed

lemma length_skip_ws: "length (skip_ws s) \<le> length s"
  by (simp add: skip_ws_def length_dropWhile_le)

lemma scan_atom_rest: "scan_atom s = Inr (v, r) \<Longrightarrow> s \<noteq> [] \<Longrightarrow> length r < length s"
  using scan_number_rest [of s v r] by (cases s) (auto simp: scan_atom_def lit_def split: if_splits)

lemma scan_atom_no_fuel: "scan_atom s \<noteq> Inl RuntimeError"
  by (auto simp: scan_atom_def scan_number_def Let_def split: if_splits)

lemma length_tl_skip: "at c (skip_ws r) \<Longrightarrow> length (tl (skip_ws r)) < length r"
  using length_skip_ws [of r] by (cases "skip_ws r") (auto simp: at_def)

lemma parse_rest:
  "parse_value n s = Inr (v, r) \<Longrightarrow> length r < length s"
  "parse_items n s = Inr (vs, r) \<Longrightarrow> length r < length s"
  "parse_members n s = Inr (kvs, r) \<Longrightarrow> length r < length s"
proof (induction n s and n s and n s arbitrary: v r and vs r and kvs r rule: parse_value_parse_items_parse_members.induct)
  case (2 n s)
  have ne: "s \<noteq> []" using "2.prems" by auto
  then have tl: "length (tl s) < length s" by (cases s) (auto simp: at_def)
  have sk: "length (skip_ws (tl s)) \<le> length (tl s)" by (rule length_skip_ws)
  consider "at 34 s" | "\<not> at 34 s" "at 91 s" "at 93 (skip_ws (tl s))" | "\<not> at 34 s" "at 91 s" "\<not> at 93 (skip_ws (tl s))"
    | "\<not> at 34 s" "\<not> at 91 s" "at 123 s" "at 125 (skip_ws (tl s))" | "\<not> at 34 s" "\<not> at 91 s" "at 123 s" "\<not> at 125 (skip_ws (tl s))"
    | "\<not> at 34 s" "\<not> at 91 s" "\<not> at 123 s" by blast
  then show ?case
  proof cases
    case 1
    then obtain t where "scan_string (tl s) = Inr (t, r)" using "2.prems" ne by auto
    from scan_string_rest [OF this] tl show ?thesis by simp
  next
    case 2
    with "2.prems" ne have "r = tl (skip_ws (tl s))" by simp
    with length_tl_skip [OF 2(3)] tl show ?thesis by simp
  next
    case 3
    with "2.prems" ne obtain vs where "parse_items n (skip_ws (tl s)) = Inr (vs, r)" by auto
    from "2.IH"(1) [OF ne 3 this] sk tl show ?thesis by simp
  next
    case 4
    with "2.prems" ne have "r = tl (skip_ws (tl s))" by simp
    with length_tl_skip [OF 4(4)] tl show ?thesis by simp
  next
    case 5
    with "2.prems" ne obtain kvs where "parse_members n (skip_ws (tl s)) = Inr (kvs, r)" by auto
    from "2.IH"(2) [OF ne 5 this] sk tl show ?thesis by simp
  next
    case 6
    then show ?thesis using scan_atom_rest "2.prems" ne by simp
  qed
next
  case (4 n s)
  from "4.prems" obtain v q where v: "parse_value n s = Inr (v, q)" by auto
  have l: "length q < length s" by (rule "4.IH"(1) [OF v])
  show ?case
  proof (cases "at 93 (skip_ws q)")
    case True
    with "4.prems" v l length_tl_skip [OF True] show ?thesis by auto
  next
    case False
    then have a: "at 44 (skip_ws q)" using "4.prems" v by (auto split: if_splits)
    then obtain vs' where p: "parse_items n (skip_ws (tl (skip_ws q))) = Inr (vs', r)" using "4.prems" v False by auto
    from "4.IH"(2) [OF False a p] length_tl_skip [OF a] length_skip_ws [of "tl (skip_ws q)"] l
    show ?thesis by simp
  qed
next
  case (6 n s)
  have a: "at 34 s" using "6.prems" by (auto split: if_splits)
  then have tl: "length (tl s) < length s" by (cases s) (auto simp: at_def)
  from a "6.prems" obtain k p where k: "scan_string (tl s) = Inr (k, p)" by auto
  have b: "at 58 (skip_ws p)" using a k "6.prems" by (auto split: if_splits)
  then obtain v q where v: "parse_value n (skip_ws (tl (skip_ws p))) = Inr (v, q)" using a k "6.prems" by auto
  note l = "6.IH"(1) [simplified, OF a b v] scan_string_rest [OF k] length_tl_skip [OF b]
    length_skip_ws [of "tl (skip_ws p)"]
  show ?case
  proof (cases "at 125 (skip_ws q)")
    case True
    with "6.prems" a b k v l tl length_tl_skip [OF True] show ?thesis by auto
  next
    case False
    then have c: "at 44 (skip_ws q)" using "6.prems" a b k v by (auto split: if_splits)
    then obtain kvs' where m: "parse_members n (skip_ws (tl (skip_ws q))) = Inr (kvs', r)" using "6.prems" a b k v False by auto
    show ?thesis
      using "6.IH"(2) [simplified, OF a b False c m]
        l tl length_tl_skip [OF c] length_skip_ws [of "tl (skip_ws q)"] by simp
  qed
qed simp_all

lemma parse_no_fuel:
  "2 * length s + 1 \<le> n \<Longrightarrow> parse_value n s \<noteq> Inl RuntimeError"
  "2 * length s + 2 \<le> n \<Longrightarrow> parse_items n s \<noteq> Inl RuntimeError"
  "2 * length s + 2 \<le> n \<Longrightarrow> parse_members n s \<noteq> Inl RuntimeError"
proof (induction n s and n s and n s rule: parse_value_parse_items_parse_members.induct)
  case (2 n s)
  show ?case
  proof (cases "s = []")
    case False
    then have "2 * length (skip_ws (tl s)) + 2 \<le> n" using "2.prems" length_skip_ws [of "tl s"] by (cases s) auto
    then show ?thesis
      using "2.IH" scan_string_no_fuel [of "tl s"] scan_atom_no_fuel [of s] False
      by (auto elim!: bind_result.elims)
  qed simp
next
  case (4 n s)
  show ?case
  proof (cases "parse_value n s")
    case (Inl e)
    with 4 show ?thesis by auto
  next
    case (Inr vq)
    obtain v q where v: "parse_value n s = Inr (v, q)" using Inr by (cases vq) auto
    have "2 * length (skip_ws (tl (skip_ws q))) + 2 \<le> n" if "at 44 (skip_ws q)"
      using "4.prems" parse_rest(1) [OF v] length_tl_skip [OF that] length_skip_ws [of "tl (skip_ws q)"] by simp
    then show ?thesis
      using "4.IH"(2) [of q] v by (auto elim!: bind_result.elims)
  qed
next
  case (6 n s)
  show ?case
  proof (cases "at 34 s \<and> (\<exists>k p. scan_string (tl s) = Inr (k, p) \<and> at 58 (skip_ws p))")
    case False
    then show ?thesis using scan_string_no_fuel [of "tl s"] by (cases "scan_string (tl s)") (auto split: prod.splits)
  next
    case True
    then obtain k p where a: "at 34 s" "scan_string (tl s) = Inr (k, p)" "at 58 (skip_ws p)" by blast
    let ?x = "skip_ws (tl (skip_ws p))"
    have "length (tl s) < length s" using a(1) by (cases s) (auto simp: at_def)
    then have lx: "2 * length ?x + 6 \<le> Suc n"
      using "6.prems" scan_string_rest [OF a(2)] length_tl_skip [OF a(3)] length_skip_ws [of "tl (skip_ws p)"] by simp
    note 1 = "6.IH"(1) [simplified, OF a(1,3)]
    show ?thesis
    proof (cases "parse_value n ?x")
      case (Inl e)
      with 1 lx a show ?thesis by auto
    next
      case (Inr vq)
      obtain v q where v: "parse_value n ?x = Inr (v, q)" using Inr by (cases vq) auto
      have "2 * length (skip_ws (tl (skip_ws q))) + 2 \<le> n" if "at 44 (skip_ws q)"
        using lx parse_rest(1) [OF v] length_tl_skip [OF that] length_skip_ws [of "tl (skip_ws q)"] by simp
      then show ?thesis
        using "6.IH"(2) [of p q, simplified, OF a(1,3)] a v by (auto elim!: bind_result.elims)
    qed
  qed
qed simp_all

lemma loads_total: "loads s \<noteq> Inl RuntimeError"
proof -
  have "parse_value (2 * length s + 2) (skip_ws s) \<noteq> Inl RuntimeError"
    using length_skip_ws [of s] by (intro parse_no_fuel(1)) simp
  then show ?thesis
    by (cases "parse_value (2 * length s + 2) (skip_ws s)")
      (auto simp: loads_def simp del: parse_value.simps split: if_splits)
qed

end
