(* ===== verification/Base64.thy ===== *)
theory Base64
  imports Utf8
begin

text \<open>
  \<open>base64.b64encode\<close> and the lenient \<open>base64.b64decode\<close> (characters outside the alphabet are skipped,
  the input ends at complete padding), which carry the chunks of a large value as text.
\<close>

definition b64_char :: "nat \<Rightarrow> nat" where
  "b64_char v =
     (if v < 26 then 65 + v else if v < 52 then 71 + v else if v < 62 then v - 4 else if v = 62 then 43 else 47)"

definition b64_value :: "nat \<Rightarrow> nat option" where
  "b64_value c =
     (if 65 \<le> c \<and> c \<le> 90 then Some (c - 65) else if 97 \<le> c \<and> c \<le> 122 then Some (c - 71)
      else if 48 \<le> c \<and> c \<le> 57 then Some (c + 4) else if c = 43 then Some 62 else if c = 47 then Some 63 else None)"

fun b64encode_vals :: "nat list \<Rightarrow> nat list" where
  "b64encode_vals [] = []"
| "b64encode_vals [a] = [b64_char (a div 4), b64_char (a mod 4 * 16), 61, 61]"
| "b64encode_vals [a, b] =
     [b64_char (a div 4), b64_char (a mod 4 * 16 + b div 16), b64_char (b mod 16 * 4), 61]"
| "b64encode_vals (a # b # c # xs) =
     b64_char (a div 4) # b64_char (a mod 4 * 16 + b div 16) # b64_char (b mod 16 * 4 + c div 64) # b64_char (c mod 64) #
     b64encode_vals xs"

definition b64encode :: "bytes \<Rightarrow> bytes" where
  "b64encode bs = map mk_byte (b64encode_vals (map unat bs))"

text \<open>The decoder's loop: position in the quadruple, the bits left over, the pads seen in a row.\<close>

fun b64_loop :: "nat \<Rightarrow> nat \<Rightarrow> nat \<Rightarrow> nat list \<Rightarrow> nat list result" where
  "b64_loop pos left pads [] = (if pos = 0 then Inr [] else Inl ValueError)"
| "b64_loop pos left pads (c # cs) =
     (if c = 61 then
        (if 2 \<le> pos \<and> 4 \<le> pos + (pads + 1) then Inr []
         else b64_loop pos left (if 2 \<le> pos then pads + 1 else pads) cs)
      else case b64_value c of
             None \<Rightarrow> b64_loop pos left pads cs
           | Some v \<Rightarrow>
               if pos = 0 then b64_loop 1 v 0 cs
               else if pos = 1 then bind_result (b64_loop 2 (v mod 16) 0 cs) (\<lambda>r. Inr ((left * 4 + v div 16) # r))
               else if pos = 2 then bind_result (b64_loop 3 (v mod 4) 0 cs) (\<lambda>r. Inr ((left * 16 + v div 4) # r))
               else bind_result (b64_loop 0 0 0 cs) (\<lambda>r. Inr ((left * 64 + v) # r)))"

definition b64decode :: "bytes \<Rightarrow> bytes result" where
  "b64decode bs = bind_result (b64_loop 0 0 0 (map unat bs)) (\<lambda>r. Inr (map mk_byte r))"

lemma b64_value_char [simp]: "v < 64 \<Longrightarrow> b64_value (b64_char v) = Some v"
  by (auto simp: b64_value_def b64_char_def)

lemma b64_char_not_pad [simp]: "v < 64 \<Longrightarrow> b64_char v \<noteq> 61"
  by (auto simp: b64_char_def)

lemma b64_char_ascii: "v < 64 \<Longrightarrow> b64_char v < 128"
  by (auto simp: b64_char_def)

lemma b64_bits:
  fixes a b c :: nat
  assumes "a < 256" and "b < 256" and "c < 256"
  shows "a div 4 < 64" "a mod 4 * 16 + b div 16 < 64" "b mod 16 * 4 + c div 64 < 64" "c mod 64 < 64"
    "a mod 4 * 16 < 64" "b mod 16 * 4 < 64"
    "a div 4 * 4 + (a mod 4 * 16 + b div 16) div 16 = a" "a div 4 * 4 + (a mod 4 * 16) div 16 = a"
    "(a mod 4 * 16 + b div 16) mod 16 * 16 + (b mod 16 * 4 + c div 64) div 4 = b"
    "(a mod 4 * 16 + b div 16) mod 16 * 16 + (b mod 16 * 4) div 4 = b"
    "(b mod 16 * 4 + c div 64) mod 4 * 64 + c mod 64 = c"
proof -
  have d: "b div 16 < 16" "c div 64 < 4" using assms by auto
  have m: "a mod 4 < 4" "b mod 16 < 16" by simp_all
  have e: "(a mod 4 * 16 + b div 16) div 16 = a mod 4" "(a mod 4 * 16 + b div 16) mod 16 = b div 16"
    "(b mod 16 * 4 + c div 64) div 4 = b mod 16" "(b mod 16 * 4 + c div 64) mod 4 = c div 64"
    using d by simp_all
  show "a div 4 < 64" "c mod 64 < 64" using assms by auto
  show "a mod 4 * 16 + b div 16 < 64" "b mod 16 * 4 + c div 64 < 64" "a mod 4 * 16 < 64" "b mod 16 * 4 < 64"
    using d m by linarith+
  show "a div 4 * 4 + (a mod 4 * 16 + b div 16) div 16 = a" "a div 4 * 4 + (a mod 4 * 16) div 16 = a"
    "(a mod 4 * 16 + b div 16) mod 16 * 16 + (b mod 16 * 4 + c div 64) div 4 = b"
    "(a mod 4 * 16 + b div 16) mod 16 * 16 + (b mod 16 * 4) div 4 = b"
    "(b mod 16 * 4 + c div 64) mod 4 * 64 + c mod 64 = c"
    unfolding e by (simp_all add: mult.commute)
qed

lemma b64_loop_encode: "\<forall>x \<in> set xs. x < 256 \<Longrightarrow> b64_loop 0 0 0 (b64encode_vals xs) = Inr xs"
proof (induction xs rule: b64encode_vals.induct)
  case (2 a)
  then show ?case using b64_bits [of a 0 0] by simp
next
  case (3 a b)
  then show ?case using b64_bits [of a b 0] by simp
next
  case (4 a b c xs)
  then show ?case using b64_bits [of a b c] by simp
qed simp

lemma b64encode_vals_ascii: "\<forall>x \<in> set xs. x < 256 \<Longrightarrow> \<forall>y \<in> set (b64encode_vals xs). y < 128"
proof (induction xs rule: b64encode_vals.induct)
  case (2 a)
  then show ?case using b64_bits [of a 0 0] by (simp add: b64_char_ascii)
next
  case (3 a b)
  then show ?case using b64_bits [of a b 0] by (simp add: b64_char_ascii)
next
  case (4 a b c xs)
  then show ?case using b64_bits [of a b c] by (simp add: b64_char_ascii)
qed simp

lemma b64_vals_below: "\<forall>x \<in> set (map unat (bs :: bytes)). x < 256"
  using unat_byte_less by auto

lemma b64encode_unat: "map unat (b64encode bs) = b64encode_vals (map unat bs)"
proof -
  have "\<forall>y \<in> set (b64encode_vals (map unat bs)). unat (mk_byte y) = y"
    using b64encode_vals_ascii [OF b64_vals_below] by fastforce
  then show ?thesis by (simp add: b64encode_def map_idI)
qed

lemma map_mk_byte_unat [simp]: "map mk_byte (map unat bs) = bs"
  by (simp add: map_idI mk_byte_def)

lemma b64_roundtrip: "b64decode (b64encode bs) = Inr bs"
proof -
  have "b64_loop 0 0 0 (b64encode_vals (map unat bs)) = Inr (map unat bs)"
    by (rule b64_loop_encode [OF b64_vals_below])
  then show ?thesis unfolding b64decode_def b64encode_unat by (simp only: bind_result.simps map_mk_byte_unat)
qed

lemma b64encode_ascii: "b \<in> set (b64encode bs) \<Longrightarrow> unat b < 128"
  using b64encode_vals_ascii [OF b64_vals_below, of bs] arg_cong [OF b64encode_unat, of set bs] by fastforce

lemma length_b64encode: "length (b64encode bs) = 4 * ((length bs + 2) div 3)"
proof -
  have "length (b64encode_vals xs) = 4 * ((length xs + 2) div 3)" for xs :: "nat list"
    by (induction xs rule: b64encode_vals.induct) (simp_all, presburger)
  then show ?thesis by (simp add: b64encode_def)
qed

end
