(* ===== verification/Router_Format.thy ===== *)
theory Router_Format
  imports Json_Roundtrip Base64
begin

text \<open>
  The records of \<open>storage/router.py\<close>: the key with its length in front, and the value as JSON. The
  same bytes go to the write-ahead log, the memtable and the pages; a value \<open>None\<close> (the text
  \<open>null\<close>) is a deletion.
\<close>

definition pack_kv :: "pystr \<Rightarrow> pyval \<Rightarrow> bytes result" where
  "pack_kv key v =
     bind_result (utf8_encode key) (\<lambda>kb.
       if length kb > 0xFFFF then Inl ValueError
       else case bind_result (dumps v) utf8_encode of
              Inl e \<Rightarrow> Inl (if e = TypeError \<or> is_value_error e then RouterError else e)
            | Inr vb \<Rightarrow> bind_result (to_be 2 (int (length kb))) (\<lambda>l. Inr (l @ kb @ vb)))"

definition unpack_kv :: "bytes \<Rightarrow> (pystr \<times> pyval) result" where
  "unpack_kv payload =
     (if length payload < 2 then Inl ValueError
      else let klen = be_val (slice payload 0 2)
           in if length payload < 2 + klen + 1 then Inl ValueError
              else case utf8_decode (slice payload 2 (2 + klen)) of
                     Inl e \<Rightarrow> Inl (if e = UnicodeDecodeError then ValueError else e)
                   | Inr key \<Rightarrow>
                       (case bind_result (utf8_decode (drop (2 + klen) payload)) loads of
                          Inl e \<Rightarrow> Inl (if e = JSONDecodeError \<or> e = UnicodeDecodeError then ValueError else e)
                        | Inr v \<Rightarrow> Inr (key, v)))"

text \<open>The test for a deletion that flush makes on the packed record of a key.\<close>

definition is_deletion :: "nat \<Rightarrow> bytes \<Rightarrow> bool" where
  "is_deletion klen payload \<longleftrightarrow> drop (2 + klen) payload = blit ''null''"

definition chunk_key :: "pystr \<Rightarrow> nat \<Rightarrow> pystr" where
  "chunk_key key i = lit ''__chunk__:'' @ key @ [58] @ dec_nat i"

definition is_chunk_key :: "pystr \<Rightarrow> bool" where
  "is_chunk_key key \<longleftrightarrow> take 10 key = lit ''__chunk__:''"

definition is_manifest :: "pyval \<Rightarrow> bool" where
  "is_manifest v =
     (case v of PyDict kvs \<Rightarrow> dget kvs (lit ''__cachy_overflow__'') = Some (PyBool True) | _ \<Rightarrow> False)"

text \<open>\<open>range(val["num_chunks"])\<close> of a manifest; a \<open>bool\<close> is an \<open>int\<close>.\<close>

definition num_chunks :: "pyval \<Rightarrow> nat result" where
  "num_chunks v =
     (case v of
        PyDict kvs \<Rightarrow>
          (case dget kvs (lit ''num_chunks'') of
             None \<Rightarrow> Inl KeyError
           | Some (PyInt i) \<Rightarrow> Inr (nat i)
           | Some (PyBool b) \<Rightarrow> Inr (if b then 1 else 0)
           | Some _ \<Rightarrow> Inl TypeError)
      | _ \<Rightarrow> Inl TypeError)"

definition is_compressed :: "pyval \<Rightarrow> bool" where
  "is_compressed v = (case v of PyDict kvs \<Rightarrow> dget kvs (lit ''compressed'') = Some (PyBool True) | _ \<Rightarrow> False)"

definition make_manifest :: "nat \<Rightarrow> nat \<Rightarrow> pyval" where
  "make_manifest n sz =
     PyDict [(lit ''__cachy_overflow__'', PyBool True), (lit ''num_chunks'', PyInt (int n)),
             (lit ''original_size'', PyInt (int sz)), (lit ''compressed'', PyBool True)]"

text \<open>\<open>[data[i : i + 2000] for i in range(0, len(data), 2000)]\<close>\<close>

function split_chunks :: "bytes \<Rightarrow> bytes list" where
  "split_chunks bs = (if bs = [] then [] else take 2000 bs # split_chunks (drop 2000 bs))"
  by pat_completeness auto
termination
  by (relation "measure length") auto

declare split_chunks.simps [simp del]

text \<open>A chunk is stored as the text of its base64 form.\<close>

definition chunk_text :: "bytes \<Rightarrow> pyval" where
  "chunk_text c = PyStr (map unat (b64encode c))"

definition chunk_bytes :: "pyval \<Rightarrow> bytes result" where
  "chunk_bytes v = (case v of PyStr s \<Rightarrow> bind_result (utf8_encode s) b64decode | _ \<Rightarrow> Inl AttributeError)"

subsection \<open>Packed records\<close>

text \<open>The pairs that pack, and the packed bytes.\<close>

definition packs :: "pystr \<Rightarrow> pyval \<Rightarrow> bytes \<Rightarrow> bool" where
  "packs key v b \<longleftrightarrow> json_value v \<and> pack_kv key v = Inr b"

lemma packsE:
  assumes "packs key v b"
  obtains kb t where "utf8_encode key = Inr kb" "length kb \<le> 0xFFFF" "json_value v" "dumps v = Inr t" "t \<noteq> []"
    "utf8_encode t = Inr (map mk_byte t)" "b = be_bytes 2 (length kb) @ kb @ map mk_byte t"
proof -
  have v: "json_value v" and p: "pack_kv key v = Inr b" using assms by (auto simp: packs_def)
  obtain t where t: "dumps v = Inr t" using parse_dumps(1) [OF v] by blast
  have u: "utf8_encode t = Inr (map mk_byte t)" using dumps_ascii(1) [OF v t] by (intro utf8_ascii) blast
  from p obtain kb where k: "utf8_encode key = Inr kb" "length kb \<le> 0xFFFF"
      "b = be_bytes 2 (length kb) @ kb @ map mk_byte t"
    using t u by (auto simp: pack_kv_def split: if_splits)
  show thesis using that [OF k(1,2) v t _ u k(3)] text_start [OF t v] by blast
qed

lemma pack_kv_ok:
  assumes "json_value v" and "utf8_encode key = Inr kb" and "length kb \<le> 0xFFFF"
  shows "\<exists>b. packs key v b"
proof -
  obtain t where t: "dumps v = Inr t" using parse_dumps(1) [OF assms(1)] by blast
  have "utf8_encode t = Inr (map mk_byte t)" using dumps_ascii(1) [OF assms(1) t] by (intro utf8_ascii) blast
  then show ?thesis using assms t by (simp add: packs_def pack_kv_def)
qed

lemma unpack_packed: "packs key v b \<Longrightarrow> unpack_kv b = Inr (key, v)"
proof -
  assume "packs key v b"
  then obtain kb t where k: "utf8_encode key = Inr kb" "length kb \<le> 0xFFFF" "json_value v" "dumps v = Inr t" "t \<noteq> []"
    "utf8_encode t = Inr (map mk_byte t)" "b = be_bytes 2 (length kb) @ kb @ map mk_byte t"
    by (rule packsE)
  have "be_val (be_bytes 2 (length kb)) = length kb" using k(2) by simp
  then have f: "be_val (slice b 0 2) = length kb" "slice b 2 (2 + length kb) = kb" "drop (2 + length kb) b = map mk_byte t"
    "length b = 2 + length kb + length t"
    by (simp_all add: k(7) slice_def)
  have "0 < length t" using k(5) by simp
  with f k(3,4) utf8_roundtrip [OF k(1)] utf8_roundtrip [OF k(6)] json_roundtrip [OF k(3)]
  show ?thesis by (simp add: unpack_kv_def Let_def)
qed

lemma packed_not_Nil: "packs key v b \<Longrightarrow> b \<noteq> []"
  by (elim packsE) (metis append_is_Nil_conv length_be_bytes list.size(3) zero_neq_numeral)

lemma packed_key:
  assumes "packs key v b" and "packs key' v' b"
  shows "key' = key \<and> v' = v"
  using unpack_packed [OF assms(1)] unpack_packed [OF assms(2)] by simp

lemma map_mk_byte_inj: "\<forall>c \<in> set s. c < 128 \<Longrightarrow> \<forall>c \<in> set t. c < 128 \<Longrightarrow> map mk_byte s = map mk_byte t \<longleftrightarrow> s = t"
proof
  assume a: "\<forall>c \<in> set s. c < 128" "\<forall>c \<in> set t. c < 128" "map mk_byte s = map mk_byte t"
  then have "map unat (map mk_byte s) = map unat (map mk_byte t)" by (simp only:)
  moreover have "map unat (map mk_byte u) = u" if "\<forall>c \<in> set u. c < 128" for u
    using that by (induction u) simp_all
  ultimately have "map unat (map mk_byte s) = map unat (map mk_byte t)" "map unat (map mk_byte s) = s"
    "map unat (map mk_byte t) = t" using a(1,2) by blast+
  then show "s = t" by simp
qed simp

lemma blit_null: "blit ''null'' = map mk_byte (lit ''null'')"
  by (simp add: blit_def lit_def mk_byte_def)

text \<open>The deletion test is exact: no other value is written as \<open>null\<close>.\<close>

lemma deletion_packed:
  assumes "packs key v b" and "utf8_encode key = Inr kb"
  shows "is_deletion (length kb) b \<longleftrightarrow> v = PyNone"
proof -
  obtain t where k: "json_value v" "dumps v = Inr t" "b = be_bytes 2 (length kb) @ kb @ map mk_byte t"
    using assms by (auto elim: packsE)
  have "drop (2 + length kb) b = map mk_byte t" by (simp add: k(3))
  moreover have "map mk_byte t = map mk_byte (lit ''null'') \<longleftrightarrow> t = lit ''null''"
    using dumps_ascii(1) [OF k(1,2)] by (intro map_mk_byte_inj) (auto simp: lit_def)
  ultimately show ?thesis using dumps_null [OF k(1)] k(2) by (simp add: is_deletion_def blit_null)
qed

lemma packed_fields:
  assumes "packs key v b" and "utf8_encode key = Inr kb"
  shows "be_val (slice b 0 2) = length kb" and "slice b 2 (2 + length kb) = kb" and "2 \<le> length b"
proof -
  obtain t where k: "length kb \<le> 0xFFFF" "b = be_bytes 2 (length kb) @ kb @ map mk_byte t"
    using assms by (auto elim: packsE)
  have "be_val (be_bytes 2 (length kb)) = length kb" using k(1) by simp
  then show "be_val (slice b 0 2) = length kb" "slice b 2 (2 + length kb) = kb" "2 \<le> length b"
    by (simp_all add: k(2) slice_def)
qed

lemma chunk_roundtrip: "chunk_bytes (chunk_text c) = Inr c"
proof -
  have "\<forall>x \<in> set (map unat (b64encode c)). x < 128" using b64encode_ascii [of _ c] by auto
  then have "utf8_encode (map unat (b64encode c)) = Inr (map mk_byte (map unat (b64encode c)))"
    by (intro utf8_ascii) blast
  also have "map mk_byte (map unat (b64encode c)) = b64encode c" by (rule map_mk_byte_unat)
  finally have "utf8_encode (map unat (b64encode c)) = Inr (b64encode c)" .
  then show ?thesis by (simp add: chunk_bytes_def chunk_text_def b64_roundtrip)
qed

lemma concat_split_chunks: "concat (split_chunks bs) = bs"
  by (induction bs rule: split_chunks.induct) (simp add: split_chunks.simps)

text \<open>C27: A key whose UTF-8 form has at most 65535 bytes and a JSON value pack into a record that unpacks to
  the same key and value, and the record is taken for a deletion exactly if the value is \<open>None\<close>.\<close>

theorem router_record_roundtrip:
  assumes "json_value v" and "utf8_encode key = Inr kb" and "length kb \<le> 0xFFFF"
  shows "\<exists>b. pack_kv key v = Inr b \<and> unpack_kv b = Inr (key, v) \<and> (is_deletion (length kb) b \<longleftrightarrow> v = PyNone)"
proof -
  obtain b where b: "packs key v b" using pack_kv_ok [OF assms] by blast
  with unpack_packed [OF b] deletion_packed [OF b assms(2)] show ?thesis by (auto simp: packs_def)
qed

theorem router_record_roundtrip_witness:
  "\<exists>b. pack_kv (lit ''users:7'') (PyDict [(lit ''n'', PyInt (- 3))]) = Inr b \<and>
     unpack_kv b = Inr (lit ''users:7'', PyDict [(lit ''n'', PyInt (- 3))])"
proof -
  have k: "utf8_encode (lit ''users:7'') = Inr (map mk_byte (lit ''users:7''))"
    by (rule utf8_ascii) (simp add: lit_def)
  have v: "json_value (PyDict [(lit ''n'', PyInt (- 3))])"
    by (simp add: lit_def code_point_def high_surrogate_def dec_nat.simps)
  show ?thesis using router_record_roundtrip [OF v k] by auto
qed

end
