(* ===== verification/Lfu_Cache.thy ===== *)
theory Lfu_Cache
  imports Py_Dict
begin

text \<open>
  \<open>cache/cache.py\<close>: the thread-safe LFU cache. Every operation runs under the cache's lock, so each
  is one atomic transition. The abstract specification is a textbook LFU with least-recently-used
  tie breaking: one list of entries \<open>(key, frequency, value)\<close>, the least recently used first.
  \<open>lfu_rel\<close> relates the three dictionaries and \<open>min_freq\<close> of the code to that list, and every
  operation is shown to simulate its abstract counterpart without raising.
\<close>

subsection \<open>The code's state\<close>

text \<open>
  \<open>freq_groups\<close> is a \<open>defaultdict(OrderedDict)\<close>: an absent group reads as an empty one and is
  created by the access. An \<open>OrderedDict\<close> with \<open>None\<close> values is the list of its keys.
\<close>

record ('k, 'v) lfu =
  capacity :: int
  cache :: "('k, 'v) dict"
  frequencies :: "('k, nat) dict"
  freq_groups :: "(nat, 'k list) dict"
  min_freq :: nat

definition lfu_init :: "int \<Rightarrow> ('k, 'v) lfu" where
  "lfu_init cap = \<lparr>capacity = cap, cache = [], frequencies = [], freq_groups = [], min_freq = 0\<rparr>"

definition group_of :: "(nat, 'k list) dict \<Rightarrow> nat \<Rightarrow> 'k list" where
  "group_of fg n = (case dget fg n of None \<Rightarrow> [] | Some g \<Rightarrow> g)"

definition od_set :: "'k list \<Rightarrow> 'k \<Rightarrow> 'k list" where
  "od_set g k = (if k \<in> set g then g else g @ [k])"

definition od_del :: "'k list \<Rightarrow> 'k \<Rightarrow> 'k list" where
  "od_del g k = filter (\<lambda>x. x \<noteq> k) g"

text \<open>The frequency update that \<open>get\<close> and the update branch of \<open>put\<close> share.\<close>

definition lfu_touch :: "'k \<Rightarrow> ('k, 'v) lfu \<Rightarrow> (('k, 'v) lfu, unit) step_result" where
  "lfu_touch k c =
     (case dget (frequencies c) k of
        None \<Rightarrow> (Inl KeyError, c)
      | Some freq \<Rightarrow>
          let c1 = c\<lparr>frequencies := dset (frequencies c) k (freq + 1)\<rparr>;
              g = group_of (freq_groups c1) freq
          in if k \<notin> set g
             then (Inl KeyError, c1\<lparr>freq_groups := dset (freq_groups c1) freq g\<rparr>)
             else let g' = od_del g k;
                      c2 = c1\<lparr>freq_groups := dset (freq_groups c1) freq g'\<rparr>;
                      c3 = (if g' = [] \<and> min_freq c2 = freq
                            then c2\<lparr>min_freq := min_freq c2 + 1\<rparr> else c2)
                  in (Inr (), c3\<lparr>freq_groups := dset (freq_groups c3) (freq + 1)
                                   (od_set (group_of (freq_groups c3) (freq + 1)) k)\<rparr>))"

definition lfu_get :: "'k \<Rightarrow> ('k, 'v) lfu \<Rightarrow> (('k, 'v) lfu, 'v option) step_result" where
  "lfu_get k c =
     (case dget (cache c) k of
        None \<Rightarrow> (Inr None, c)
      | Some _ \<Rightarrow> bind_step (lfu_touch k c) (\<lambda>_ c'. (Inr (dget (cache c') k), c')))"

text \<open>\<open>popitem(last=False)\<close> on the minimum-frequency group, and the two deletions after it.\<close>

definition lfu_evict :: "('k, 'v) lfu \<Rightarrow> (('k, 'v) lfu, unit) step_result" where
  "lfu_evict c =
     (case group_of (freq_groups c) (min_freq c) of
        [] \<Rightarrow> (Inl KeyError, c\<lparr>freq_groups := dset (freq_groups c) (min_freq c) []\<rparr>)
      | k # g \<Rightarrow>
          let c1 = c\<lparr>freq_groups := dset (freq_groups c) (min_freq c) g\<rparr>
          in if dget (cache c1) k = None then (Inl KeyError, c1)
             else let c2 = c1\<lparr>cache := ddel (cache c1) k\<rparr>
                  in if dget (frequencies c2) k = None then (Inl KeyError, c2)
                     else (Inr (), c2\<lparr>frequencies := ddel (frequencies c2) k\<rparr>))"

definition lfu_put :: "'k \<Rightarrow> 'v \<Rightarrow> ('k, 'v) lfu \<Rightarrow> (('k, 'v) lfu, unit) step_result" where
  "lfu_put k v c =
     (if capacity c \<le> 0 then (Inr (), c)
      else if dget (cache c) k \<noteq> None
      then lfu_touch k (c\<lparr>cache := dset (cache c) k v\<rparr>)
      else bind_step
        (if int (length (cache c)) \<ge> capacity c then lfu_evict c else (Inr (), c))
        (\<lambda>_ c'. (Inr (), c'\<lparr>cache := dset (cache c') k v,
                            frequencies := dset (frequencies c') k 1,
                            min_freq := 1,
                            freq_groups := dset (freq_groups c') 1
                              (od_set (group_of (freq_groups c') 1) k)\<rparr>)))"

definition lfu_invalidate :: "'k \<Rightarrow> ('k, 'v) lfu \<Rightarrow> (('k, 'v) lfu, unit) step_result" where
  "lfu_invalidate k c =
     (if dget (cache c) k = None then (Inr (), c)
      else case dget (frequencies c) k of
        None \<Rightarrow> (Inl KeyError, c)
      | Some freq \<Rightarrow>
          let g = group_of (freq_groups c) freq
          in if k \<notin> set g then (Inl KeyError, c\<lparr>freq_groups := dset (freq_groups c) freq g\<rparr>)
             else (Inr (), c\<lparr>freq_groups := dset (freq_groups c) freq (od_del g k),
                             cache := ddel (cache c) k,
                             frequencies := ddel (frequencies c) k\<rparr>))"

definition lfu_clear :: "('k, 'v) lfu \<Rightarrow> ('k, 'v) lfu" where
  "lfu_clear c = c\<lparr>cache := [], frequencies := [], freq_groups := [], min_freq := 0\<rparr>"

subsection \<open>The abstract cache\<close>

type_synonym ('k, 'v) entries = "('k \<times> nat \<times> 'v) list"

definition drop_key :: "'k \<Rightarrow> ('k, 'v) entries \<Rightarrow> ('k, 'v) entries" where
  "drop_key k s = filter (\<lambda>e. fst e \<noteq> k) s"

definition freqs :: "('k, 'v) entries \<Rightarrow> nat list" where
  "freqs s = map (\<lambda>e. fst (snd e)) s"

definition victim :: "('k, 'v) entries \<Rightarrow> 'k" where
  "victim s = fst (hd (filter (\<lambda>e. fst (snd e) = Min (set (freqs s))) s))"

definition spec_get :: "'k \<Rightarrow> ('k, 'v) entries \<Rightarrow> 'v option \<times> ('k, 'v) entries" where
  "spec_get k s =
     (case map_of s k of
        None \<Rightarrow> (None, s)
      | Some (f, v) \<Rightarrow> (Some v, drop_key k s @ [(k, f + 1, v)]))"

definition spec_put :: "int \<Rightarrow> 'k \<Rightarrow> 'v \<Rightarrow> ('k, 'v) entries \<Rightarrow> ('k, 'v) entries" where
  "spec_put cap k v s =
     (if cap \<le> 0 then s
      else case map_of s k of
        Some (f, _) \<Rightarrow> drop_key k s @ [(k, f + 1, v)]
      | None \<Rightarrow> (if int (length s) \<ge> cap then drop_key (victim s) s else s) @ [(k, 1, v)])"

definition in_group :: "nat \<Rightarrow> ('k, 'v) entries \<Rightarrow> 'k list" where
  "in_group n s = map fst (filter (\<lambda>e. fst (snd e) = n) s)"

text \<open>
  The simulation relation. \<open>min_freq\<close> is only pinned down when the cache is full: \<open>invalidate\<close>
  leaves it stale, but a cache that lost an entry is full again only after an insertion resets it.
\<close>

definition lfu_rel :: "('k, 'v) lfu \<Rightarrow> ('k, 'v) entries \<Rightarrow> bool" where
  "lfu_rel c s \<longleftrightarrow>
     dict_ok (cache c) \<and> dict_ok (frequencies c) \<and> distinct (map fst s) \<and>
     length (cache c) = length s \<and>
     (\<forall>k. dget (cache c) k = map_option snd (map_of s k)) \<and>
     (\<forall>k. dget (frequencies c) k = map_option fst (map_of s k)) \<and>
     (\<forall>n. group_of (freq_groups c) n = in_group n s) \<and>
     (\<forall>f \<in> set (freqs s). 1 \<le> f) \<and>
     (0 < capacity c \<longrightarrow> int (length s) \<le> capacity c) \<and>
     (capacity c \<le> 0 \<longrightarrow> s = []) \<and>
     (s \<noteq> [] \<and> int (length s) = capacity c \<longrightarrow>
        min_freq c \<in> set (freqs s) \<and> (\<forall>f \<in> set (freqs s). min_freq c \<le> f))"

subsection \<open>Lists of entries\<close>

lemma drop_key_simps [simp]:
  "drop_key k [] = []" "drop_key k (s @ t) = drop_key k s @ drop_key k t"
  by (simp_all add: drop_key_def)

lemma in_group_append [simp]: "in_group n (s @ t) = in_group n s @ in_group n t"
  by (simp add: in_group_def)

lemma in_group_single [simp]: "in_group n [(k, f, v)] = (if f = n then [k] else [])"
  by (simp add: in_group_def)

lemma in_group_drop_key: "in_group n (drop_key k s) = od_del (in_group n s) k"
  by (induction s) (auto simp: in_group_def drop_key_def od_del_def)

lemma mem_in_group:
  "distinct (map fst s) \<Longrightarrow> k \<in> set (in_group n s) \<longleftrightarrow> (\<exists>v. map_of s k = Some (n, v))"
  by (fastforce simp: in_group_def image_iff map_of_eq_Some_iff)

lemma od_del_absent: "k \<notin> set g \<Longrightarrow> od_del g k = g"
  by (auto simp: od_del_def filter_id_conv)

lemma map_of_drop_key: "map_of (drop_key k s) k' = (if k' = k then None else map_of s k')"
  by (induction s) (auto simp: drop_key_def)

lemma map_of_snoc: "k \<notin> fst ` set s \<Longrightarrow> map_of (s @ [(k, x)]) k' = (if k' = k then Some x else map_of s k')"
  by (induction s) auto

lemma keys_drop_key: "fst ` set (drop_key k s) = fst ` set s - {k}"
  by (auto simp: drop_key_def)

lemma distinct_drop_key: "distinct (map fst s) \<Longrightarrow> distinct (map fst (drop_key k s))"
  by (simp add: drop_key_def distinct_map_filter)

lemma length_drop_key:
  "distinct (map fst s) \<Longrightarrow> k \<in> fst ` set s \<Longrightarrow> Suc (length (drop_key k s)) = length s"
proof -
  assume d: "distinct (map fst s)" and k: "k \<in> fst ` set s"
  have "length (drop_key k s) = length s - 1"
    using length_ddel [of s k] d k by (simp add: dict_ok_def ddel_def drop_key_def)
  moreover have "length s > 0" using k by auto
  ultimately show ?thesis by simp
qed

lemma freqs_simps [simp]:
  "freqs [] = []" "freqs (s @ t) = freqs s @ freqs t" "freqs [(k, f, v)] = [f]"
  by (simp_all add: freqs_def)

lemma freqs_drop_key_sub: "set (freqs (drop_key k s)) \<subseteq> set (freqs s)"
  by (auto simp: freqs_def drop_key_def)

lemma in_freqs_iff: "distinct (map fst s) \<Longrightarrow> f \<in> set (freqs s) \<longleftrightarrow> (\<exists>k v. map_of s k = Some (f, v))"
  by (force simp: freqs_def image_iff map_of_eq_Some_iff)

lemma group_of_dset [simp]: "group_of (dset fg n g) m = (if m = n then g else group_of fg m)"
  by (simp add: group_of_def)

lemma freqs_in_group: "f \<in> set (freqs s) \<longleftrightarrow> in_group f s \<noteq> []"
  by (auto simp: freqs_def in_group_def filter_empty_conv image_iff)

lemma dset_same: "dget d k = Some v \<Longrightarrow> dset d k v = d"
  by (induction d k v rule: dset.induct) auto

lemma entry_in_keys: "map_of s k = Some x \<Longrightarrow> k \<in> fst ` set s"
  by (metis map_of_eq_None_iff option.distinct(1))

subsection \<open>Every operation simulates its abstract counterpart\<close>

text \<open>What a moved entry does to the minimum frequency of a full cache.\<close>

lemma min_freq_moved:
  assumes d: "distinct (map fst s)" and k: "map_of s k = Some (f, w)"
    and m: "m \<in> set (freqs s)" "\<forall>g \<in> set (freqs s). m \<le> g"
    and m': "m' = (if od_del (in_group f s) k = [] \<and> m = f then m + 1 else m)"
    and s': "s' = drop_key k s @ [(k, f + 1, v)]"
  shows "m' \<in> set (freqs s')" and "\<forall>g \<in> set (freqs s'). m' \<le> g"
proof -
  have other: "n \<in> set (freqs (drop_key k s)) \<longleftrightarrow> od_del (in_group n s) k \<noteq> []" for n
    by (simp add: freqs_in_group in_group_drop_key)
  have f: "f \<in> set (freqs s)" using k d by (auto simp: in_freqs_iff)
  have keep: "od_del (in_group n s) k = in_group n s" if "n \<noteq> f" for n
    using that k d by (intro od_del_absent) (simp add: mem_in_group)
  have mem: "set (freqs s') = insert (f + 1) (set (freqs (drop_key k s)))"
    by (simp add: s')
  show "m' \<in> set (freqs s')"
  proof (cases "m = f")
    case True
    then show ?thesis using m' by (auto simp: mem other)
  next
    case False
    have "in_group m s \<noteq> []" using m(1) by (simp add: freqs_in_group)
    with False show ?thesis using m' by (simp add: mem other keep)
  qed
  show "\<forall>g \<in> set (freqs s'). m' \<le> g"
  proof
    fix g assume "g \<in> set (freqs s')"
    then consider "g = f + 1" | "g \<in> set (freqs (drop_key k s))" by (auto simp: mem)
    then show "m' \<le> g"
    proof cases
      case 1
      with f m(2) m' show ?thesis by (auto simp: le_SucI)
    next
      case 2
      then have "m \<le> g" and "od_del (in_group g s) k \<noteq> []"
        using m(2) freqs_drop_key_sub [of k s] other by auto
      with m' show ?thesis by (cases "g = f") auto
    qed
  qed
qed

lemma lfu_touch_sim:
  assumes r: "lfu_rel c s" and k: "map_of s k = Some (f, w)"
  shows "\<exists>c'. lfu_touch k (c\<lparr>cache := dset (cache c) k v\<rparr>) = (Inr (), c') \<and>
           lfu_rel c' (drop_key k s @ [(k, f + 1, v)]) \<and>
           capacity c' = capacity c \<and> cache c' = dset (cache c) k v"
proof -
  let ?s = "drop_key k s @ [(k, f + 1, v)]"
  let ?g = "od_del (in_group f s) k"
  let ?fg = "dset (freq_groups c) f ?g"
  let ?m = "if ?g = [] \<and> min_freq c = f then min_freq c + 1 else min_freq c"
  let ?c = "c\<lparr>cache := dset (cache c) k v, frequencies := dset (frequencies c) k (f + 1),
     freq_groups := dset ?fg (f + 1) (in_group (f + 1) s @ [k]), min_freq := ?m\<rparr>"
  from r have d: "distinct (map fst s)" and gr: "\<And>n. group_of (freq_groups c) n = in_group n s"
    and fr: "dget (frequencies c) k = Some f"
    using k by (auto simp: lfu_rel_def)
  have kf: "k \<in> set (in_group f s)" and kf1: "k \<notin> set (in_group (f + 1) s)"
    using d k by (simp_all add: mem_in_group)
  have run: "lfu_touch k (c\<lparr>cache := dset (cache c) k v\<rparr>) = (Inr (), ?c)"
    using kf kf1 by (simp add: lfu_touch_def fr gr Let_def od_set_def)
  have key: "k \<in> fst ` set s" using k by (rule entry_in_keys)
  then have kc: "k \<in> fst ` set (cache c)"
    using r k by (metis lfu_rel_def dget_None_iff option.map_disc_iff option.distinct(1))
  have len: "length ?s = length s"
    using length_drop_key [OF d key] by simp
  have nd: "k \<notin> fst ` set (drop_key k s)" by (simp add: keys_drop_key)
  have mo: "map_of ?s x = (if x = k then Some (f + 1, v) else map_of s x)" for x
    using map_of_snoc [OF nd] by (simp add: map_of_drop_key)
  have full: "?m \<in> set (freqs ?s) \<and> (\<forall>g \<in> set (freqs ?s). ?m \<le> g)"
    if "int (length s) = capacity c"
    using min_freq_moved [OF d k _ _ refl refl, of "min_freq c" v] r that key
    unfolding lfu_rel_def by (cases s) auto
  have grp: "group_of (freq_groups ?c) n = in_group n ?s" for n
    using kf1 d k by (auto simp: gr in_group_drop_key od_del_absent mem_in_group)
  have "lfu_rel ?c ?s"
    unfolding lfu_rel_def
    using r d nd len mo full grp freqs_drop_key_sub [of k s] kc key
    by (auto simp: lfu_rel_def distinct_drop_key length_dset)
  with run show ?thesis by auto
qed

lemma lfu_get_sim:
  assumes "lfu_rel c s"
  shows "\<exists>c'. lfu_get k c = (Inr (fst (spec_get k s)), c') \<and> lfu_rel c' (snd (spec_get k s)) \<and>
           capacity c' = capacity c \<and> cache c' = cache c"
proof (cases "map_of s k")
  case None
  with assms have "dget (cache c) k = None" by (simp add: lfu_rel_def)
  with None assms show ?thesis by (simp add: lfu_get_def spec_get_def)
next
  case (Some e)
  then obtain f v where fv: "map_of s k = Some (f, v)" by (cases e) auto
  with assms have v: "dget (cache c) k = Some v" by (simp add: lfu_rel_def)
  then have same: "c\<lparr>cache := dset (cache c) k v\<rparr> = c" by (simp add: dset_same)
  obtain c' where "lfu_touch k c = (Inr (), c')" "lfu_rel c' (drop_key k s @ [(k, f + 1, v)])"
    "capacity c' = capacity c" "cache c' = cache c"
    using lfu_touch_sim [OF assms fv, of v] same v by (auto simp: dset_same)
  with fv v show ?thesis by (simp add: lfu_get_def spec_get_def)
qed

text \<open>A full cache has a non-empty minimum group, so eviction removes the abstract victim.\<close>

lemma lfu_evict_sim:
  assumes r: "lfu_rel c s" and full: "int (length s) = capacity c" and s: "s \<noteq> []"
  shows "\<exists>c'. lfu_evict c = (Inr (), c') \<and> lfu_rel c' (drop_key (victim s) s) \<and>
           capacity c' = capacity c"
proof -
  from r full s have m: "min_freq c \<in> set (freqs s)" "\<forall>g \<in> set (freqs s). min_freq c \<le> g"
    and d: "distinct (map fst s)" and gr: "\<And>n. group_of (freq_groups c) n = in_group n s"
    by (auto simp: lfu_rel_def)
  have mn: "Min (set (freqs s)) = min_freq c"
    using m by (intro Min_eqI) auto
  obtain k g where kg: "in_group (min_freq c) s = k # g"
    using m(1) by (cases "in_group (min_freq c) s") (auto simp: freqs_in_group)
  have vic: "victim s = k"
    using kg by (auto simp: victim_def mn in_group_def)
  have "k \<in> set (in_group (min_freq c) s)" using kg by simp
  then obtain v where kv: "map_of s k = Some (min_freq c, v)"
    using d by (auto simp: mem_in_group)
  have kc: "dget (cache c) k = Some v" "dget (frequencies c) k = Some (min_freq c)"
    using r kv by (auto simp: lfu_rel_def)
  have dg: "distinct (in_group n s)" for n
    using d by (simp add: in_group_def distinct_map_filter)
  have g: "od_del (in_group (min_freq c) s) k = g"
    using dg [of "min_freq c"] kg by (auto simp: od_del_def filter_id_conv)
  let ?c = "c\<lparr>freq_groups := dset (freq_groups c) (min_freq c) g,
     cache := ddel (cache c) k, frequencies := ddel (frequencies c) k\<rparr>"
  have run: "lfu_evict c = (Inr (), ?c)"
    using kc by (simp add: lfu_evict_def gr kg Let_def)
  have key: "k \<in> fst ` set s" using kv by (rule entry_in_keys)
  have len: "Suc (length (drop_key k s)) = length s" by (rule length_drop_key [OF d key])
  have kin: "k \<in> fst ` set (cache c)" using kc by (metis dget_None_iff option.distinct(1))
  have grp: "group_of (freq_groups ?c) n = in_group n (drop_key k s)" for n
    using d kv g by (auto simp: gr in_group_drop_key od_del_absent mem_in_group)
  have "lfu_rel ?c (drop_key k s)"
    unfolding lfu_rel_def
    using r d len grp kin full freqs_drop_key_sub [of k s]
    by (auto simp: lfu_rel_def distinct_drop_key length_ddel map_of_drop_key)
  with run vic show ?thesis by auto
qed

text \<open>Appending a new entry of frequency 1 to an abstract cache that is not full.\<close>

lemma lfu_insert_sim:
  assumes r: "lfu_rel c s" and k: "k \<notin> fst ` set s" and room: "int (length s) < capacity c"
  shows "lfu_rel (c\<lparr>cache := dset (cache c) k v, frequencies := dset (frequencies c) k 1,
      min_freq := 1, freq_groups := dset (freq_groups c) 1 (od_set (group_of (freq_groups c) 1) k)\<rparr>)
      (s @ [(k, 1, v)])"
proof -
  have gr: "group_of (freq_groups c) n = in_group n s" for n using r by (simp add: lfu_rel_def)
  have k1: "k \<notin> set (in_group n s)" for n using k by (auto simp: in_group_def)
  have kn: "map_of s k = None" using k by (simp add: map_of_eq_None_iff)
  then have "dget (cache c) k = None" "dget (frequencies c) k = None"
    using r by (auto simp: lfu_rel_def)
  then have kc: "k \<notin> fst ` set (cache c)" "k \<notin> fst ` set (frequencies c)"
    by (simp_all add: dget_None_iff)
  have mo: "map_of (s @ [(k, 1, v)]) x = (if x = k then Some (1, v) else map_of s x)" for x
    by (rule map_of_snoc [OF k])
  show ?thesis
    unfolding lfu_rel_def
    using r room k kc k1 mo by (auto simp: lfu_rel_def gr length_dset od_set_def)
qed

lemma victim_mem_group: "s \<noteq> [] \<Longrightarrow> victim s \<in> set (in_group (Min (set (freqs s))) s)"
proof -
  let ?m = "Min (set (freqs s))"
  assume "s \<noteq> []"
  then have "set (freqs s) \<noteq> {}" by (simp add: freqs_def)
  then have "?m \<in> set (freqs s)" by (intro Min_in) auto
  then have "filter (\<lambda>e. fst (snd e) = ?m) s \<noteq> []" by (force simp: freqs_def filter_empty_conv)
  then have "hd (filter (\<lambda>e. fst (snd e) = ?m) s) \<in> set (filter (\<lambda>e. fst (snd e) = ?m) s)"
    by (rule hd_in_set)
  then show ?thesis by (auto simp: victim_def in_group_def)
qed

lemma lfu_put_sim:
  assumes r: "lfu_rel c s"
  shows "\<exists>c'. lfu_put k v c = (Inr (), c') \<and> lfu_rel c' (spec_put (capacity c) k v s) \<and>
           capacity c' = capacity c"
proof (cases "capacity c \<le> 0")
  case True
  with r show ?thesis by (simp add: lfu_put_def spec_put_def)
next
  case pos: False
  show ?thesis
  proof (cases "map_of s k")
    case (Some e)
    then obtain f w where fw: "map_of s k = Some (f, w)" by (cases e) auto
    then have "dget (cache c) k = Some w" using r by (simp add: lfu_rel_def)
    with pos fw lfu_touch_sim [OF r fw, of v] show ?thesis
      by (auto simp: lfu_put_def spec_put_def)
  next
    case None
    then have nk: "k \<notin> fst ` set s" and kc: "dget (cache c) k = None"
      using r by (auto simp: lfu_rel_def map_of_eq_None_iff)
    have len: "length (cache c) = length s" and d: "distinct (map fst s)"
      and le: "int (length s) \<le> capacity c"
      using r pos by (auto simp: lfu_rel_def)
    show ?thesis
    proof (cases "capacity c \<le> int (length s)")
      case False
      with lfu_insert_sim [OF r nk, of v] pos None kc len show ?thesis
        by (simp add: lfu_put_def spec_put_def)
    next
      case True
      with le have full: "int (length s) = capacity c" by simp
      with pos have ne: "s \<noteq> []" by auto
      obtain c' where c': "lfu_evict c = (Inr (), c')" "lfu_rel c' (drop_key (victim s) s)"
        "capacity c' = capacity c"
        using lfu_evict_sim [OF r full ne] by auto
      have "k \<notin> fst ` set (drop_key (victim s) s)" using nk by (simp add: keys_drop_key)
      moreover have "int (length (drop_key (victim s) s)) < capacity c'"
      proof -
        have "victim s \<in> fst ` set s"
          using victim_mem_group [OF ne] by (auto simp: in_group_def)
        from length_drop_key [OF d this] full c'(3) show ?thesis by simp
      qed
      ultimately show ?thesis
        using lfu_insert_sim [OF c'(2), of k v] c' pos None kc len True
        by (simp add: lfu_put_def spec_put_def)
    qed
  qed
qed

lemma lfu_invalidate_sim:
  assumes r: "lfu_rel c s"
  shows "\<exists>c'. lfu_invalidate k c = (Inr (), c') \<and> lfu_rel c' (drop_key k s) \<and>
           capacity c' = capacity c"
proof (cases "map_of s k")
  case None
  then have "dget (cache c) k = None" using r by (simp add: lfu_rel_def)
  moreover have "drop_key k s = s"
    using None ddel_absent [of k s] by (simp add: map_of_eq_None_iff drop_key_def ddel_def)
  ultimately show ?thesis using r by (simp add: lfu_invalidate_def)
next
  case (Some e)
  then obtain f v where fv: "map_of s k = Some (f, v)" by (cases e) auto
  have d: "distinct (map fst s)" and gr: "\<And>n. group_of (freq_groups c) n = in_group n s"
    using r by (auto simp: lfu_rel_def)
  have kc: "dget (cache c) k = Some v" "dget (frequencies c) k = Some f"
    using r fv by (auto simp: lfu_rel_def)
  have kf: "k \<in> set (in_group f s)" using d fv by (simp add: mem_in_group)
  let ?c = "c\<lparr>freq_groups := dset (freq_groups c) f (od_del (in_group f s) k),
     cache := ddel (cache c) k, frequencies := ddel (frequencies c) k\<rparr>"
  have run: "lfu_invalidate k c = (Inr (), ?c)"
    using kc kf by (simp add: lfu_invalidate_def gr Let_def)
  have key: "k \<in> fst ` set s" using fv by (rule entry_in_keys)
  have len: "Suc (length (drop_key k s)) = length s" by (rule length_drop_key [OF d key])
  have kin: "k \<in> fst ` set (cache c)" using kc by (metis dget_None_iff option.distinct(1))
  have grp: "group_of (freq_groups ?c) n = in_group n (drop_key k s)" for n
    using d fv by (auto simp: gr in_group_drop_key od_del_absent mem_in_group)
  have "s \<noteq> []" using key by auto
  then have room: "0 < capacity c" "int (length (drop_key k s)) < capacity c"
    using r len by (auto simp: lfu_rel_def)
  have "lfu_rel ?c (drop_key k s)"
    unfolding lfu_rel_def
    using r d len room grp kin freqs_drop_key_sub [of k s]
    by (auto simp: lfu_rel_def distinct_drop_key length_ddel map_of_drop_key)
  with run show ?thesis by auto
qed

lemma lfu_clear_sim: "lfu_rel c s \<Longrightarrow> lfu_rel (lfu_clear c) []"
  by (auto simp: lfu_rel_def lfu_clear_def group_of_def in_group_def)

lemma lfu_init_rel: "lfu_rel (lfu_init cap) []"
  by (auto simp: lfu_rel_def lfu_init_def group_of_def in_group_def)

subsection \<open>Runs\<close>

datatype ('k, 'v) cache_op = Get 'k | Put 'k 'v | Invalidate 'k | Clear

fun lfu_step :: "('k, 'v) cache_op \<Rightarrow> ('k, 'v) lfu \<Rightarrow> (('k, 'v) lfu, 'v option) step_result" where
  "lfu_step (Get k) c = lfu_get k c"
| "lfu_step (Put k v) c = bind_step (lfu_put k v c) (\<lambda>_ c'. (Inr None, c'))"
| "lfu_step (Invalidate k) c = bind_step (lfu_invalidate k c) (\<lambda>_ c'. (Inr None, c'))"
| "lfu_step Clear c = (Inr None, lfu_clear c)"

fun spec_step :: "int \<Rightarrow> ('k, 'v) cache_op \<Rightarrow> ('k, 'v) entries \<Rightarrow> 'v option \<times> ('k, 'v) entries" where
  "spec_step cap (Get k) s = spec_get k s"
| "spec_step cap (Put k v) s = (None, spec_put cap k v s)"
| "spec_step cap (Invalidate k) s = (None, drop_key k s)"
| "spec_step cap Clear s = (None, [])"

fun lfu_run :: "('k, 'v) cache_op list \<Rightarrow> ('k, 'v) lfu \<Rightarrow> (('k, 'v) lfu, 'v option list) step_result" where
  "lfu_run [] c = (Inr [], c)"
| "lfu_run (x # xs) c =
     bind_step (lfu_step x c) (\<lambda>r c'. bind_step (lfu_run xs c') (\<lambda>rs c''. (Inr (r # rs), c'')))"

fun spec_run :: "int \<Rightarrow> ('k, 'v) cache_op list \<Rightarrow> ('k, 'v) entries \<Rightarrow> 'v option list \<times> ('k, 'v) entries"
  where
  "spec_run cap [] s = ([], s)"
| "spec_run cap (x # xs) s =
     (let (r, s') = spec_step cap x s; (rs, s'') = spec_run cap xs s' in (r # rs, s''))"

lemma lfu_step_sim:
  assumes "lfu_rel c s"
  shows "\<exists>c'. lfu_step x c = (Inr (fst (spec_step (capacity c) x s)), c') \<and>
           lfu_rel c' (snd (spec_step (capacity c) x s)) \<and> capacity c' = capacity c"
proof (cases x)
  case (Get k)
  with lfu_get_sim [OF assms, of k] show ?thesis by auto
next
  case (Put k v)
  with lfu_put_sim [OF assms, of k v] show ?thesis by auto
next
  case (Invalidate k)
  with lfu_invalidate_sim [OF assms, of k] show ?thesis by auto
next
  case Clear
  with lfu_clear_sim [OF assms] show ?thesis by (simp add: lfu_clear_def)
qed

lemma lfu_run_sim:
  assumes "lfu_rel c s"
  shows "\<exists>c'. lfu_run xs c = (Inr (fst (spec_run (capacity c) xs s)), c') \<and>
           lfu_rel c' (snd (spec_run (capacity c) xs s)) \<and> capacity c' = capacity c"
  using assms
proof (induction xs arbitrary: c s)
  case (Cons x xs)
  obtain r s' where rs: "spec_step (capacity c) x s = (r, s')" by fastforce
  with lfu_step_sim [OF Cons.prems, of x] obtain c' where c': "lfu_step x c = (Inr r, c')"
    "lfu_rel c' s'" "capacity c' = capacity c" by auto
  from Cons.IH [OF c'(2)] c' rs show ?case
    by (auto simp: Let_def case_prod_beta)
qed auto

subsection \<open>The contract the router relies on\<close>

text \<open>
  A read cache may forget, but never invents: a hit is the last value put for the key. The router
  keeps its cache coherent with a "truth" (what the tables hold); the lemmas of the locale say that
  a cache stays below a truth that changes as the cache is told.
\<close>

locale read_cache =
  fixes cget :: "'k \<Rightarrow> 'c \<Rightarrow> ('c, 'v option) step_result"
    and cput :: "'k \<Rightarrow> 'v \<Rightarrow> 'c \<Rightarrow> ('c, unit) step_result"
    and cclear :: "'c \<Rightarrow> 'c" and content :: "'c \<Rightarrow> 'k \<rightharpoonup> 'v" and cinv :: "'c \<Rightarrow> bool"
  assumes cget_spec:
      "cinv c \<Longrightarrow> \<exists>c'. cget k c = (Inr (content c k), c') \<and> cinv c' \<and> content c' = content c"
    and cput_spec:
      "cinv c \<Longrightarrow> \<exists>c'. cput k v c = (Inr (), c') \<and> cinv c' \<and> content c' \<subseteq>\<^sub>m (content c)(k \<mapsto> v)"
    and cput_stale: "cinv c \<Longrightarrow> cput k v c = (r, c') \<Longrightarrow> content c' k \<in> {None, Some v}"
    and cclear_spec: "cinv c \<Longrightarrow> cinv (cclear c) \<and> content (cclear c) = Map.empty"
begin

lemma get_coherent:
  assumes "cinv c" and "content c \<subseteq>\<^sub>m truth"
  shows "\<exists>r c'. cget k c = (Inr r, c') \<and> cinv c' \<and> content c' = content c \<and> (r = None \<or> r = truth k)"
  using cget_spec [OF assms(1), of k] assms(2) by (fastforce simp: map_le_def)

lemma put_coherent:
  assumes "cinv c" and "content c \<subseteq>\<^sub>m truth(k := x)"
  shows "\<exists>c'. cput k v c = (Inr (), c') \<and> cinv c' \<and> content c' \<subseteq>\<^sub>m truth(k \<mapsto> v)"
proof -
  obtain c' where c': "cput k v c = (Inr (), c')" "cinv c'" "content c' \<subseteq>\<^sub>m (content c)(k \<mapsto> v)"
    using cput_spec [OF assms(1)] by blast
  have "(content c)(k \<mapsto> v) \<subseteq>\<^sub>m truth(k \<mapsto> v)"
    using assms(2) by (fastforce simp: map_le_def split: if_splits)
  with c' show ?thesis by (blast intro: map_le_trans)
qed

lemma clear_coherent: "cinv c \<Longrightarrow> content (cclear c) \<subseteq>\<^sub>m truth"
  by (simp add: cclear_spec)

end

lemma lfu_content: "lfu_rel c s \<Longrightarrow> dget (cache c) = map_option snd \<circ> map_of s"
  by (rule ext) (simp add: lfu_rel_def)

lemma spec_put_content:
  "map_option snd (map_of (spec_put cap k v s) x) =
     (if cap \<le> 0 then map_option snd (map_of s x)
      else if x = k then Some v
      else if map_of s k = None \<and> int (length s) \<ge> cap \<and> x = victim s then None
      else map_option snd (map_of s x))"
  by (auto simp: spec_put_def map_add_def map_of_drop_key split: option.splits)

interpretation lfu: read_cache lfu_get lfu_put lfu_clear "\<lambda>c. dget (cache c)" "\<lambda>c. \<exists>s. lfu_rel c s"
proof
  fix c :: "('a, 'b) lfu" and k v
  assume "\<exists>s. lfu_rel c s"
  then obtain s where s: "lfu_rel c s" by blast
  then have empty: "capacity c \<le> 0 \<Longrightarrow> s = []" by (simp add: lfu_rel_def)
  have "fst (spec_get k s) = dget (cache c) k"
    using s by (auto simp: spec_get_def lfu_rel_def split: option.splits)
  with lfu_get_sim [OF s, of k]
  show "\<exists>c'. lfu_get k c = (Inr (dget (cache c) k), c') \<and> (\<exists>s. lfu_rel c' s) \<and>
      dget (cache c') = dget (cache c)" by auto
  obtain c' where c': "lfu_put k v c = (Inr (), c')" "lfu_rel c' (spec_put (capacity c) k v s)"
    using lfu_put_sim [OF s, of k v] by blast
  then have le: "dget (cache c') \<subseteq>\<^sub>m (dget (cache c))(k \<mapsto> v)"
    using empty
    by (auto simp: lfu_content [OF s] lfu_content [OF c'(2)] spec_put_content map_le_def split: if_splits)
  with c' show "\<exists>c'. lfu_put k v c = (Inr (), c') \<and> (\<exists>s. lfu_rel c' s) \<and>
      dget (cache c') \<subseteq>\<^sub>m (dget (cache c))(k \<mapsto> v)" by blast
  show "dget (cache c2) k \<in> {None, Some v}" if "lfu_put k v c = (r, c2)" for r c2
    using that c' le by (cases "dget (cache c') k") (auto simp: map_le_def dom_def)
  show "(\<exists>s. lfu_rel (lfu_clear c) s) \<and> dget (cache (lfu_clear c)) = Map.empty"
    using lfu_clear_sim [OF s] by (auto simp: lfu_clear_def)
qed

subsection \<open>Properties\<close>

text \<open>C10: Started empty, the cache of the code behaves on every sequence of operations exactly as the
  textbook LFU with least-recently-used tie breaking: it never raises (no \<open>KeyError\<close> from the
  dictionaries or from \<open>popitem\<close>, also after invalidations that leave \<open>min_freq\<close> stale), returns the
  same answers, and never holds more entries than its capacity.\<close>

theorem lfu_cache_refines_spec:
  "\<exists>c'. lfu_run ops (lfu_init cap) = (Inr (fst (spec_run cap ops [])), c') \<and>
        lfu_rel c' (snd (spec_run cap ops [])) \<and> length (cache c') \<le> nat cap"
proof -
  have cap: "capacity (lfu_init cap) = cap" by (simp add: lfu_init_def)
  obtain c' where c': "lfu_run ops (lfu_init cap) = (Inr (fst (spec_run cap ops [])), c')"
    "lfu_rel c' (snd (spec_run cap ops []))" "capacity c' = cap"
    using lfu_run_sim [OF lfu_init_rel, of ops cap] by (auto simp: cap)
  then have "length (cache c') = length (snd (spec_run cap ops []))"
    and "0 < cap \<Longrightarrow> int (length (snd (spec_run cap ops []))) \<le> cap"
    and "cap \<le> 0 \<Longrightarrow> snd (spec_run cap ops []) = []"
    unfolding lfu_rel_def by blast+
  then have "length (cache c') \<le> nat cap"
    by (cases "0 < cap") simp_all
  with c' show ?thesis by blast
qed

text \<open>C11: Inserting a new key into a full cache removes exactly one entry, one whose access frequency
  is minimal, and adds the new key; every other entry stays.\<close>

theorem lfu_eviction_takes_least_frequent:
  assumes run: "lfu_run ops (lfu_init cap) = (Inr out, c)"
    and full: "int (length (cache c)) = cap" and pos: "0 < cap" and new: "dget (cache c) k = None"
  shows "\<exists>c' w f. lfu_put k v c = (Inr (), c') \<and> dget (frequencies c) w = Some f \<and>
           (\<forall>k' f'. dget (frequencies c) k' = Some f' \<longrightarrow> f \<le> f') \<and>
           dget (cache c') = (dget (cache c))(w := None, k \<mapsto> v)"
proof -
  have cap: "capacity (lfu_init cap) = cap" by (simp add: lfu_init_def)
  obtain s where s: "lfu_rel c s" "capacity c = cap"
    using lfu_run_sim [OF lfu_init_rel, of ops cap] run by (auto simp: cap)
  have len: "int (length s) = capacity c" using s full by (simp add: lfu_rel_def)
  then have ne: "s \<noteq> []" using pos s by auto
  have d: "distinct (map fst s)" using s by (simp add: lfu_rel_def)
  have kn: "map_of s k = None" using new s(1) by (auto simp: lfu_rel_def)
  obtain c' where c': "lfu_put k v c = (Inr (), c')" "lfu_rel c' (spec_put cap k v s)"
    using lfu_put_sim [OF s(1), of k v] s(2) by auto
  have "dget (cache c') = (dget (cache c))(victim s := None, k \<mapsto> v)"
    using kn pos len s(2)
    by (auto simp: lfu_content [OF s(1)] lfu_content [OF c'(2)] spec_put_content fun_eq_iff)
  moreover obtain f w where fw: "map_of s (victim s) = Some (f, w)" "\<forall>g \<in> set (freqs s). f \<le> g"
  proof -
    let ?m = "Min (set (freqs s))"
    have "victim s \<in> set (in_group ?m s)"
      using ne victim_mem_group by blast
    then obtain w where "map_of s (victim s) = Some (?m, w)" using d by (auto simp: mem_in_group)
    then show thesis using that by simp
  qed
  moreover have "dget (frequencies c) (victim s) = Some f"
    using s(1) fw by (simp add: lfu_rel_def)
  moreover have "f \<le> f'" if "dget (frequencies c) k' = Some f'" for k' f'
    using that s(1) fw(2) in_freqs_iff [OF d, of f'] by (auto simp: lfu_rel_def)
  ultimately show ?thesis using c'(1) by blast
qed

theorem lfu_eviction_witness:
  "\<exists>c' w f. lfu_put (3::nat) ''c'' (snd (lfu_run [Put 1 ''a'', Put 2 ''b'', Get 1] (lfu_init 2))) = (Inr (), c') \<and>
     dget (frequencies (snd (lfu_run [Put (1::nat) ''a'', Put 2 ''b'', Get 1] (lfu_init 2)))) w = Some f"
proof -
  let ?ops = "[Put (1::nat) ''a'', Put 2 ''b'', Get 1]"
  have run: "lfu_run ?ops (lfu_init 2) =
      (Inr [None, None, Some ''a''], snd (lfu_run ?ops (lfu_init 2)))"
    and full: "int (length (cache (snd (lfu_run ?ops (lfu_init 2))))) = 2"
    and new: "dget (cache (snd (lfu_run ?ops (lfu_init 2)))) 3 = None"
    by (simp_all add: lfu_init_def lfu_put_def lfu_get_def lfu_touch_def group_of_def od_set_def
        od_del_def Let_def)
  show ?thesis
    using lfu_eviction_takes_least_frequent [OF run full _ new, of "''c''"] by auto
qed

end
