(* ===== verification/BTree_Memtable.thy ===== *)
theory BTree_Memtable
  imports Py_Dict
begin

text \<open>
  \<open>index/btree.py\<close>: the in-memory B-tree used as memtable. Nodes hold keys, values and children as
  the code's parallel lists; the operations follow the code's recursion (binary search on the way
  down, proactive split of full children, in-place assignment for a present key). The specification
  is the sorted association list of the in-order traversal.
\<close>

subsection \<open>Nodes and searching inside a node\<close>

datatype ('k, 'v) node =
  Node (leaf: bool) (keys: "'k list") (vals: "'v list") (children: "('k, 'v) node list")

text \<open>\<open>bisect.bisect_left\<close>, the loop of the standard library.\<close>

function bisect_loop :: "'k::linorder list \<Rightarrow> 'k \<Rightarrow> nat \<Rightarrow> nat \<Rightarrow> nat" where
  "bisect_loop a x lo hi =
     (if lo < hi then
        let mid = (lo + hi) div 2
        in if a ! mid < x then bisect_loop a x (mid + 1) hi else bisect_loop a x lo mid
      else lo)"
  by pat_completeness auto
termination
  by (relation "measure (\<lambda>(a, x, lo, hi). hi - lo)") auto

declare bisect_loop.simps [simp del]

definition bisect_left :: "'k::linorder list \<Rightarrow> 'k \<Rightarrow> nat" where
  "bisect_left a x = bisect_loop a x 0 (length a)"

text \<open>The linear scan of \<open>_find_node_and_index\<close>: \<open>while i < n and key > node.keys[i]\<close>.\<close>

fun scan_left :: "'k::linorder list \<Rightarrow> 'k \<Rightarrow> nat" where
  "scan_left [] k = 0"
| "scan_left (x # xs) k = (if x < k then Suc (scan_left xs k) else 0)"

definition list_insert :: "nat \<Rightarrow> 'a \<Rightarrow> 'a list \<Rightarrow> 'a list" where
  "list_insert i x xs = take i xs @ x # drop i xs"

lemma size_nth_child: "i < length cs \<Longrightarrow> size (cs ! i) < Suc (m + size_list size cs)"
proof -
  assume "i < length cs"
  then have "size (cs ! i) \<le> size_list size cs"
    by (intro size_list_estimation' [of "cs ! i"]) auto
  then show ?thesis by simp
qed

lemmas [termination_simp] = size_nth_child

subsection \<open>The operations of the tree\<close>

fun search_node :: "('k::linorder, 'v) node \<Rightarrow> 'k \<Rightarrow> 'v option result" where
  "search_node (Node lf ks vs cs) k =
     (let i = bisect_left ks k
      in if i < length ks \<and> k = ks ! i
         then (if i < length vs then Inr (Some (vs ! i)) else Inl IndexError)
         else if lf then Inr None
         else if i < length cs then search_node (cs ! i) k else Inl IndexError)"

text \<open>
  The node that \<open>_find_node_and_index\<close> returns is given by the child indices that lead to it from
  the root (nodes are never shared), so that the caller's assignment \<open>node.values[idx] = value\<close> can
  be made in the tree.
\<close>

fun find_node_and_index :: "('k::linorder, 'v) node \<Rightarrow> 'k \<Rightarrow> (nat list \<times> nat) option result" where
  "find_node_and_index (Node lf ks vs cs) k =
     (let i = scan_left ks k
      in if i < length ks \<and> k = ks ! i then Inr (Some ([], i))
         else if lf then Inr None
         else if i < length cs
         then bind_result (find_node_and_index (cs ! i) k)
                (\<lambda>r. Inr (map_option (\<lambda>(p, j). (i # p, j)) r))
         else Inl IndexError)"

fun assign_value :: "('k, 'v) node \<Rightarrow> nat list \<Rightarrow> nat \<Rightarrow> 'v \<Rightarrow> ('k, 'v) node result" where
  "assign_value (Node lf ks vs cs) [] j v =
     (if j < length vs then Inr (Node lf ks (vs[j := v]) cs) else Inl IndexError)"
| "assign_value (Node lf ks vs cs) (i # p) j v =
     (if i < length cs
      then bind_result (assign_value (cs ! i) p j v) (\<lambda>c. Inr (Node lf ks vs (cs[i := c])))
      else Inl IndexError)"

definition split_child :: "nat \<Rightarrow> ('k, 'v) node \<Rightarrow> nat \<Rightarrow> ('k, 'v) node result" where
  "split_child t parent i =
     (if i < length (children parent) then
        let full = children parent ! i;
            new_child = Node (leaf full) (drop t (keys full)) (drop t (vals full))
              (if leaf full then [] else drop t (children full));
            left_children = (if leaf full then children full else take t (children full))
        in if t - 1 < length (keys full) \<and> t - 1 < length (vals full) then
             Inr (Node (leaf parent)
               (list_insert i (keys full ! (t - 1)) (keys parent))
               (list_insert i (vals full ! (t - 1)) (vals parent))
               (list_insert (i + 1) new_child
                 ((children parent)[i := Node (leaf full) (take (t - 1) (keys full))
                    (take (t - 1) (vals full)) left_children])))
           else Inl IndexError
      else Inl IndexError)"

lemma bind_result_cong [fundef_cong]:
  "r = r' \<Longrightarrow> (\<And>x. r' = Inr x \<Longrightarrow> f x = g x) \<Longrightarrow> bind_result r f = bind_result r' g"
  by (cases r') auto

text \<open>Both halves of a split child are smaller than the parent, so the recursion terminates.\<close>

lemma size_list_take: "size_list f (take n xs) \<le> size_list f xs"
  by (induction xs arbitrary: n) (auto simp: take_Cons split: nat.split)

lemma size_list_drop: "size_list f (drop n xs) \<le> size_list f xs"
  by (induction xs arbitrary: n) (auto simp: drop_Cons le_SucI trans_le_add2 split: nat.split)

lemma split_child_size:
  assumes "split_child t (Node lf ks vs cs) i = Inr p"
    and "j = i \<or> j = i + 1" and "j < length (children p)"
  shows "size (children p ! j) < size (Node lf ks vs cs)"
proof -
  from assms(1) have i: "i < length cs" by (auto simp: split_child_def split: if_splits)
  obtain lf' ks' vs' cs' where c: "cs ! i = Node lf' ks' vs' cs'" by (cases "cs ! i")
  have big: "length ks' + length vs' + size_list size cs' < size_list size cs"
    using size_list_estimation' [OF nth_mem [OF i] order.refl, of size] c by simp
  have "size_list size (take t cs') \<le> size_list size cs'" "size_list size (drop t cs') \<le> size_list size cs'"
    by (rule size_list_take size_list_drop)+
  moreover from assms(1) i c have "children p ! j =
      (if j = i then Node lf' (take (t - 1) ks') (take (t - 1) vs') (if lf' then cs' else take t cs')
       else Node lf' (drop t ks') (drop t vs') (if lf' then [] else drop t cs'))"
    using assms(2) by (auto simp: split_child_def Let_def list_insert_def nth_append split: if_splits)
  ultimately show ?thesis using big by auto
qed

function insert_non_full :: "nat \<Rightarrow> ('k::linorder, 'v) node \<Rightarrow> 'k \<Rightarrow> 'v \<Rightarrow> ('k, 'v) node result" where
  "insert_non_full t (Node lf ks vs cs) k v =
     (let i = bisect_left ks k
      in if lf then Inr (Node lf (list_insert i k ks) (list_insert i v vs) cs)
         else if i < length cs then
           (if length (keys (cs ! i)) = 2 * t - 1 then
              bind_result (split_child t (Node lf ks vs cs) i) (\<lambda>p.
                if i < length (keys p) then
                  (let j = (if keys p ! i < k then i + 1 else i)
                   in if j < length (children p)
                      then bind_result (insert_non_full t (children p ! j) k v)
                             (\<lambda>c. Inr (Node (leaf p) (keys p) (vals p) ((children p)[j := c])))
                      else Inl IndexError)
                else Inl IndexError)
            else bind_result (insert_non_full t (cs ! i) k v)
                   (\<lambda>c. Inr (Node lf ks vs (cs[i := c]))))
         else Inl IndexError)"
  by pat_completeness auto

termination
proof (relation "measure (\<lambda>(t, n, k, v). size n)", goal_cases)
  case (2 t lf ks vs cs k v i p j)
  then show ?case using split_child_size [of t lf ks vs cs i p j] by auto
next
  case (3 t lf ks vs cs k v i)
  then show ?case using size_nth_child [of i cs] by simp
qed simp

declare insert_non_full.simps [simp del]

subsection \<open>The memtable\<close>

record ('k, 'v) memtable =
  root :: "('k, 'v) node"
  min_degree :: nat
  entries :: nat

definition empty_node :: "('k, 'v) node" where
  "empty_node = Node True [] [] []"

definition memtable_init :: "int \<Rightarrow> ('k, 'v) memtable result" where
  "memtable_init t =
     (if t < 2 then Inl ValueError
      else Inr \<lparr>root = empty_node, min_degree = nat t, entries = 0\<rparr>)"

text \<open>\<open>BTreeMemTable()\<close>, with the default minimum degree 10.\<close>

definition new_memtable :: "('k, 'v) memtable" where
  "new_memtable = \<lparr>root = empty_node, min_degree = 10, entries = 0\<rparr>"

text \<open>\<open>insert\<close> after the key has been validated, for any ordered key type.\<close>

definition upsert :: "'k::linorder \<Rightarrow> 'v \<Rightarrow> ('k, 'v) memtable \<Rightarrow> ('k, 'v) memtable result" where
  "upsert k v m = bind_result (find_node_and_index (root m) k) (\<lambda>r.
     case r of
       Some (p, j) \<Rightarrow> bind_result (assign_value (root m) p j v) (\<lambda>n. Inr (m\<lparr>root := n\<rparr>))
     | None \<Rightarrow> bind_result
         (if length (keys (root m)) = 2 * min_degree m - 1
          then bind_result (split_child (min_degree m) (Node False [] [] [root m]) 0)
                 (\<lambda>temp. insert_non_full (min_degree m) temp k v)
          else insert_non_full (min_degree m) (root m) k v)
         (\<lambda>n. Inr (m\<lparr>root := n, entries := entries m + 1\<rparr>)))"

definition validate_key :: "pystr \<Rightarrow> unit result" where
  "validate_key k = (if k = [] then Inl ValueError else Inr ())"

definition memtable_insert :: "pystr \<Rightarrow> 'v \<Rightarrow> (pystr, 'v) memtable \<Rightarrow> ((pystr, 'v) memtable, unit) step_result"
  where
  "memtable_insert k v m =
     (case bind_result (validate_key k) (\<lambda>_. upsert k v m) of
        Inl e \<Rightarrow> (Inl e, m)
      | Inr m' \<Rightarrow> (Inr (), m'))"

definition memtable_search :: "pystr \<Rightarrow> (pystr, 'v) memtable \<Rightarrow> 'v option result" where
  "memtable_search k m = bind_result (validate_key k) (\<lambda>_. search_node (root m) k)"

definition memtable_contains :: "pystr \<Rightarrow> (pystr, 'v) memtable \<Rightarrow> bool result" where
  "memtable_contains k m = bind_result (validate_key k) (\<lambda>_.
     bind_result (find_node_and_index (root m) k) (\<lambda>r. Inr (r \<noteq> None)))"

definition memtable_clear :: "('k, 'v) memtable \<Rightarrow> ('k, 'v) memtable" where
  "memtable_clear m = m\<lparr>root := empty_node, entries := 0\<rparr>"

text \<open>
  \<open>_in_order\<close>: a leaf yields its pairs; an internal node yields each child before its separator and
  the last child (\<open>children[-1]\<close>) at the end.
\<close>

fun interleave :: "'a list list \<Rightarrow> 'a list \<Rightarrow> 'a list" where
  "interleave (x # xs) (kv # kvs) = x @ kv # interleave xs kvs"
| "interleave xs [] = (if xs = [] then [] else last xs)"
| "interleave [] (kv # kvs) = []"

fun in_order :: "('k, 'v) node \<Rightarrow> ('k \<times> 'v) list" where
  "in_order (Node lf ks vs cs) =
     (if lf then zip ks vs else interleave (map in_order cs) (zip ks vs))"

definition in_order_traversal :: "('k, 'v) memtable \<Rightarrow> ('k \<times> 'v) list" where
  "in_order_traversal m = in_order (root m)"

subsection \<open>Invariant and specification\<close>

text \<open>
  \<open>wf_node t h n\<close>: the subtree has height \<open>h\<close>, its lists match, no node has more than \<open>2t - 1\<close>
  keys, and no child has fewer than \<open>t - 1\<close>. The root may have fewer; an internal root has a key.
\<close>

fun wf_node :: "nat \<Rightarrow> nat \<Rightarrow> ('k, 'v) node \<Rightarrow> bool" where
  "wf_node t 0 (Node lf ks vs cs) \<longleftrightarrow>
     lf \<and> cs = [] \<and> length vs = length ks \<and> length ks \<le> 2 * t - 1"
| "wf_node t (Suc h) (Node lf ks vs cs) \<longleftrightarrow>
     \<not> lf \<and> length cs = length ks + 1 \<and> length vs = length ks \<and> length ks \<le> 2 * t - 1 \<and>
     (\<forall>c \<in> set cs. t - 1 \<le> length (keys c) \<and> wf_node t h c)"

abbreviation key_sorted :: "('k::linorder \<times> 'v) list \<Rightarrow> bool" where
  "key_sorted es \<equiv> sorted_wrt (<) (map fst es)"

definition memtable_inv :: "('k::linorder, 'v) memtable \<Rightarrow> bool" where
  "memtable_inv m \<longleftrightarrow>
     2 \<le> min_degree m \<and>
     (\<exists>h. wf_node (min_degree m) h (root m) \<and> (0 < h \<longrightarrow> keys (root m) \<noteq> [])) \<and>
     key_sorted (in_order (root m)) \<and> entries m = length (in_order (root m))"

text \<open>Sorted insertion of an absent or present key, the specification of \<open>insert\<close>.\<close>

fun ins_sorted :: "'k::linorder \<Rightarrow> 'v \<Rightarrow> ('k \<times> 'v) list \<Rightarrow> ('k \<times> 'v) list" where
  "ins_sorted k v [] = [(k, v)]"
| "ins_sorted k v ((a, b) # es) =
     (if k < a then (k, v) # (a, b) # es
      else if k = a then (k, v) # es else (a, b) # ins_sorted k v es)"

lemma map_of_ins_sorted: "key_sorted es \<Longrightarrow> map_of (ins_sorted k v es) = (map_of es)(k \<mapsto> v)"
  by (induction k v es rule: ins_sorted.induct) auto

lemma keys_ins_sorted: "fst ` set (ins_sorted k v es) = insert k (fst ` set es)"
  by (induction k v es rule: ins_sorted.induct) auto

lemma key_sorted_ins: "key_sorted es \<Longrightarrow> key_sorted (ins_sorted k v es)"
proof (induction k v es rule: ins_sorted.induct)
  case (2 k v a b es)
  then have "\<forall>x \<in> fst ` set (ins_sorted k v es). a < x" if "a < k"
    using that by (auto simp: keys_ins_sorted)
  with 2 show ?case by (auto simp: not_less_iff_gr_or_eq)
qed simp

lemma length_ins_sorted:
  "k \<notin> fst ` set es \<Longrightarrow> length (ins_sorted k v es) = Suc (length es)"
  by (induction k v es rule: ins_sorted.induct) auto

lemma length_ins_present:
  "key_sorted es \<Longrightarrow> k \<in> fst ` set es \<Longrightarrow> length (ins_sorted k v es) = length es"
  by (induction k v es rule: ins_sorted.induct) auto

lemma ins_sorted_append:
  assumes "\<forall>x \<in> fst ` set A. x < k" and "\<forall>x \<in> fst ` set B. k < x"
  shows "ins_sorted k v (A @ X @ B) = A @ ins_sorted k v X @ B"
proof -
  have "ins_sorted k v (X @ B) = ins_sorted k v X @ B"
  proof (induction X)
    case Nil
    with assms(2) show ?case by (cases B) auto
  qed auto
  with assms(1) show ?thesis by (induction A) auto
qed

subsection \<open>Positions found by the searches\<close>

lemma scan_left_eq: "scan_left ks k = length (takeWhile (\<lambda>x. x < k) ks)"
  by (induction ks) auto

lemma bisect_loop_eq:
  "lo \<le> n \<Longrightarrow> n \<le> hi \<Longrightarrow> hi \<le> length a \<Longrightarrow> \<forall>i < n. a ! i < x \<Longrightarrow>
   \<forall>i. n \<le> i \<and> i < length a \<longrightarrow> \<not> a ! i < x \<Longrightarrow> bisect_loop a x lo hi = n"
proof (induction a x lo hi rule: bisect_loop.induct)
  case (1 a x lo hi)
  let ?mid = "(lo + hi) div 2"
  show ?case
  proof (cases "lo < hi")
    case False
    with "1.prems" show ?thesis by (simp add: bisect_loop.simps [of a x lo hi])
  next
    case True
    then have mid: "lo \<le> ?mid" "?mid < hi" by auto
    have step: "bisect_loop a x lo hi =
        (if a ! ?mid < x then bisect_loop a x (?mid + 1) hi else bisect_loop a x lo ?mid)"
      using \<open>lo < hi\<close> by (simp add: bisect_loop.simps [of a x lo hi] Let_def)
    show ?thesis
    proof (cases "a ! ?mid < x")
      case True
      have "\<not> n \<le> ?mid"
        using "1.prems"(3,5) mid True by (meson less_le_trans)
      then have "?mid + 1 \<le> n" by simp
      with "1.IH"(1) [OF \<open>lo < hi\<close> refl True] "1.prems" show ?thesis
        using step True by presburger
    next
      case False
      have "\<not> ?mid < n" using "1.prems"(4) False by blast
      then have "n \<le> ?mid" by simp
      moreover have "?mid \<le> length a" using mid "1.prems"(3) by simp
      ultimately show ?thesis
        using "1.IH"(2) [OF \<open>lo < hi\<close> refl False] "1.prems" step False by presburger
    qed
  qed
qed

text \<open>On sorted keys the binary search and the linear scan find the same position.\<close>

lemma bisect_left_eq:
  fixes ks :: "'k::linorder list"
  assumes "sorted_wrt (<) ks"
  shows "bisect_left ks k = length (takeWhile (\<lambda>x. x < k) ks)"
proof -
  let ?n = "length (takeWhile (\<lambda>x. x < k) ks)"
  have le: "?n \<le> length ks" by (rule length_takeWhile_le)
  have lo: "ks ! i < k" if "i < ?n" for i
    using that nth_mem [OF that] by (metis set_takeWhileD takeWhile_nth)
  have hi: "\<not> ks ! i < k" if "?n \<le> i" "i < length ks" for i
  proof -
    have "?n < length ks" using that by simp
    then have "\<not> ks ! ?n < k" using nth_length_takeWhile by fastforce
    moreover have "ks ! ?n \<le> ks ! i"
      using that assms by (cases "?n = i") (auto simp: sorted_wrt_iff_nth_less order_less_imp_le)
    ultimately show ?thesis by auto
  qed
  show ?thesis
    unfolding bisect_left_def using le lo hi by (intro bisect_loop_eq) auto
qed

lemma bisect_scan: "sorted_wrt (<) ks \<Longrightarrow> scan_left ks k = bisect_left ks k"
  by (simp add: bisect_left_eq scan_left_eq)

lemma bisect_cut:
  fixes ks :: "'k::linorder list"
  assumes s: "sorted_wrt (<) ks"
  shows "bisect_left ks k \<le> length ks"
    and "\<forall>x \<in> set (take (bisect_left ks k) ks). x < k"
    and "\<not> (bisect_left ks k < length ks \<and> k = ks ! bisect_left ks k) \<Longrightarrow>
         \<forall>x \<in> set (drop (bisect_left ks k) ks). k < x"
proof -
  let ?i = "bisect_left ks k"
  have i: "?i = length (takeWhile (\<lambda>x. x < k) ks)" by (rule bisect_left_eq [OF s])
  show "?i \<le> length ks" unfolding i by (rule length_takeWhile_le)
  have "take ?i ks = takeWhile (\<lambda>x. x < k) ks"
    by (simp add: i takeWhile_eq_take [symmetric])
  then show "\<forall>x \<in> set (take ?i ks). x < k" by (auto dest: set_takeWhileD)
  assume no: "\<not> (?i < length ks \<and> k = ks ! ?i)"
  show "\<forall>x \<in> set (drop ?i ks). k < x"
  proof (cases "?i < length ks")
    case True
    then have "k < ks ! ?i"
      using no nth_length_takeWhile [of "\<lambda>x. x < k" ks] by (auto simp: i)
    moreover have d: "drop ?i ks = ks ! ?i # drop (Suc ?i) ks"
      using True by (simp add: Cons_nth_drop_Suc)
    moreover have "sorted_wrt (<) (drop ?i ks)" using s by (rule sorted_wrt_drop)
    ultimately show ?thesis by (auto simp: d)
  qed simp
qed

subsection \<open>The traversal around a position\<close>

fun before :: "'a list list \<Rightarrow> 'a list \<Rightarrow> 'a list" where
  "before (x # xs) (kv # kvs) = x @ kv # before xs kvs"
| "before _ _ = []"

fun after :: "'a list list \<Rightarrow> 'a list \<Rightarrow> 'a list" where
  "after (x # xs) (kv # kvs) = kv # x @ after xs kvs"
| "after _ _ = []"

lemma interleave_cut:
  assumes "length xs = length kvs" and "length ys = length kws"
  shows "interleave (xs @ y # ys) (kvs @ kws) = before xs kvs @ y @ after ys kws"
proof -
  have "interleave (y # ys) kws = y @ after ys kws" for y
    using assms(2) by (induction ys kws arbitrary: y rule: list_induct2) auto
  with assms(1) show ?thesis by (induction xs kvs rule: list_induct2) auto
qed

lemma interleave_at_key:
  assumes "length xs = Suc (length kvs)" and "length ys = Suc (length kws)"
  shows "interleave (xs @ ys) (kvs @ kv # kws) = interleave xs kvs @ kv # interleave ys kws"
  using assms(1)
proof (induction kvs arbitrary: xs)
  case Nil
  then show ?case by (cases xs) auto
next
  case (Cons a kvs)
  then show ?case by (cases xs) auto
qed

lemma set_interleave:
  "length xs = Suc (length kvs) \<Longrightarrow> set kvs \<subseteq> set (interleave xs kvs)"
proof (induction kvs arbitrary: xs)
  case (Cons a kvs)
  then show ?case by (cases xs) auto
qed simp

lemma sorted_separators:
  "length xs = Suc (length kvs) \<Longrightarrow> key_sorted (interleave xs kvs) \<Longrightarrow> key_sorted kvs"
proof (induction kvs arbitrary: xs)
  case (Cons a kvs)
  then obtain x ys where xs: "xs = x # ys" "length ys = Suc (length kvs)" by (cases xs) auto
  with Cons have "key_sorted kvs" by (auto simp: sorted_wrt_append)
  with Cons.prems(2) xs set_interleave [OF xs(2)] show ?case
    by (fastforce simp: sorted_wrt_append)
qed simp

lemma before_less:
  "length xs = length kvs \<Longrightarrow> key_sorted (before xs kvs) \<Longrightarrow> \<forall>x \<in> fst ` set kvs. x < k \<Longrightarrow>
   \<forall>x \<in> fst ` set (before xs kvs). x < k"
  by (induction xs kvs rule: list_induct2)
    (auto simp: sorted_wrt_append intro: order.strict_trans)

lemma after_greater:
  "length xs = length kvs \<Longrightarrow> key_sorted (after xs kvs) \<Longrightarrow> \<forall>x \<in> fst ` set kvs. k < x \<Longrightarrow>
   \<forall>x \<in> fst ` set (after xs kvs). k < x"
  by (induction xs kvs rule: list_induct2)
    (auto simp: sorted_wrt_append intro: order.strict_trans)

text \<open>The keys of a well-formed node with a sorted traversal are sorted.\<close>

lemma sorted_keys:
  "wf_node t h n \<Longrightarrow> key_sorted (in_order n) \<Longrightarrow> sorted_wrt (<) (keys n)"
proof (cases h)
  case 0
  assume "wf_node t h n" "key_sorted (in_order n)"
  with 0 show ?thesis by (cases n) auto
next
  case (Suc h')
  assume wf: "wf_node t h n" and s: "key_sorted (in_order n)"
  obtain lf ks vs cs where n: "n = Node lf ks vs cs" by (cases n)
  with wf Suc have "length (map in_order cs) = Suc (length (zip ks vs))" "length vs = length ks" "\<not> lf"
    by auto
  with sorted_separators s n show ?thesis by fastforce
qed

text \<open>Descending to child \<open>i\<close>: what is left and right of it is below and above the key.\<close>

lemma descend:
  assumes wf: "wf_node t (Suc h) (Node lf ks vs cs)"
    and s: "key_sorted (in_order (Node lf ks vs cs))"
    and i: "i = bisect_left ks k" and no: "\<not> (i < length ks \<and> k = ks ! i)"
  obtains A B where "i < length cs" and "wf_node t h (cs ! i)" and "t - 1 \<le> length (keys (cs ! i))"
    and "\<And>c. in_order (Node lf ks vs (cs[i := c])) = A @ in_order c @ B"
    and "in_order (Node lf ks vs cs) = A @ in_order (cs ! i) @ B"
    and "\<forall>x \<in> fst ` set A. x < k" and "\<forall>x \<in> fst ` set B. k < x"
proof -
  let ?kvs = "zip ks vs"
  let ?A = "before (map in_order (take i cs)) (take i ?kvs)"
  let ?B = "after (map in_order (drop (Suc i) cs)) (drop i ?kvs)"
  have sk: "sorted_wrt (<) ks" using sorted_keys [OF wf s] by simp
  note cut = bisect_cut [OF sk, of k, folded i]
  have len: "length cs = Suc (length ks)" "length vs = length ks" "\<not> lf" using wf by auto
  with cut(1) have ic: "i < length cs" by simp
  have split: "interleave (map in_order (take i cs) @ x # map in_order (drop (Suc i) cs)) ?kvs
      = ?A @ x @ ?B" for x
    using interleave_cut [of "map in_order (take i cs)" "take i ?kvs"
        "map in_order (drop (Suc i) cs)" "drop i ?kvs" x] len cut(1) by simp
  have upd: "in_order (Node lf ks vs (cs[i := c])) = ?A @ in_order c @ ?B" for c
    using split [of "in_order c"] len ic by (simp add: upd_conv_take_nth_drop)
  have whole: "in_order (Node lf ks vs cs) = ?A @ in_order (cs ! i) @ ?B"
    using upd [of "cs ! i"] by simp
  have "\<forall>x \<in> fst ` set (take i ?kvs). x < k" "\<forall>x \<in> fst ` set (drop i ?kvs). k < x"
    using cut(2) cut(3) [OF no] by (auto simp: take_zip drop_zip dest!: set_zip_leftD)
  moreover have "key_sorted ?A" "key_sorted ?B"
    using s unfolding whole by (simp_all add: sorted_wrt_append)
  ultimately have "\<forall>x \<in> fst ` set ?A. x < k" "\<forall>x \<in> fst ` set ?B. k < x"
    using len cut(1) by (intro before_less after_greater; simp)+
  with that upd whole ic wf nth_mem [OF ic] show thesis by auto
qed

text \<open>A key found in a node: what is left and right of it in the traversal.\<close>

lemma hit:
  assumes wf: "wf_node t h (Node lf ks vs cs)" and s: "key_sorted (in_order (Node lf ks vs cs))"
    and i: "i < length ks"
  obtains A B where "\<And>v. in_order (Node lf ks (vs[i := v]) cs) = A @ (ks ! i, v) # B"
    and "in_order (Node lf ks vs cs) = A @ (ks ! i, vs ! i) # B"
    and "\<forall>x \<in> fst ` set A. x < ks ! i" and "\<forall>x \<in> fst ` set B. ks ! i < x"
proof -
  have len: "length vs = length ks" using wf by (cases h) auto
  let ?zip = "\<lambda>v. take i (zip ks vs) @ (ks ! i, v) # drop (Suc i) (zip ks vs)"
  have z: "zip ks (vs[i := v]) = ?zip v" for v
  proof -
    have "zip ks (vs[i := v]) = (zip ks vs)[i := (ks ! i, v)]"
      by (simp add: update_zip)
    then show ?thesis using i len by (simp add: upd_conv_take_nth_drop)
  qed
  have "\<exists>A B. \<forall>v. in_order (Node lf ks (vs[i := v]) cs) = A @ (ks ! i, v) # B"
  proof (cases h)
    case 0
    with wf z show ?thesis by auto
  next
    case (Suc h')
    with wf have "length cs = Suc (length ks)" "\<not> lf" by auto
    then have "in_order (Node lf ks (vs[i := v]) cs) =
        interleave (map in_order (take (Suc i) cs)) (take i (zip ks vs)) @
        (ks ! i, v) # interleave (map in_order (drop (Suc i) cs)) (drop (Suc i) (zip ks vs))" for v
      using interleave_at_key [of "map in_order (take (Suc i) cs)" "take i (zip ks vs)"
          "map in_order (drop (Suc i) cs)" "drop (Suc i) (zip ks vs)" "(ks ! i, v)"] i len z
      by (simp flip: map_append)
    then show ?thesis by blast
  qed
  then obtain A B where AB: "\<And>v. in_order (Node lf ks (vs[i := v]) cs) = A @ (ks ! i, v) # B" by blast
  from AB [of "vs ! i"] have whole: "in_order (Node lf ks vs cs) = A @ (ks ! i, vs ! i) # B" by simp
  moreover have "\<forall>x \<in> fst ` set A. x < ks ! i" "\<forall>x \<in> fst ` set B. ks ! i < x"
    using s unfolding whole by (auto simp: sorted_wrt_append)
  ultimately show thesis using that AB by blast
qed

subsection \<open>Searching\<close>

lemma map_of_middle:
  assumes "\<forall>x \<in> fst ` set A. x < (k::'k::linorder)" and "\<forall>x \<in> fst ` set B. k < x"
  shows "map_of (A @ X @ B) k = map_of X k"
proof -
  have "map_of A k = None" "map_of B k = None"
    using assms by (auto simp: map_of_eq_None_iff)
  then show ?thesis by (simp add: map_add_def split: option.split)
qed

lemma map_of_hit:
  assumes "\<forall>x \<in> fst ` set A. x < (k::'k::linorder)"
  shows "map_of (A @ (k, v) # B) k = Some v"
proof -
  have "map_of A k = None" using assms by (auto simp: map_of_eq_None_iff)
  then show ?thesis by (simp add: map_add_def)
qed

lemma leaf_miss:
  assumes "sorted_wrt (<) ks" and "\<not> (bisect_left ks k < length ks \<and> k = ks ! bisect_left ks k)"
  shows "map_of (zip ks vs) k = None"
proof -
  have "k \<notin> set (take (bisect_left ks k) ks)" "k \<notin> set (drop (bisect_left ks k) ks)"
    using bisect_cut [OF assms(1), of k] assms(2) by auto
  then have "k \<notin> set ks" by (metis Un_iff append_take_drop_id set_append)
  then show ?thesis by (auto simp: map_of_eq_None_iff dest: set_zip_leftD)
qed

lemma search_node_correct:
  "wf_node t h n \<Longrightarrow> key_sorted (in_order n) \<Longrightarrow> search_node n k = Inr (map_of (in_order n) k)"
proof (induction h arbitrary: n)
  case (0 n)
  obtain lf ks vs cs where n: "n = Node lf ks vs cs" by (cases n)
  let ?i = "bisect_left ks k"
  show ?case
  proof (cases "?i < length ks \<and> k = ks ! ?i")
    case True
    then obtain A B where AB: "in_order n = A @ (k, vs ! ?i) # B" "\<forall>x \<in> fst ` set A. x < k"
      using hit [of t 0 lf ks vs cs ?i] 0 n by metis
    have "map_of (in_order n) k = Some (vs ! ?i)"
      unfolding AB(1) by (rule map_of_hit [OF AB(2)])
    with True 0 n show ?thesis by (simp add: Let_def del: in_order.simps)
  next
    case False
    have miss: "map_of (zip ks vs) k = None"
      using leaf_miss [of ks k vs] sorted_keys [OF 0] n False by simp
    from 0 n have "in_order n = zip ks vs" "lf" by auto
    with False n show ?thesis by (simp add: Let_def miss del: in_order.simps)
  qed
next
  case (Suc h n)
  obtain lf ks vs cs where n: "n = Node lf ks vs cs" by (cases n)
  let ?i = "bisect_left ks k"
  show ?case
  proof (cases "?i < length ks \<and> k = ks ! ?i")
    case True
    then obtain A B where AB: "in_order n = A @ (k, vs ! ?i) # B" "\<forall>x \<in> fst ` set A. x < k"
      using hit [of t "Suc h" lf ks vs cs ?i] Suc.prems n by metis
    have "map_of (in_order n) k = Some (vs ! ?i)"
      unfolding AB(1) by (rule map_of_hit [OF AB(2)])
    with True Suc.prems n show ?thesis by (simp add: Let_def del: in_order.simps)
  next
    case False
    obtain A B where d: "?i < length cs" "wf_node t h (cs ! ?i)"
      "in_order n = A @ in_order (cs ! ?i) @ B"
      "\<forall>x \<in> fst ` set A. x < k" "\<forall>x \<in> fst ` set B. k < x"
      using descend [of t h lf ks vs cs ?i k] Suc.prems n False by metis
    have "key_sorted (in_order (cs ! ?i))"
      using Suc.prems(2) unfolding d(3) by (simp add: sorted_wrt_append)
    then have "search_node (cs ! ?i) k = Inr (map_of (in_order (cs ! ?i)) k)"
      using Suc.IH d(2) by blast
    with False d Suc.prems n map_of_middle [OF d(4,5), of "in_order (cs ! ?i)"]
    show ?thesis by (auto simp: Let_def simp del: in_order.simps)
  qed
qed

subsection \<open>Updating a present key\<close>

lemma find_miss:
  "wf_node t h n \<Longrightarrow> key_sorted (in_order n) \<Longrightarrow> map_of (in_order n) k = None \<Longrightarrow>
   find_node_and_index n k = Inr None"
proof (induction h arbitrary: n)
  case (0 n)
  obtain lf ks vs cs where n: "n = Node lf ks vs cs" by (cases n)
  let ?i = "bisect_left ks k"
  have sc: "scan_left ks k = ?i" using bisect_scan sorted_keys [OF "0.prems"(1,2)] n by auto
  have "\<not> (?i < length ks \<and> k = ks ! ?i)"
  proof
    assume h: "?i < length ks \<and> k = ks ! ?i"
    then obtain A B where AB: "in_order n = A @ (k, vs ! ?i) # B" "\<forall>x \<in> fst ` set A. x < k"
      using hit [of t 0 lf ks vs cs ?i] 0 n by metis
    have "map_of (in_order n) k = Some (vs ! ?i)"
      unfolding AB(1) by (rule map_of_hit [OF AB(2)])
    with "0.prems"(3) show False by simp
  qed
  with 0 n sc show ?case by (auto simp: Let_def)
next
  case (Suc h n)
  obtain lf ks vs cs where n: "n = Node lf ks vs cs" by (cases n)
  let ?i = "bisect_left ks k"
  have sc: "scan_left ks k = ?i" using bisect_scan sorted_keys [OF Suc.prems(1,2)] n by auto
  have no: "\<not> (?i < length ks \<and> k = ks ! ?i)"
  proof
    assume h: "?i < length ks \<and> k = ks ! ?i"
    then obtain A B where AB: "in_order n = A @ (k, vs ! ?i) # B" "\<forall>x \<in> fst ` set A. x < k"
      using hit [of t "Suc h" lf ks vs cs ?i] Suc.prems n by metis
    have "map_of (in_order n) k = Some (vs ! ?i)"
      unfolding AB(1) by (rule map_of_hit [OF AB(2)])
    with Suc.prems(3) show False by simp
  qed
  obtain A B where d: "?i < length cs" "wf_node t h (cs ! ?i)"
    "in_order n = A @ in_order (cs ! ?i) @ B"
    "\<forall>x \<in> fst ` set A. x < k" "\<forall>x \<in> fst ` set B. k < x"
    using descend [of t h lf ks vs cs ?i k] Suc.prems n no by metis
  have "key_sorted (in_order (cs ! ?i))"
    using Suc.prems(2) unfolding d(3) by (simp add: sorted_wrt_append)
  moreover have "map_of (in_order (cs ! ?i)) k = None"
    using Suc.prems(3) unfolding d(3) map_of_middle [OF d(4,5)] .
  ultimately have "find_node_and_index (cs ! ?i) k = Inr None"
    using Suc.IH d(2) by blast
  with no sc d(1) Suc.prems(1) n show ?case by (auto simp: Let_def)
qed

lemma ins_sorted_hit:
  "\<forall>x \<in> fst ` set A. x < (k::'k::linorder) \<Longrightarrow> ins_sorted k v (A @ (k, w) # B) = A @ (k, v) # B"
  by (induction A) auto

lemma find_hit:
  "wf_node t h n \<Longrightarrow> key_sorted (in_order n) \<Longrightarrow> map_of (in_order n) k = Some w \<Longrightarrow>
   \<exists>p j n'. find_node_and_index n k = Inr (Some (p, j)) \<and> assign_value n p j v = Inr n' \<and>
     wf_node t h n' \<and> keys n' = keys n \<and> in_order n' = ins_sorted k v (in_order n)"
proof (induction h arbitrary: n)
  case (0 n)
  obtain lf ks vs cs where n: "n = Node lf ks vs cs" by (cases n)
  let ?i = "bisect_left ks k"
  have sk: "sorted_wrt (<) ks" using sorted_keys [OF "0.prems"(1,2)] n by auto
  have sc: "scan_left ks k = ?i" by (rule bisect_scan [OF sk])
  have yes: "?i < length ks \<and> k = ks ! ?i"
  proof (rule ccontr)
    assume "\<not> (?i < length ks \<and> k = ks ! ?i)"
    from leaf_miss [OF sk this, of vs] have "map_of (zip ks vs) k = None" .
    moreover from "0.prems"(1) n have "in_order n = zip ks vs" by simp
    ultimately show False using "0.prems"(3) by (simp only: option.distinct)
  qed
  obtain A B where AB: "\<And>v. in_order (Node lf ks (vs[?i := v]) cs) = A @ (k, v) # B"
    "in_order (Node lf ks vs cs) = A @ (k, vs ! ?i) # B" "\<forall>x \<in> fst ` set A. x < k"
    using hit [of t 0 lf ks vs cs ?i] 0 n yes by metis
  let ?n = "Node lf ks (vs[?i := v]) cs"
  have "assign_value n [] ?i v = Inr ?n" "wf_node t 0 ?n" using 0 n yes by auto
  moreover have "in_order ?n = ins_sorted k v (in_order n)"
    using ins_sorted_hit [OF AB(3)] by (simp only: n AB)
  moreover have "find_node_and_index n k = Inr (Some ([], ?i))"
    using yes sc n by (simp add: Let_def)
  ultimately show ?case using n by (metis node.sel(2))
next
  case (Suc h n)
  obtain lf ks vs cs where n: "n = Node lf ks vs cs" by (cases n)
  let ?i = "bisect_left ks k"
  have sc: "scan_left ks k = ?i" using bisect_scan sorted_keys [OF Suc.prems(1,2)] n by auto
  show ?case
  proof (cases "?i < length ks \<and> k = ks ! ?i")
    case True
    obtain A B where AB: "\<And>v. in_order (Node lf ks (vs[?i := v]) cs) = A @ (k, v) # B"
      "in_order (Node lf ks vs cs) = A @ (k, vs ! ?i) # B" "\<forall>x \<in> fst ` set A. x < k"
      using hit [of t "Suc h" lf ks vs cs ?i] Suc.prems n True by metis
    let ?n = "Node lf ks (vs[?i := v]) cs"
    have "assign_value n [] ?i v = Inr ?n" "wf_node t (Suc h) ?n" using Suc.prems n True by auto
    moreover have "in_order ?n = ins_sorted k v (in_order n)"
      using ins_sorted_hit [OF AB(3)] by (simp only: n AB)
    moreover have "find_node_and_index n k = Inr (Some ([], ?i))"
      using True sc n by (simp add: Let_def)
    ultimately show ?thesis using n by (metis node.sel(2))
  next
    case False
    obtain A B where d: "?i < length cs" "wf_node t h (cs ! ?i)" "t - 1 \<le> length (keys (cs ! ?i))"
      "\<And>c. in_order (Node lf ks vs (cs[?i := c])) = A @ in_order c @ B"
      "in_order n = A @ in_order (cs ! ?i) @ B"
      "\<forall>x \<in> fst ` set A. x < k" "\<forall>x \<in> fst ` set B. k < x"
      using descend [of t h lf ks vs cs ?i k] Suc.prems n False by metis
    have "key_sorted (in_order (cs ! ?i))"
      using Suc.prems(2) unfolding d(5) by (simp add: sorted_wrt_append)
    moreover have "map_of (in_order (cs ! ?i)) k = Some w"
      using Suc.prems(3) unfolding d(5) map_of_middle [OF d(6,7)] .
    ultimately obtain p j c where c: "find_node_and_index (cs ! ?i) k = Inr (Some (p, j))"
      "assign_value (cs ! ?i) p j v = Inr c" "wf_node t h c" "keys c = keys (cs ! ?i)"
      "in_order c = ins_sorted k v (in_order (cs ! ?i))"
      using Suc.IH [OF d(2)] by blast
    let ?n = "Node lf ks vs (cs[?i := c])"
    have "assign_value n (?i # p) j v = Inr ?n" using c(2) d(1) n by simp
    moreover have "wf_node t (Suc h) ?n"
      using Suc.prems(1) n c(3,4) d(3) by (auto dest!: set_update_subset_insert [THEN subsetD])
    moreover have "in_order ?n = ins_sorted k v (in_order n)"
      using ins_sorted_append [OF d(6,7)] by (simp only: d(4,5) c(5))
    moreover have "find_node_and_index n k = Inr (Some (?i # p, j))"
      using c(1) d(1) False sc Suc.prems(1) n by (auto simp: Let_def)
    ultimately show ?thesis using n by (metis node.sel(2))
  qed
qed

subsection \<open>Splitting a full child\<close>

text \<open>The two halves of a full node around its median.\<close>

lemma halves:
  assumes wf: "wf_node t h (Node lf ks vs cs)" and full: "length ks = 2 * t - 1" and t: "2 \<le> t"
  defines "l \<equiv> Node lf (take (t - 1) ks) (take (t - 1) vs) (if lf then cs else take t cs)"
    and "r \<equiv> Node lf (drop t ks) (drop t vs) (if lf then [] else drop t cs)"
  shows "wf_node t h l" and "wf_node t h r" and "length (keys l) = t - 1" and "length (keys r) = t - 1"
    and "in_order (Node lf ks vs cs) = in_order l @ (ks ! (t - 1), vs ! (t - 1)) # in_order r"
proof -
  have len: "length vs = 2 * t - 1" using wf full by (cases h) auto
  have z: "zip ks vs = take (t - 1) (zip ks vs) @ (ks ! (t - 1), vs ! (t - 1)) # drop t (zip ks vs)"
    using id_take_nth_drop [of "t - 1" "zip ks vs"] full len t by simp
  show "length (keys l) = t - 1" "length (keys r) = t - 1"
    using full t by (auto simp: l_def r_def)
  show "wf_node t h l" "wf_node t h r"
    using wf full len t
    by (cases h; auto simp: l_def r_def dest: in_set_takeD in_set_dropD)+
  show "in_order (Node lf ks vs cs) = in_order l @ (ks ! (t - 1), vs ! (t - 1)) # in_order r"
  proof (cases h)
    case 0
    with wf z show ?thesis by (simp add: l_def r_def take_zip drop_zip)
  next
    case (Suc h')
    with wf full have cs: "length cs = 2 * t" "\<not> lf" using t by auto
    then have "interleave (map in_order cs) (zip ks vs) =
        interleave (take t (map in_order cs)) (take (t - 1) (zip ks vs)) @
        (ks ! (t - 1), vs ! (t - 1)) # interleave (drop t (map in_order cs)) (drop t (zip ks vs))"
      using interleave_at_key [of "take t (map in_order cs)" "take (t - 1) (zip ks vs)"
          "drop t (map in_order cs)" "drop t (zip ks vs)" "(ks ! (t - 1), vs ! (t - 1))"] z full len t
      by simp
    with cs show ?thesis by (simp add: l_def r_def take_map drop_map take_zip drop_zip)
  qed
qed

lemma insert_after_update:
  "i < length cs \<Longrightarrow> list_insert (Suc i) r (cs[i := l]) = take i cs @ l # r # drop (Suc i) cs"
  by (simp add: list_insert_def take_update_swap take_Suc_conv_app_nth list_update_append)

lemma split_child_correct:
  assumes wf: "wf_node t (Suc h) (Node lf ks vs cs)" and i: "i < length cs"
    and full: "length (keys (cs ! i)) = 2 * t - 1" and room: "length ks < 2 * t - 1" and t: "2 \<le> t"
  shows "\<exists>p. split_child t (Node lf ks vs cs) i = Inr p \<and> wf_node t (Suc h) p \<and>
     in_order p = in_order (Node lf ks vs cs) \<and> length (keys p) = Suc (length ks) \<and>
     length (keys (children p ! i)) = t - 1 \<and> length (keys (children p ! Suc i)) = t - 1"
proof -
  obtain lf' ks' vs' cs' where c: "cs ! i = Node lf' ks' vs' cs'" by (cases "cs ! i")
  define l where "l = Node lf' (take (t - 1) ks') (take (t - 1) vs') (if lf' then cs' else take t cs')"
  define r where "r = Node lf' (drop t ks') (drop t vs') (if lf' then [] else drop t cs')"
  let ?m = "(ks' ! (t - 1), vs' ! (t - 1))"
  have len: "length cs = Suc (length ks)" "length vs = length ks" "\<not> lf" using wf by auto
  have wfc: "wf_node t h (cs ! i)" using wf i by auto
  then have "length vs' = 2 * t - 1" using full c by (cases h) auto
  have full': "length ks' = 2 * t - 1" using full c by simp
  note hv = halves [OF wfc [unfolded c] full' t, folded l_def r_def]
  let ?p = "Node lf (list_insert i (fst ?m) ks) (list_insert i (snd ?m) vs)
      (take i cs @ l # r # drop (Suc i) cs)"
  have run: "split_child t (Node lf ks vs cs) i = Inr ?p"
    using i c full' \<open>length vs' = 2 * t - 1\<close> t
    by (simp add: split_child_def Let_def l_def r_def insert_after_update)
  have il: "i \<le> length ks" using i len by simp
  let ?kvs = "zip ks vs"
  have cut: "in_order (Node lf ks vs cs) =
      before (map in_order (take i cs)) (take i ?kvs) @ in_order (cs ! i) @
      after (map in_order (drop (Suc i) cs)) (drop i ?kvs)"
    using interleave_cut [of "map in_order (take i cs)" "take i ?kvs"
        "map in_order (drop (Suc i) cs)" "drop i ?kvs" "in_order (cs ! i)"] len i il
    by (simp flip: id_take_nth_drop map_append list.map(2))
  have zp: "zip (list_insert i (fst ?m) ks) (list_insert i (snd ?m) vs) = take i ?kvs @ ?m # drop i ?kvs"
    using len il by (simp add: list_insert_def take_zip drop_zip)
  have "in_order ?p = before (map in_order (take i cs)) (take i ?kvs) @ in_order l @
      after (map in_order (r # drop (Suc i) cs)) (?m # drop i ?kvs)"
    using interleave_cut [of "map in_order (take i cs)" "take i ?kvs"
        "map in_order (r # drop (Suc i) cs)" "?m # drop i ?kvs" "in_order l"] len i il zp by simp
  then have ord: "in_order ?p = in_order (Node lf ks vs cs)"
    unfolding cut using hv(5) by (simp add: c)
  have "wf_node t (Suc h) ?p"
    using wf len room il hv by (auto simp: list_insert_def dest: in_set_takeD in_set_dropD)
  moreover have "length (keys ?p) = Suc (length ks)" using il by (simp add: list_insert_def)
  moreover have "children ?p ! i = l" "children ?p ! Suc i = r"
    using i by (simp_all add: nth_append)
  ultimately show ?thesis using run ord hv by auto
qed

subsection \<open>Inserting an absent key\<close>

lemma leaf_insert:
  assumes s: "sorted_wrt (<) ks" and len: "length vs = length ks" and k: "k \<notin> set ks"
  defines "i \<equiv> bisect_left ks k"
  shows "zip (list_insert i k ks) (list_insert i v vs) = ins_sorted k v (zip ks vs)"
proof -
  have no: "\<not> (i < length ks \<and> k = ks ! i)" using k by auto
  note cut = bisect_cut [OF s, of k, folded i_def]
  let ?A = "take i (zip ks vs)" and ?B = "drop i (zip ks vs)"
  have "\<forall>x \<in> fst ` set ?A. x < k" "\<forall>x \<in> fst ` set ?B. k < x"
    using cut(2) cut(3) [OF no] by (auto simp: take_zip drop_zip dest!: set_zip_leftD)
  then have "ins_sorted k v (?A @ [] @ ?B) = ?A @ ins_sorted k v [] @ ?B"
    by (rule ins_sorted_append)
  then have ins: "ins_sorted k v (zip ks vs) = ?A @ (k, v) # ?B" by simp
  show ?thesis
    unfolding ins using cut(1) len by (simp add: list_insert_def take_zip drop_zip)
qed

text \<open>Replacing the child the key belongs to by a child with the key inserted.\<close>

lemma insert_below:
  assumes wf: "wf_node t (Suc h) (Node lf ks vs cs)"
    and s: "key_sorted (in_order (Node lf ks vs cs))" and k: "k \<notin> fst ` set (in_order (Node lf ks vs cs))"
    and i: "i = bisect_left ks k"
    and c: "wf_node t h c" "t - 1 \<le> length (keys c)"
      "in_order c = ins_sorted k v (in_order (cs ! i))"
  shows "wf_node t (Suc h) (Node lf ks vs (cs[i := c]))"
    and "in_order (Node lf ks vs (cs[i := c])) = ins_sorted k v (in_order (Node lf ks vs cs))"
proof -
  have "ks ! j \<in> fst ` set (in_order (Node lf ks vs cs))" if "j < length ks" for j
    using hit [OF wf s that] by (metis fst_conv image_iff in_set_conv_decomp)
  then have no: "\<not> (i < length ks \<and> k = ks ! i)" using k by auto
  obtain A B where d: "i < length cs"
    "\<And>c. in_order (Node lf ks vs (cs[i := c])) = A @ in_order c @ B"
    "in_order (Node lf ks vs cs) = A @ in_order (cs ! i) @ B"
    "\<forall>x \<in> fst ` set A. x < k" "\<forall>x \<in> fst ` set B. k < x"
    using descend [OF wf s i no] by metis
  show "in_order (Node lf ks vs (cs[i := c])) = ins_sorted k v (in_order (Node lf ks vs cs))"
    using ins_sorted_append [OF d(4,5)] by (simp only: d(2,3) c(3))
  show "wf_node t (Suc h) (Node lf ks vs (cs[i := c]))"
    using wf c(1,2) by (auto dest!: set_update_subset_insert [THEN subsetD])
qed

lemma child_traversal:
  assumes wf: "wf_node t (Suc h) (Node lf ks vs cs)"
    and s: "key_sorted (in_order (Node lf ks vs cs))" and k: "k \<notin> fst ` set (in_order (Node lf ks vs cs))"
    and i: "i = bisect_left ks k"
  shows "i < length cs" and "wf_node t h (cs ! i)" and "t - 1 \<le> length (keys (cs ! i))"
    and "key_sorted (in_order (cs ! i))" and "k \<notin> fst ` set (in_order (cs ! i))"
proof -
  have "ks ! j \<in> fst ` set (in_order (Node lf ks vs cs))" if "j < length ks" for j
    using hit [OF wf s that] by (metis fst_conv image_iff in_set_conv_decomp)
  then have no: "\<not> (i < length ks \<and> k = ks ! i)" using k by auto
  obtain A B where d: "i < length cs" "wf_node t h (cs ! i)" "t - 1 \<le> length (keys (cs ! i))"
    "in_order (Node lf ks vs cs) = A @ in_order (cs ! i) @ B"
    using descend [OF wf s i no] by metis
  show "i < length cs" "wf_node t h (cs ! i)" "t - 1 \<le> length (keys (cs ! i))" using d by blast+
  show "key_sorted (in_order (cs ! i))" "k \<notin> fst ` set (in_order (cs ! i))"
    using s k unfolding d(4) by (auto simp: sorted_wrt_append)
qed

text \<open>After a split the comparison with the promoted key picks the position the search would.\<close>

lemma bisect_after_split:
  fixes ks :: "'k::linorder list"
  assumes s: "sorted_wrt (<) (list_insert i m ks)" and i: "i = bisect_left ks k"
    and s': "sorted_wrt (<) ks" and k: "k \<noteq> m"
  shows "(if m < k then i + 1 else i) = bisect_left (list_insert i m ks) k"
proof -
  have tw: "take i ks = takeWhile (\<lambda>x. x < k) ks"
    using bisect_left_eq [OF s', of k] i by (simp add: takeWhile_eq_take [symmetric])
  have le: "i \<le> length ks" using bisect_cut(1) [OF s', of k] i by simp
  have dw: "takeWhile (\<lambda>x. x < k) (drop i ks) = []"
  proof (cases "i < length ks")
    case True
    then have "\<not> ks ! i < k"
      using bisect_left_eq [OF s', of k] i nth_length_takeWhile [of "\<lambda>x. x < k" ks] by simp
    with True show ?thesis by (simp add: Cons_nth_drop_Suc [symmetric])
  qed simp
  have all: "\<forall>x \<in> set (take i ks). x < k" unfolding tw by (auto dest: set_takeWhileD)
  then have "takeWhile (\<lambda>x. x < k) (list_insert i m ks) =
      take i ks @ takeWhile (\<lambda>x. x < k) (m # drop i ks)"
    unfolding list_insert_def by (subst takeWhile_append2) auto
  then show ?thesis
    using le dw by (simp add: bisect_left_eq [OF s])
qed

lemma split_child_keys:
  assumes "split_child t (Node lf ks vs cs) i = Inr p"
  shows "\<exists>m. keys p = list_insert i m ks"
  using assms by (auto simp: split_child_def Let_def split: if_splits)

lemma insert_non_full_correct:
  "wf_node t h n \<Longrightarrow> 2 \<le> t \<Longrightarrow> length (keys n) < 2 * t - 1 \<Longrightarrow> key_sorted (in_order n) \<Longrightarrow>
   k \<notin> fst ` set (in_order n) \<Longrightarrow>
   \<exists>n'. insert_non_full t n k v = Inr n' \<and> wf_node t h n' \<and> length (keys n) \<le> length (keys n') \<and>
     in_order n' = ins_sorted k v (in_order n)"
proof (induction h arbitrary: n)
  case (0 n)
  obtain lf ks vs cs where n: "n = Node lf ks vs cs" by (cases n)
  let ?i = "bisect_left ks k"
  have sk: "sorted_wrt (<) ks" using sorted_keys [OF "0.prems"(1,4)] n by simp
  have len: "length vs = length ks" and lf: "lf" "cs = []" using 0 n by auto
  have "fst ` set (zip ks vs) = set ks" using len by (metis list.set_map map_fst_zip)
  then have "k \<notin> set ks" using "0.prems"(5) n lf by simp
  note li = leaf_insert [OF sk len this, of v]
  let ?n = "Node lf (list_insert ?i k ks) (list_insert ?i v vs) cs"
  have "insert_non_full t n k v = Inr ?n"
    by (simp add: n lf insert_non_full.simps Let_def)
  moreover have "wf_node t 0 ?n" "length (keys n) \<le> length (keys ?n)"
    using 0 n bisect_cut(1) [OF sk, of k] by (auto simp: list_insert_def)
  moreover have "in_order ?n = ins_sorted k v (in_order n)" using li n lf by simp
  ultimately show ?case by blast
next
  case (Suc h n)
  obtain lf ks vs cs where n: "n = Node lf ks vs cs" by (cases n)
  note wf = Suc.prems(1) [unfolded n] and s = Suc.prems(4) [unfolded n] and k = Suc.prems(5) [unfolded n]
  let ?i = "bisect_left ks k"
  note ch = child_traversal [OF wf s k refl]
  have lf: "\<not> lf" using wf by simp
  show ?case
  proof (cases "length (keys (cs ! ?i)) = 2 * t - 1")
    case False
    have "length (keys (cs ! ?i)) \<le> 2 * t - 1" using ch(2) by (cases "cs ! ?i"; cases h) auto
    with False have "length (keys (cs ! ?i)) < 2 * t - 1" by simp
    then obtain c where c: "insert_non_full t (cs ! ?i) k v = Inr c" "wf_node t h c"
      "length (keys (cs ! ?i)) \<le> length (keys c)" "in_order c = ins_sorted k v (in_order (cs ! ?i))"
      using Suc.IH [OF ch(2) Suc.prems(2) _ ch(4,5)] by blast
    have "insert_non_full t n k v = Inr (Node lf ks vs (cs[?i := c]))"
      using lf ch(1) c(1) False by (simp add: n insert_non_full.simps [of t _ ks vs cs] Let_def)
    moreover have "t - 1 \<le> length (keys c)" using ch(3) c(3) by simp
    note insert_below [OF wf s k refl c(2) this c(4)]
    ultimately show ?thesis unfolding n by auto
  next
    case full: True
    have room: "length ks < 2 * t - 1" using Suc.prems(3) n by simp
    obtain p where p: "split_child t (Node lf ks vs cs) ?i = Inr p" "wf_node t (Suc h) p"
      "in_order p = in_order (Node lf ks vs cs)" "length (keys p) = Suc (length ks)"
      "length (keys (children p ! ?i)) = t - 1" "length (keys (children p ! Suc ?i)) = t - 1"
      using split_child_correct [OF wf ch(1) full room Suc.prems(2)] by blast
    obtain plf pks pvs pcs where pn: "p = Node plf pks pvs pcs" by (cases p)
    obtain m where m: "pks = list_insert ?i m ks" using split_child_keys [OF p(1)] pn by auto
    have spk: "sorted_wrt (<) pks" using sorted_keys [OF p(2)] s p(3) pn by simp
    have sk: "sorted_wrt (<) ks" using sorted_keys [OF wf s] by simp
    have il: "?i \<le> length ks" by (rule bisect_cut(1) [OF sk])
    have sp: "key_sorted (in_order p)" "k \<notin> fst ` set (in_order p)" using s k p(3) by simp_all
    have im: "?i < length pks" "pks ! ?i = m" using m il by (auto simp: list_insert_def nth_append)
    have "m \<in> fst ` set (in_order p)"
      using hit [OF p(2) [unfolded pn] sp(1) [unfolded pn] im(1)] im(2) pn
      by (metis fst_conv image_iff in_set_conv_decomp)
    then have "k \<noteq> m" using sp(2) by auto
    define j where "j = bisect_left pks k"
    have j: "(if m < k then ?i + 1 else ?i) = j"
      unfolding j_def m by (rule bisect_after_split [OF spk [unfolded m] refl sk \<open>k \<noteq> m\<close>])
    note cj = child_traversal [OF p(2) [unfolded pn] sp(1) [unfolded pn] sp(2) [unfolded pn] j_def]
    have "length (keys (pcs ! j)) = t - 1" using p(5,6) j pn by (auto split: if_splits)
    then have "length (keys (pcs ! j)) < 2 * t - 1" using Suc.prems(2) by simp
    then obtain c where c: "insert_non_full t (pcs ! j) k v = Inr c" "wf_node t h c"
      "length (keys (pcs ! j)) \<le> length (keys c)" "in_order c = ins_sorted k v (in_order (pcs ! j))"
      using Suc.IH [OF cj(2) Suc.prems(2) _ cj(4,5)] by blast
    have "insert_non_full t n k v = Inr (Node plf pks pvs (pcs[j := c]))"
      using lf ch(1) c(1) full p(1) im j cj(1)
      by (simp add: n insert_non_full.simps [of t _ ks vs cs] Let_def pn split: if_splits)
    moreover have "t - 1 \<le> length (keys c)" using cj(3) c(3) by simp
    note insert_below [OF p(2) [unfolded pn] sp(1) [unfolded pn] sp(2) [unfolded pn] j_def c(2) this c(4)]
    ultimately show ?thesis using p(3,4) pn n by auto
  qed
qed

lemma upsert_correct:
  assumes inv: "memtable_inv m"
  shows "\<exists>m'. upsert k v m = Inr m' \<and> memtable_inv m' \<and> min_degree m' = min_degree m \<and>
     in_order_traversal m' = ins_sorted k v (in_order_traversal m) \<and>
     entries m' = (if map_of (in_order_traversal m) k = None then entries m + 1 else entries m)"
proof -
  let ?t = "min_degree m" and ?n = "root m"
  from inv obtain h where wf: "wf_node ?t h ?n" and h: "0 < h \<Longrightarrow> keys ?n \<noteq> []"
    and t: "2 \<le> ?t" and s: "key_sorted (in_order ?n)" and e: "entries m = length (in_order ?n)"
    by (auto simp: memtable_inv_def)
  show ?thesis
  proof (cases "map_of (in_order ?n) k")
    case (Some w)
    then obtain p j n' where n': "find_node_and_index ?n k = Inr (Some (p, j))"
      "assign_value ?n p j v = Inr n'" "wf_node ?t h n'" "keys n' = keys ?n"
      "in_order n' = ins_sorted k v (in_order ?n)"
      using find_hit [OF wf s] by blast
    have "k \<in> fst ` set (in_order ?n)" using Some by (metis map_of_eq_None_iff option.distinct(1))
    note length_ins_present [OF s this, of v]
    with n' h t s e key_sorted_ins [OF s, of k v] Some show ?thesis
      by (auto simp: upsert_def memtable_inv_def in_order_traversal_def)
  next
    case None
    then have k: "k \<notin> fst ` set (in_order ?n)" by (simp add: map_of_eq_None_iff)
    have fm: "find_node_and_index ?n k = Inr None" by (rule find_miss [OF wf s None])
    have len: "length (keys ?n) \<le> 2 * ?t - 1" using wf by (cases ?n; cases h) auto
    have "\<exists>n' h'. (if length (keys ?n) = 2 * ?t - 1
          then bind_result (split_child ?t (Node False [] [] [?n]) 0) (\<lambda>temp. insert_non_full ?t temp k v)
          else insert_non_full ?t ?n k v) = Inr n' \<and> wf_node ?t h' n' \<and>
        (0 < h' \<longrightarrow> keys n' \<noteq> []) \<and> in_order n' = ins_sorted k v (in_order ?n)"
    proof (cases "length (keys ?n) = 2 * ?t - 1")
      case False
      with len have "length (keys ?n) < 2 * ?t - 1" by simp
      then obtain n' where "insert_non_full ?t ?n k v = Inr n'" "wf_node ?t h n'"
        "length (keys ?n) \<le> length (keys n')" "in_order n' = ins_sorted k v (in_order ?n)"
        using insert_non_full_correct [OF wf t _ s k] by blast
      with False h show ?thesis by auto
    next
      case True
      let ?temp = "Node False [] [] [?n]"
      have wft: "wf_node ?t (Suc h) ?temp" using wf True t by simp
      obtain p where p: "split_child ?t ?temp 0 = Inr p" "wf_node ?t (Suc h) p"
        "in_order p = in_order ?temp" "length (keys p) = 1"
        using split_child_correct [OF wft _ _ _ t, of 0] True t by auto
      have po: "in_order p = in_order ?n" using p(3) by simp
      have "length (keys p) < 2 * ?t - 1" using p(4) t by simp
      then obtain n' where "insert_non_full ?t p k v = Inr n'" "wf_node ?t (Suc h) n'"
        "1 \<le> length (keys n')" "in_order n' = ins_sorted k v (in_order ?n)"
        using insert_non_full_correct [OF p(2) t, of k v] p(4) s k unfolding po by auto
      with True p(1) show ?thesis by (intro exI [of _ n'] exI [of _ "Suc h"]) auto
    qed
    then obtain n' h' where "upsert k v m = Inr (m\<lparr>root := n', entries := entries m + 1\<rparr>)"
      "wf_node ?t h' n'" "0 < h' \<longrightarrow> keys n' \<noteq> []" "in_order n' = ins_sorted k v (in_order ?n)"
      using fm by (auto simp: upsert_def)
    with t s e key_sorted_ins [OF s, of k v] length_ins_sorted [OF k] None show ?thesis
      by (auto simp: memtable_inv_def in_order_traversal_def)
  qed
qed

subsection \<open>The memtable's operations\<close>

abbreviation mt_lookup :: "('k::linorder, 'v) memtable \<Rightarrow> 'k \<Rightarrow> 'v option" where
  "mt_lookup m k \<equiv> map_of (in_order_traversal m) k"

definition upsert_ok :: "'k::linorder \<Rightarrow> 'v \<Rightarrow> ('k, 'v) memtable \<Rightarrow> ('k, 'v) memtable" where
  "upsert_ok k v m = (case upsert k v m of Inl _ \<Rightarrow> m | Inr m' \<Rightarrow> m')"

lemma in_order_empty [simp]: "in_order empty_node = []"
  by (simp add: empty_node_def)

lemma memtable_inv_empty:
  "2 \<le> t \<Longrightarrow> memtable_inv \<lparr>root = empty_node, min_degree = t, entries = 0\<rparr>"
  unfolding memtable_inv_def
  by (auto simp: empty_node_def intro!: exI [of _ 0])

lemma new_memtable_inv [simp]: "memtable_inv new_memtable"
  using memtable_inv_empty [of 10] by (simp add: new_memtable_def)

lemma new_memtable_traversal [simp]: "in_order_traversal new_memtable = []"
  by (simp add: in_order_traversal_def new_memtable_def)

lemma traversal_sorted: "memtable_inv m \<Longrightarrow> key_sorted (in_order_traversal m)"
  by (simp add: memtable_inv_def in_order_traversal_def)

lemma traversal_distinct: "memtable_inv m \<Longrightarrow> distinct (map fst (in_order_traversal m))"
  using traversal_sorted strict_sorted_iff by blast

lemma entries_traversal: "memtable_inv m \<Longrightarrow> entries m = length (in_order_traversal m)"
  by (simp add: memtable_inv_def in_order_traversal_def)

lemma upsert_lookup:
  assumes "memtable_inv m"
  shows "memtable_inv (upsert_ok k v m)"
    and "mt_lookup (upsert_ok k v m) x = (if x = k then Some v else mt_lookup m x)"
    and "upsert k v m = Inr (upsert_ok k v m)" and "min_degree (upsert_ok k v m) = min_degree m"
    and "in_order_traversal (upsert_ok k v m) = ins_sorted k v (in_order_traversal m)"
proof -
  obtain m' where m': "upsert k v m = Inr m'" "memtable_inv m'" "min_degree m' = min_degree m"
    "in_order_traversal m' = ins_sorted k v (in_order_traversal m)"
    using upsert_correct [OF assms, of k v] by blast
  show "memtable_inv (upsert_ok k v m)" "upsert k v m = Inr (upsert_ok k v m)"
    "min_degree (upsert_ok k v m) = min_degree m"
    "in_order_traversal (upsert_ok k v m) = ins_sorted k v (in_order_traversal m)"
    using m' by (simp_all add: upsert_ok_def)
  show "mt_lookup (upsert_ok k v m) x = (if x = k then Some v else mt_lookup m x)"
    using m' map_of_ins_sorted [OF traversal_sorted [OF assms], of k v] by (simp add: upsert_ok_def)
qed

lemma search_memtable:
  "memtable_inv m \<Longrightarrow> search_node (root m) k = Inr (mt_lookup m k)"
  using search_node_correct by (auto simp: memtable_inv_def in_order_traversal_def)

lemma memtable_search_correct:
  "memtable_inv m \<Longrightarrow> k \<noteq> [] \<Longrightarrow> memtable_search k m = Inr (mt_lookup m k)"
  by (simp add: memtable_search_def validate_key_def search_memtable)

lemma memtable_contains_correct:
  assumes "memtable_inv m" and "k \<noteq> []"
  shows "memtable_contains k m = Inr (mt_lookup m k \<noteq> None)"
proof -
  obtain h where wf: "wf_node (min_degree m) h (root m)" and s: "key_sorted (in_order (root m))"
    using assms(1) by (auto simp: memtable_inv_def)
  show ?thesis
  proof (cases "map_of (in_order (root m)) k")
    case None
    with find_miss [OF wf s None] assms(2) show ?thesis
      by (simp add: memtable_contains_def validate_key_def in_order_traversal_def)
  next
    case (Some w)
    with find_hit [OF wf s Some] assms(2) show ?thesis
      by (fastforce simp: memtable_contains_def validate_key_def in_order_traversal_def)
  qed
qed

lemma memtable_insert_correct:
  "memtable_inv m \<Longrightarrow> k \<noteq> [] \<Longrightarrow> memtable_insert k v m = (Inr (), upsert_ok k v m)"
  using upsert_lookup(3) [of m k v] by (simp add: memtable_insert_def validate_key_def)

interpretation mt: keyed_store new_memtable upsert_ok "\<lambda>m k. mt_lookup m k" memtable_inv
  by unfold_locales (simp_all add: upsert_lookup(1,2))

text \<open>Insertions in the order of a list, as \<open>set_many\<close> and recovery make them.\<close>

fun memtable_insert_all ::
  "(pystr \<times> 'v) list \<Rightarrow> (pystr, 'v) memtable \<Rightarrow> ((pystr, 'v) memtable, unit) step_result" where
  "memtable_insert_all [] m = (Inr (), m)"
| "memtable_insert_all ((k, v) # es) m =
     bind_step (memtable_insert k v m) (\<lambda>_ m'. memtable_insert_all es m')"

lemma memtable_insert_all_fold:
  "memtable_inv m \<Longrightarrow> [] \<notin> fst ` set es \<Longrightarrow>
   memtable_insert_all es m = (Inr (), fold (\<lambda>(k, v). upsert_ok k v) es m)"
proof (induction es arbitrary: m)
  case (Cons e es)
  obtain k v where e: "e = (k, v)" by (cases e)
  with Cons.prems have "memtable_insert k v m = (Inr (), upsert_ok k v m)"
    by (intro memtable_insert_correct) auto
  moreover have "memtable_inv (upsert_ok k v m)" using Cons.prems(1) by (rule upsert_lookup)
  ultimately show ?case using Cons e by simp
qed simp

subsection \<open>How many keys a tree of a given height holds\<close>

lemma length_interleave:
  "length xs = Suc (length kvs) \<Longrightarrow>
   length (interleave xs kvs) = sum_list (map length xs) + length kvs"
proof (induction kvs arbitrary: xs)
  case Nil
  then obtain x where "xs = [x]" by (cases xs) auto
  then show ?case by simp
next
  case (Cons a kvs)
  then show ?case by (cases xs) auto
qed

lemma sum_list_lower:
  "(\<And>x. x \<in> set xs \<Longrightarrow> b \<le> f x) \<Longrightarrow> length xs * b \<le> sum_list (map f xs)" for f :: "'a \<Rightarrow> nat"
  by (induction xs) (auto intro: add_mono)

lemma inner_node_size:
  assumes wf: "wf_node t (Suc h) n"
    and b: "\<And>c. c \<in> set (children n) \<Longrightarrow> b \<le> length (in_order c)"
  shows "(length (keys n) + 1) * b + length (keys n) \<le> length (in_order n)"
proof -
  obtain lf ks vs cs where n: "n = Node lf ks vs cs" by (cases n)
  with wf have len: "\<not> lf" "length cs = Suc (length ks)" "length vs = length ks" by auto
  have "length cs * b \<le> sum_list (map (\<lambda>c. length (in_order c)) cs)"
    using b n by (intro sum_list_lower) auto
  then show ?thesis
    using len by (simp add: n length_interleave comp_def)
qed

lemma full_subtree_size:
  "wf_node t h n \<Longrightarrow> t - 1 \<le> length (keys n) \<Longrightarrow> 1 \<le> t \<Longrightarrow> t ^ Suc h \<le> length (in_order n) + 1"
proof (induction h arbitrary: n)
  case (0 n)
  then show ?case by (cases n) auto
next
  case (Suc h n)
  have "\<And>c. c \<in> set (children n) \<Longrightarrow> t ^ Suc h - 1 \<le> length (in_order c)"
    using Suc by (cases n) fastforce
  from inner_node_size [OF Suc.prems(1) this]
  have "(length (keys n) + 1) * (t ^ Suc h - 1) + length (keys n) \<le> length (in_order n)" .
  moreover have "t * (t ^ Suc h - 1) + (t - 1) \<le> (length (keys n) + 1) * (t ^ Suc h - 1) + length (keys n)"
    using Suc.prems(2) by (intro add_mono mult_le_mono1) auto
  moreover have "t * (t ^ Suc h - 1) + t = t ^ Suc (Suc h)"
    using Suc.prems(3) by (simp add: right_diff_distrib' algebra_simps)
  ultimately show ?case using Suc.prems(3) by linarith
qed

lemma root_size:
  assumes wf: "wf_node t h n" and k: "keys n \<noteq> []" and t: "1 \<le> t"
  shows "2 * t ^ h \<le> length (in_order n) + 1"
proof (cases h)
  case 0
  with wf k show ?thesis by (cases n) (auto simp: Suc_le_eq)
next
  case (Suc h')
  have "\<And>c. c \<in> set (children n) \<Longrightarrow> t ^ h - 1 \<le> length (in_order c)"
    using wf full_subtree_size [of t h'] t Suc by (cases n) fastforce
  from inner_node_size [OF wf [unfolded Suc] this]
  have "(length (keys n) + 1) * (t ^ h - 1) + length (keys n) \<le> length (in_order n)" .
  moreover have "2 * (t ^ h - 1) + 1 \<le> (length (keys n) + 1) * (t ^ h - 1) + length (keys n)"
    using k by (intro add_mono mult_le_mono1) (auto simp: Suc_le_eq)
  moreover have "1 \<le> t ^ h" using t by simp
  ultimately show ?thesis by linarith
qed

subsection \<open>Properties\<close>

text \<open>C7: Whatever is inserted into a fresh memtable, in whatever order and with whatever degree
  \<open>t \<ge> 2\<close>, the tree then answers \<open>search\<close> and \<open>contains\<close> as the map in which the last insertion of a
  key decides, without raising; its traversal is strictly ascending, and \<open>len\<close> counts the distinct keys.\<close>

theorem memtable_is_a_sorted_map:
  assumes "2 \<le> t" and "[] \<notin> fst ` set es"
  shows "\<exists>m0 m. memtable_init t = Inr m0 \<and> memtable_insert_all es m0 = (Inr (), m) \<and>
     (\<forall>k. k \<noteq> [] \<longrightarrow> memtable_search k m = Inr (map_of (rev es) k) \<and>
        memtable_contains k m = Inr (map_of (rev es) k \<noteq> None)) \<and>
     map_of (in_order_traversal m) = map_of (rev es) \<and>
     sorted_wrt (<) (map fst (in_order_traversal m)) \<and> entries m = card (fst ` set es)"
proof -
  let ?e = "\<lparr>root = empty_node, min_degree = nat t, entries = 0\<rparr> :: (pystr, 'a) memtable"
  let ?m = "fold (\<lambda>(k, v). upsert_ok k v) es ?e"
  have i: "memtable_inv ?e" using assms(1) by (intro memtable_inv_empty) simp
  have inv: "memtable_inv ?m" by (rule mt.inv_batch) (rule i)
  have "mt_lookup ?m k = map_of (rev es) k" for k
    using mt.lookup_batch [OF i, of es k] by (simp add: in_order_traversal_def split: option.splits)
  then have l: "mt_lookup ?m = map_of (rev es)" by blast
  have "fst ` set (in_order_traversal ?m) = dom (mt_lookup ?m)" by (simp add: dom_map_of_conv_image_fst)
  also have "\<dots> = fst ` set es" by (simp add: l dom_map_of_conv_image_fst)
  finally have "card (fst ` set es) = length (in_order_traversal ?m)"
    using distinct_card [OF traversal_distinct [OF inv]] by simp
  then show ?thesis
    using assms memtable_insert_all_fold [OF i assms(2)] l traversal_sorted [OF inv]
      memtable_search_correct [OF inv] memtable_contains_correct [OF inv] entries_traversal [OF inv]
    by (intro exI [of _ ?e] exI [of _ ?m]) (auto simp: memtable_init_def)
qed

theorem memtable_is_a_sorted_map_witness:
  "\<exists>m0 m. memtable_init 2 = Inr m0 \<and>
     memtable_insert_all [(lit ''b'', 1::nat), (lit ''a'', 2), (lit ''b'', 3), (lit ''c'', 4), (lit ''d'', 5)] m0 = (Inr (), m)"
proof -
  have k: "[] \<notin> fst ` set [(lit ''b'', 1::nat), (lit ''a'', 2), (lit ''b'', 3), (lit ''c'', 4), (lit ''d'', 5)]"
    by (simp add: lit_def)
  show ?thesis using memtable_is_a_sorted_map [OF _ k, of 2] by auto
qed

text \<open>C8: The B-tree invariants hold through every insertion: all leaves are at the same depth,
  every non-root node has between \<open>t - 1\<close> and \<open>2t - 1\<close> keys, keys and values match, the traversal
  is the sorted one with the entry inserted, and the size counts exactly the new keys.\<close>

theorem memtable_insert_keeps_invariant:
  assumes "memtable_inv m" and "k \<noteq> []"
  shows "\<exists>m'. memtable_insert k v m = (Inr (), m') \<and> memtable_inv m' \<and>
     in_order_traversal m' = ins_sorted k v (in_order_traversal m) \<and>
     memtable_search k m' = Inr (Some v) \<and>
     (\<forall>k'. k' \<noteq> k \<longrightarrow> k' \<noteq> [] \<longrightarrow> memtable_search k' m' = memtable_search k' m) \<and>
     entries m' = (if memtable_contains k m = Inr True then entries m else entries m + 1)"
proof -
  obtain m' where m': "upsert k v m = Inr m'" "memtable_inv m'"
    "in_order_traversal m' = ins_sorted k v (in_order_traversal m)"
    "entries m' = (if mt_lookup m k = None then entries m + 1 else entries m)"
    using upsert_correct [OF assms(1), of k v] by blast
  then have ok: "upsert_ok k v m = m'" by (simp add: upsert_ok_def)
  have "memtable_insert k v m = (Inr (), m')"
    using memtable_insert_correct [OF assms, of v] ok by simp
  moreover have "mt_lookup m' x = (if x = k then Some v else mt_lookup m x)" for x
    using upsert_lookup(2) [OF assms(1), of k v x] ok by simp
  ultimately show ?thesis
    using m' assms memtable_search_correct [OF m'(2)] memtable_search_correct [OF assms(1)]
      memtable_contains_correct [OF assms] by auto
qed

theorem memtable_insert_keeps_invariant_witness:
  "\<exists>m'. memtable_insert (lit ''a'') (1::nat) new_memtable = (Inr (), m') \<and> memtable_inv m'"
proof -
  have "lit ''a'' \<noteq> []" by (simp add: lit_def)
  with memtable_insert_keeps_invariant [OF new_memtable_inv this, of "1::nat"] show ?thesis by auto
qed



text \<open>On a well-formed sorted node the binary search of \<open>_search\<close> and the linear scan of
  \<open>_find_node_and_index\<close> stop at the same index, the number of smaller keys, so the two lookups agree.\<close>

theorem bisect_and_scan_agree:
  assumes "sorted_wrt (<) ks"
  shows "bisect_left ks k = scan_left ks k \<and> bisect_left ks k = length (filter (\<lambda>x. x < k) ks)"
proof -
  have "filter (\<lambda>x. x < k) ks = takeWhile (\<lambda>x. x < k) ks"
    using assms
  proof (induction ks)
    case (Cons a ks)
    show ?case
    proof (cases "a < k")
      case False
      with Cons.prems have "filter (\<lambda>x. x < k) ks = []"
        by (auto simp: filter_empty_conv dest: order.strict_trans)
      with False show ?thesis by simp
    qed (use Cons in simp)
  qed simp
  with assms show ?thesis by (simp add: bisect_left_eq scan_left_eq)
qed

theorem bisect_and_scan_agree_witness: "bisect_left [1, 4, 9] (5::nat) = scan_left [1, 4, 9] (5::nat)"
proof -
  have "sorted_wrt (<) [1, 4, 9::nat]" by simp
  from bisect_and_scan_agree [OF this, of 5] show ?thesis by blast
qed

end
