(* ===== verification/Crc32.thy ===== *)
theory Crc32
  imports Prelude
begin

text \<open>
  \<open>zlib.crc32\<close>, which guards pages and WAL frames: the reflected CRC-32 with polynomial
  \<open>0xEDB88320\<close>, bit by bit. Beside the definition the theory proves what the callers rely on: the
  register update is linear over XOR, so two inputs of the same length that differ only inside a
  window of at most four consecutive bytes always have different checksums.
\<close>

unbundle bit_operations_syntax

definition crc_poly :: "32 word" where
  "crc_poly = 0xEDB88320"

definition crc_bit :: "32 word \<Rightarrow> 32 word" where
  "crc_bit c = (if bit c 0 then drop_bit 1 c XOR crc_poly else drop_bit 1 c)"

definition crc_byte :: "32 word \<Rightarrow> byte \<Rightarrow> 32 word" where
  "crc_byte c b = (crc_bit ^^ 8) (c XOR ucast b)"

definition crc_update :: "32 word \<Rightarrow> bytes \<Rightarrow> 32 word" where
  "crc_update c bs = foldl crc_byte c bs"

definition crc32 :: "bytes \<Rightarrow> nat" where
  "crc32 bs = unat (NOT (crc_update (NOT 0) bs))"

lemma crc32_bound [simp]: "crc32 bs < 256 ^ 4"
  using unsigned_less [of "NOT (crc_update (NOT 0) bs)"] by (simp add: crc32_def)

lemma crc_update_simps [simp]:
  "crc_update c [] = c" "crc_update c (b # bs) = crc_update (crc_byte c b) bs"
  "crc_update c (xs @ ys) = crc_update (crc_update c xs) ys"
  by (simp_all add: crc_update_def)

subsection \<open>The register update is linear and injective\<close>

lemma drop_xor: "drop_bit n (a XOR b) = drop_bit n a XOR drop_bit n (b :: 32 word)"
  by (rule bit_eqI) (simp add: bit_simps)

lemma crc_bit_xor: "crc_bit (a XOR b) = crc_bit a XOR crc_bit b"
  by (auto simp: crc_bit_def bit_xor_iff drop_xor xor.assoc xor.commute xor.left_commute)

lemma crc_bits_xor: "(crc_bit ^^ n) (a XOR b) = (crc_bit ^^ n) a XOR (crc_bit ^^ n) b"
  by (induction n) (simp_all add: crc_bit_xor)

lemma bit_shift: "bit (push_bit m w) n \<longleftrightarrow> m \<le> n \<and> n < 32 \<and> bit w (n - m)" for w :: "32 word"
  by (simp only: bit_push_bit_iff possible_bit_word) auto

lemma xor_cancel: "(a XOR u) XOR u = (a :: 'a::len word)"
  by (simp add: xor.assoc)

lemma xor_zero_iff: "a XOR b = 0 \<longleftrightarrow> a = (b :: 'a::len word)"
  by (metis xor.left_neutral xor_cancel)

lemma xor_right_inj: "a XOR u = b XOR u \<longleftrightarrow> a = (b :: 32 word)"
  by (metis xor_cancel)

lemma xor_move: "c XOR d = w \<longleftrightarrow> c = w XOR (d :: 32 word)"
  by (metis xor_cancel)

lemma crc_bit_zero: "crc_bit c = 0 \<Longrightarrow> c = 0"
proof -
  assume z: "crc_bit c = 0"
  have p: "bit crc_poly 31" by (simp add: crc_poly_def)
  have top: "\<not> bit (drop_bit 1 c) 31" by (auto simp: bit_simps dest: bit_imp_le_length)
  have b0: "\<not> bit c 0"
  proof
    assume "bit c 0"
    with z have "drop_bit 1 c XOR crc_poly = 0" by (simp add: crc_bit_def)
    then have "\<not> bit (drop_bit 1 c XOR crc_poly) 31" by simp
    with p top show False by (simp add: bit_xor_iff)
  qed
  with z have d: "drop_bit 1 c = 0" by (simp add: crc_bit_def)
  show ?thesis
  proof (rule bit_eqI)
    fix n
    show "bit c n = bit 0 n"
    proof (cases n)
      case (Suc m)
      have "bit c (Suc m) = bit (drop_bit 1 c) m" by (simp add: bit_simps)
      with d Suc show ?thesis by simp
    qed (use b0 in simp)
  qed
qed

lemma crc_bits_zero: "(crc_bit ^^ n) c = 0 \<Longrightarrow> c = 0"
  by (induction n) (auto dest: crc_bit_zero)

lemma crc_bits_inj: "(crc_bit ^^ n) a = (crc_bit ^^ n) b \<Longrightarrow> a = b"
proof -
  assume "(crc_bit ^^ n) a = (crc_bit ^^ n) b"
  then have "(crc_bit ^^ n) (a XOR b) = 0" by (simp add: crc_bits_xor)
  then show "a = b" using crc_bits_zero xor_zero_iff by blast
qed

lemma crc_update_reg_inj: "crc_update a bs = crc_update b bs \<Longrightarrow> a = b"
proof (induction bs arbitrary: a b)
  case (Cons x bs)
  then have "crc_byte a x = crc_byte b x" by (simp add: Cons.IH)
  then have "a XOR ucast x = b XOR ucast x" unfolding crc_byte_def by (rule crc_bits_inj)
  then show ?case by (simp only: xor_right_inj)
qed simp

subsection \<open>Windows of four bytes\<close>

text \<open>Running the register backwards: as long as the top bits are clear no polynomial was added.\<close>

lemma crc_bit_unshift:
  assumes "\<not> bit (crc_bit c) 31"
  shows "c = push_bit 1 (crc_bit c)"
proof -
  have p: "bit crc_poly 31" by (simp add: crc_poly_def)
  have "\<not> bit (drop_bit 1 c) 31" by (auto simp: bit_simps dest: bit_imp_le_length)
  with p assms have b0: "\<not> bit c 0" by (auto simp: crc_bit_def bit_xor_iff split: if_splits)
  show ?thesis
  proof (rule bit_eqI)
    fix n
    have "bit c n \<Longrightarrow> n < 32" using bit_imp_le_length [of c n] by simp
    then show "bit c n = bit (push_bit 1 (crc_bit c)) n"
      using b0 unfolding bit_shift by (cases n) (auto simp: crc_bit_def bit_simps)
  qed
qed

lemma crc_bits_unshift:
  "n \<le> 32 \<Longrightarrow> (\<And>i. 32 - n \<le> i \<Longrightarrow> \<not> bit ((crc_bit ^^ n) c) i) \<Longrightarrow> c = push_bit n ((crc_bit ^^ n) c)"
proof (induction n arbitrary: c)
  case (Suc n)
  let ?w = "(crc_bit ^^ Suc n) c"
  have "\<not> bit (crc_bit ((crc_bit ^^ n) c)) 31" using Suc.prems by simp
  then have s: "(crc_bit ^^ n) c = push_bit 1 ?w" using crc_bit_unshift by simp
  have "\<not> bit ((crc_bit ^^ n) c) i" if "32 - n \<le> i" for i
    using Suc.prems(2) [of "i - 1"] that Suc.prems(1)
    by (subst s, unfold bit_shift) auto
  then have "c = push_bit n ((crc_bit ^^ n) c)" using Suc.IH Suc.prems(1) by simp
  also have "\<dots> = push_bit n (push_bit 1 ?w)" by (rule arg_cong [OF s])
  also have "\<dots> = push_bit (Suc n) ?w" by (simp only: push_bit_push_bit) simp
  finally show ?case .
qed simp

lemma crc_diff:
  "length xs = length ys \<Longrightarrow>
   crc_update a xs XOR crc_update b ys = crc_update (a XOR b) (map2 (XOR) xs ys)"
proof (induction xs ys arbitrary: a b rule: list_induct2)
  case (Cons x xs y ys)
  let ?x = "ucast x :: 32 word" and ?y = "ucast y :: 32 word"
  have "ucast (x XOR y) = ?x XOR ?y" by (rule bit_eqI) (simp add: bit_simps)
  moreover have "(a XOR b) XOR (?x XOR ?y) = (a XOR ?x) XOR (b XOR ?y)"
    by (rule bit_eqI) (auto simp: bit_xor_iff)
  ultimately have "crc_byte (a XOR b) (x XOR y) = (crc_bit ^^ 8) ((a XOR ?x) XOR (b XOR ?y))"
    by (simp only: crc_byte_def)
  then have "crc_byte (a XOR b) (x XOR y) = crc_byte a x XOR crc_byte b y"
    by (simp only: crc_byte_def crc_bits_xor)
  with Cons show ?case by simp
qed simp

lemma crc_update_zeros [simp]: "crc_update 0 (replicate n 0) = 0"
  by (induction n) (auto simp: crc_byte_def crc_bit_def numeral_eq_Suc)

lemma ucast_byte_high: "8 \<le> i \<Longrightarrow> \<not> bit (ucast (b :: byte) :: 32 word) i"
  by (auto simp: bit_simps dest: bit_imp_le_length)

lemma crc_byte_unshift:
  assumes "\<And>i. 24 \<le> i \<Longrightarrow> \<not> bit (crc_byte c b) i"
  shows "c XOR ucast b = push_bit 8 (crc_byte c b)"
  using crc_bits_unshift [of 8 "c XOR ucast b"] assms by (simp add: crc_byte_def)

lemma four_bytes_zero:
  assumes "crc_update 0 [d0, d1, d2, d3] = 0"
  shows "d0 = 0 \<and> d1 = 0 \<and> d2 = 0 \<and> d3 = 0"
proof -
  let ?u = "\<lambda>b. ucast (b :: byte) :: 32 word"
  define s1 where "s1 = crc_byte 0 d0"
  define s2 where "s2 = crc_byte s1 d1"
  define s3 where "s3 = crc_byte s2 d2"
  have "crc_byte s3 d3 = 0" using assms by (simp add: s1_def s2_def s3_def)
  then have "s3 XOR ?u d3 = 0" unfolding crc_byte_def by (rule crc_bits_zero)
  then have s3: "s3 = ?u d3" by (simp add: xor_zero_iff)
  have "s2 XOR ?u d2 = push_bit 8 s3"
    unfolding s3_def by (rule crc_byte_unshift) (simp add: s3_def [symmetric] s3 ucast_byte_high)
  then have s2: "s2 = push_bit 8 (?u d3) XOR ?u d2" by (simp add: xor_move s3)
  have h2: "\<not> bit s2 i" if "16 \<le> i" for i
    using that unfolding s2 bit_xor_iff bit_shift by (auto simp: ucast_byte_high)
  have "s1 XOR ?u d1 = push_bit 8 s2"
    unfolding s2_def by (rule crc_byte_unshift) (simp add: s2_def [symmetric] h2)
  then have s1: "s1 = push_bit 8 s2 XOR ?u d1" by (simp add: xor_move)
  have h1: "\<not> bit s1 i" if "24 \<le> i" for i
    using that unfolding s1 bit_xor_iff bit_shift by (auto simp: ucast_byte_high h2)
  have "0 XOR ?u d0 = push_bit 8 s1"
    unfolding s1_def by (rule crc_byte_unshift) (simp add: s1_def [symmetric] h1)
  then have s0: "?u d0 = push_bit 8 s1" by simp
  have z1: "s1 = 0"
  proof (rule bit_eqI)
    fix n
    have "bit (push_bit 8 s1) (n + 8) = False" using ucast_byte_high [of "n + 8" d0] by (simp add: s0)
    then show "bit s1 n = bit 0 n" using h1 [of n] by (cases "n < 24") (auto simp: bit_shift)
  qed
  have z2: "s2 = 0 \<and> ?u d1 = 0"
  proof -
    have e: "push_bit 8 s2 = ?u d1" using s1 z1 by (metis xor_zero_iff)
    have "s2 = 0"
    proof (rule bit_eqI)
      fix n
      have "bit (push_bit 8 s2) (n + 8) = False" using ucast_byte_high [of "n + 8" d1] by (simp add: e)
      then show "bit s2 n = bit 0 n" using h2 [of n] by (cases "n < 24") (auto simp: bit_shift)
    qed
    with e show ?thesis by simp
  qed
  have z3: "?u d3 = 0 \<and> ?u d2 = 0"
  proof -
    have e: "push_bit 8 (?u d3) = ?u d2" using s2 z2 by (metis xor_zero_iff)
    have "?u d3 = 0"
    proof (rule bit_eqI)
      fix n
      have "bit (push_bit 8 (?u d3)) (n + 8) = False" using ucast_byte_high [of "n + 8" d2] by (simp add: e)
      then show "bit (?u d3) n = bit 0 n"
        using ucast_byte_high [of n d3] by (cases "n < 24") (auto simp: bit_shift)
    qed
    with e show ?thesis by simp
  qed
  have inj: "b = 0" if "?u b = 0" for b
  proof (rule bit_eqI)
    fix n
    assume "possible_bit TYPE(8 word) n"
    then have "bit (?u b) n = bit b n" by (simp add: bit_simps)
    then show "bit b n = bit 0 n" using that by simp
  qed
  show ?thesis using inj z1 z2 z3 s0 by auto
qed

text \<open>A changed window of at most four bytes changes the register.\<close>

lemma length_four: "length xs = 4 \<Longrightarrow> xs = [xs ! 0, xs ! 1, xs ! 2, xs ! 3]"
  by (rule nth_equalityI) (auto simp: less_Suc_eq numeral_eq_Suc)

lemma crc_window_zero:
  assumes "crc_update 0 ds = 0" and "length ds \<le> 4" and "d \<in> set ds"
  shows "d = 0"
proof -
  let ?p = "replicate (4 - length ds) 0 @ ds"
  have len: "length ?p = 4" using assms(2) by simp
  from length_four [OF this] obtain d0 d1 d2 d3 where p: "?p = [d0, d1, d2, d3]" by blast
  have "crc_update 0 ?p = 0" using assms(1) by simp
  then have "\<forall>x \<in> set ?p. x = 0" unfolding p using four_bytes_zero by auto
  with assms(3) show ?thesis by auto
qed

theorem crc32_window:
  assumes "length w = length w'" and "length w \<le> 4" and "w \<noteq> w'"
  shows "crc32 (xs @ w @ ys) \<noteq> crc32 (xs @ w' @ ys)"
proof
  assume "crc32 (xs @ w @ ys) = crc32 (xs @ w' @ ys)"
  then have "NOT (crc_update (NOT 0) (xs @ w @ ys)) = NOT (crc_update (NOT 0) (xs @ w' @ ys))"
    unfolding crc32_def by (rule unsigned_word_eqI)
  then have eq: "crc_update (NOT 0) (xs @ w @ ys) = crc_update (NOT 0) (xs @ w' @ ys)"
    using bit.compl_eq_compl_iff by blast
  let ?c = "crc_update (NOT 0) xs"
  have "crc_update ?c w = crc_update ?c w'"
    using eq crc_update_reg_inj [of "crc_update ?c w" ys "crc_update ?c w'"] by simp
  then have "crc_update 0 (map2 (XOR) w w') = 0"
    using crc_diff [OF assms(1), of ?c ?c] by simp
  then have z: "d = 0" if "d \<in> set (map2 (XOR) w w')" for d
    using crc_window_zero [OF _ _ that] assms(1,2) by simp
  have "w = w'"
  proof (rule nth_equalityI)
    fix i assume i: "i < length w"
    then have "w ! i XOR w' ! i \<in> set (map2 (XOR) w w')"
      using assms(1) by (auto simp: in_set_zip intro!: image_eqI [of _ _ "(w ! i, w' ! i)"])
    from z [OF this] show "w ! i = w' ! i" by (simp only: xor_zero_iff)
  qed (use assms(1) in simp)
  with assms(3) show False by simp
qed

text \<open>A check value, computed by the kernel: the standard one of this CRC.\<close>

lemma crc_byte_unfold:
  "crc_byte c b = crc_bit (crc_bit (crc_bit (crc_bit (crc_bit (crc_bit (crc_bit (crc_bit (c XOR ucast b))))))))"
  by (simp add: crc_byte_def numeral_eq_Suc)

lemma crc32_check_value: "crc32 (blit ''123456789'') = 0xCBF43926"
  by (simp add: crc32_def blit_def crc_byte_unfold crc_bit_def crc_poly_def)

end
