(* ===== verification/Machines.thy ===== *)
theory Machines
  imports Prelude
begin

text \<open>
  Components as machines that answer operations, and what it means that one keeps the promise of
  another: a step of the component answers as a step of its specification and keeps them related, as
  long as the component stays within a bound. The lemma of the locale carries this to every history.
\<close>

fun run :: "('op \<Rightarrow> 's \<Rightarrow> 'a \<times> 's) \<Rightarrow> 'op list \<Rightarrow> 's \<Rightarrow> 'a list \<times> 's" where
  "run step [] s = ([], s)"
| "run step (x # xs) s = (case step x s of (a, s1) \<Rightarrow> (case run step xs s1 of (as, s2) \<Rightarrow> (a # as, s2)))"

text \<open>What a history costs, where the cost of an operation depends on the state of the specification.\<close>

fun run_cost :: "('op \<Rightarrow> 's \<Rightarrow> nat) \<Rightarrow> ('op \<Rightarrow> 's \<Rightarrow> 'a \<times> 's) \<Rightarrow> 'op list \<Rightarrow> 's \<Rightarrow> nat" where
  "run_cost cost spec [] s = 0"
| "run_cost cost spec (x # xs) s = cost x s + run_cost cost spec xs (snd (spec x s))"

lemma run_append:
  "run step (xs @ ys) s = (case run step xs s of (as, s1) \<Rightarrow> (case run step ys s1 of (bs, s2) \<Rightarrow> (as @ bs, s2)))"
  by (induction xs arbitrary: s) (simp_all add: split_beta)

lemma run_cost_append:
  "run_cost cost spec (xs @ ys) s = run_cost cost spec xs s + run_cost cost spec ys (snd (run spec xs s))"
  by (induction xs arbitrary: s) (simp_all add: split_beta)

lemma run_cost_constant: "run_cost (\<lambda>_ _. c) spec xs s = c * length xs"
  by (induction xs arbitrary: s) simp_all

locale simulation =
  fixes step :: "'op \<Rightarrow> 'c \<Rightarrow> 'a \<times> 'c" and spec :: "'op \<Rightarrow> 's \<Rightarrow> 'a \<times> 's"
    and related :: "nat \<Rightarrow> 's \<Rightarrow> 'c \<Rightarrow> bool" and allowed :: "'op \<Rightarrow> bool" and cost :: "'op \<Rightarrow> 's \<Rightarrow> nat"
    and limit :: nat
  assumes step_simulates:
    "related n v c \<Longrightarrow> allowed x \<Longrightarrow> n + cost x v < limit \<Longrightarrow>
     \<exists>c'. step x c = (fst (spec x v), c') \<and> related (n + cost x v) (snd (spec x v)) c'"
begin

lemma history_simulates:
  assumes "related n v c" and "\<forall>x \<in> set xs. allowed x" and "n + run_cost cost spec xs v < limit"
  shows "fst (run step xs c) = fst (run spec xs v) \<and>
    related (n + run_cost cost spec xs v) (snd (run spec xs v)) (snd (run step xs c))"
  using assms
proof (induction xs arbitrary: n v c)
  case (Cons x xs)
  have x: "allowed x" "n + cost x v < limit" using Cons.prems(2,3) by simp_all
  obtain c1 where c1: "step x c = (fst (spec x v), c1)" "related (n + cost x v) (snd (spec x v)) c1"
    using step_simulates [OF Cons.prems(1) x] by blast
  have "\<forall>x \<in> set xs. allowed x" "n + cost x v + run_cost cost spec xs (snd (spec x v)) < limit"
    using Cons.prems(2,3) by (simp_all add: add.assoc)
  from Cons.IH [OF c1(2) this] c1(1) show ?case by (simp add: split_beta add.assoc)
qed simp

end

end
