(* ===== verification/Pager.thy ===== *)
theory Pager
  imports Py_Dict Crc32 Machines
begin

text \<open>
  \<open>pager/pager.py\<close>: one 4096-byte slotted page. Header of 20 bytes (magic, page id, lower and upper
  offset, slot count, flags, CRC-32), slot directory growing up behind it, record bytes growing
  down from the end. \<open>page_wf\<close> is what \<open>from_bytes\<close> checks, \<open>page_inv\<close> adds that no two slots share a
  byte. The abstraction \<open>contents\<close> is the list of records by slot id, \<open>None\<close> for deleted ones.
\<close>

subsection \<open>The page and its operations\<close>

text \<open>
  \<open>upper_offset\<close> and the slot offsets are integers: \<open>compact\<close> subtracts record lengths without a
  check. The values of \<open>cached_metadata\<close> belong to the router, their type is a parameter.
\<close>

record 'm page =
  page_id :: int
  page_flags :: int
  lower_offset :: nat
  upper_offset :: int
  slots :: "(int \<times> nat) list"
  page_data :: bytes
  cached_metadata :: "(nat, 'm) dict"

definition pager_init :: "int \<Rightarrow> int \<Rightarrow> 'm page result" where
  "pager_init pid fl =
     (if pid < 0 then Inl ValueError
      else if \<not> (0 \<le> fl \<and> fl \<le> 0xFFFF) then Inl ValueError
      else Inr \<lparr>page_id = pid, page_flags = fl, lower_offset = 20, upper_offset = 4096, slots = [],
                page_data = replicate 4096 0, cached_metadata = []\<rparr>)"

definition free_space :: "'m page \<Rightarrow> int" where
  "free_space p = upper_offset p - int (lower_offset p)"

definition has_space_for :: "int \<Rightarrow> 'm page \<Rightarrow> bool result" where
  "has_space_for n p = (if n < 0 then Inl ValueError else Inr (free_space p \<ge> 4 + n))"

definition insert_record :: "bytes \<Rightarrow> 'm page \<Rightarrow> ('m page, nat) step_result" where
  "insert_record payload p =
     (let n = length payload
      in if n = 0 then (Inl ValueError, p)
         else case has_space_for (int n) p of
           Inl e \<Rightarrow> (Inl e, p)
         | Inr False \<Rightarrow> (Inl PageOverflowError, p)
         | Inr True \<Rightarrow>
             let u = upper_offset p - int n;
                 sid = length (slots p)
             in (Inr sid, p\<lparr>upper_offset := u,
                   page_data := py_slice_assign (page_data p) u (u + int n) payload,
                   slots := slots p @ [(u, n)], lower_offset := lower_offset p + 4,
                   cached_metadata := []\<rparr>))"

definition get_record :: "int \<Rightarrow> 'm page \<Rightarrow> bytes option result" where
  "get_record sid p =
     (if sid < 0 \<or> int (length (slots p)) \<le> sid then Inl ValueError
      else let (off, n) = slots p ! nat sid
           in if off = 0 \<and> n = 0 then Inr None
              else Inr (Some (py_slice (page_data p) off (off + int n))))"

definition delete_record :: "int \<Rightarrow> 'm page \<Rightarrow> ('m page, unit) step_result" where
  "delete_record sid p =
     (if sid < 0 \<or> int (length (slots p)) \<le> sid then (Inl ValueError, p)
      else let (off, n) = slots p ! nat sid
           in if off = 0 \<and> n = 0 then (Inl ValueError, p)
              else (Inr (), p\<lparr>page_data := py_slice_assign (page_data p) off (off + int n) (replicate n 0),
                              slots := (slots p)[nat sid := (0, 0)], cached_metadata := []\<rparr>))"

fun slot_record :: "bytes \<Rightarrow> int \<times> nat \<Rightarrow> bytes option" where
  "slot_record d (off, n) = (if off = 0 \<and> n = 0 then None else Some (py_slice d off (off + int n)))"

text \<open>The loop of \<open>compact\<close> over \<open>enumerate(active_records)\<close>.\<close>

fun repack :: "nat \<Rightarrow> bytes option list \<Rightarrow> 'm page \<Rightarrow> 'm page" where
  "repack i [] p = p"
| "repack i (None # rs) p = repack (i + 1) rs p"
| "repack i (Some r # rs) p =
     (let u = upper_offset p - int (length r)
      in repack (i + 1) rs (p\<lparr>upper_offset := u,
           page_data := py_slice_assign (page_data p) u (u + int (length r)) r,
           slots := (slots p)[i := (u, length r)]\<rparr>))"

definition compact :: "'m page \<Rightarrow> 'm page" where
  "compact p =
     (let active = map (slot_record (page_data p)) (slots p);
          p1 = repack 0 active (p\<lparr>upper_offset := 4096\<rparr>);
          free = upper_offset p1 - int (lower_offset p1);
          p2 = (if free > 0
                then p1\<lparr>page_data := py_slice_assign (page_data p1) (int (lower_offset p1))
                       (upper_offset p1) (replicate (nat free) 0)\<rparr>
                else p1)
      in p2\<lparr>cached_metadata := []\<rparr>)"

fun pack_slots :: "(int \<times> nat) list \<Rightarrow> bytes result" where
  "pack_slots [] = Inr []"
| "pack_slots ((off, n) # ss) =
     bind_result (to_be 2 off) (\<lambda>a. bind_result (to_be 2 (int n)) (\<lambda>b.
       bind_result (pack_slots ss) (\<lambda>r. Inr (a @ b @ r))))"

definition page_header :: "'m page \<Rightarrow> bytes result" where
  "page_header p =
     bind_result (to_be 4 (page_id p)) (\<lambda>i.
     bind_result (to_be 2 (int (lower_offset p))) (\<lambda>l.
     bind_result (to_be 2 (upper_offset p)) (\<lambda>u.
     bind_result (to_be 2 (int (length (slots p)))) (\<lambda>n.
     bind_result (to_be 2 (page_flags p)) (\<lambda>f. Inr (blit ''CDBP'' @ i @ l @ u @ n @ f))))))"

definition to_bytes :: "'m page \<Rightarrow> ('m page, bytes) step_result" where
  "to_bytes p =
     (case pack_slots (slots p) of
        Inl e \<Rightarrow> (Inl e, p)
      | Inr sb \<Rightarrow>
          let d1 = slice_assign (page_data p) 20 (20 + length sb) sb;
              p1 = p\<lparr>page_data := d1\<rparr>
          in case page_header p1 of
               Inl e \<Rightarrow> (Inl e, p1)
             | Inr h \<Rightarrow>
                 let d2 = slice_assign d1 0 16 h;
                     d3 = slice_assign d2 16 20 (replicate 4 0);
                     d4 = slice_assign d3 16 20 (be_bytes 4 (crc32 d3))
                 in (Inr d4, p1\<lparr>page_data := d4\<rparr>))"

text \<open>The slot loop of \<open>from_bytes\<close>, for the slot indices still to read.\<close>

fun read_slots :: "nat \<Rightarrow> bytes \<Rightarrow> nat list \<Rightarrow> (int \<times> nat) list result" where
  "read_slots upper area [] = Inr []"
| "read_slots upper area (i # is) =
     (let off = be_val (slice area (4 * i) (4 * i + 2));
          n = be_val (slice area (4 * i + 2) (4 * i + 4))
      in if off = 0 \<and> n \<noteq> 0 then Inl PageCorruptionError
         else if off \<noteq> 0 \<and> (off < upper \<or> off + n > 4096) then Inl PageCorruptionError
         else bind_result (read_slots upper area is) (\<lambda>ss. Inr ((int off, n) # ss)))"

definition from_bytes :: "bytes \<Rightarrow> 'm page result" where
  "from_bytes raw =
     (if length raw \<noteq> 4096 then Inl PageCorruptionError
      else
        let magic = slice raw 0 4;
            pid = be_val (slice raw 4 8);
            lower = be_val (slice raw 8 10);
            upper = be_val (slice raw 10 12);
            num_slots = be_val (slice raw 12 14);
            fl = be_val (slice raw 14 16);
            checksum = be_val (slice raw 16 20)
        in if magic \<noteq> blit ''CDBP'' then Inl PageCorruptionError
           else if crc32 (slice_assign raw 16 20 (replicate 4 0)) \<noteq> checksum then Inl PageCorruptionError
           else if lower \<noteq> 20 + num_slots * 4 then Inl PageCorruptionError
           else if \<not> (20 \<le> lower \<and> lower \<le> 4096) then Inl PageCorruptionError
           else if \<not> (lower \<le> upper \<and> upper \<le> 4096) then Inl PageCorruptionError
           else bind_result (pager_init (int pid) (int fl)) (\<lambda>p.
                bind_result (read_slots upper (slice raw 20 lower) [0 ..< num_slots]) (\<lambda>ss.
                  Inr (p\<lparr>page_data := raw, lower_offset := lower, upper_offset := int upper,
                         slots := ss\<rparr>))))"

subsection \<open>Invariants and the abstraction\<close>

definition slot_in :: "int \<Rightarrow> int \<times> nat \<Rightarrow> bool" where
  "slot_in u s \<longleftrightarrow> s = (0, 0) \<or> (u \<le> fst s \<and> fst s + int (snd s) \<le> 4096)"

definition page_wf :: "'m page \<Rightarrow> bool" where
  "page_wf p \<longleftrightarrow> length (page_data p) = 4096 \<and> 0 \<le> page_id p \<and> page_id p < 2 ^ 32 \<and>
     0 \<le> page_flags p \<and> page_flags p < 2 ^ 16 \<and> lower_offset p = 20 + 4 * length (slots p) \<and>
     int (lower_offset p) \<le> upper_offset p \<and> upper_offset p \<le> 4096 \<and>
     (\<forall>s \<in> set (slots p). slot_in (upper_offset p) s)"

definition slot_bytes :: "int \<times> nat \<Rightarrow> nat list" where
  "slot_bytes s = [nat (fst s) ..< nat (fst s) + snd s]"

definition page_inv :: "'m page \<Rightarrow> bool" where
  "page_inv p \<longleftrightarrow> page_wf p \<and> distinct (concat (map slot_bytes (slots p)))"

definition contents :: "'m page \<Rightarrow> bytes option list" where
  "contents p = map (slot_record (page_data p)) (slots p)"

lemma slot_in_mono: "slot_in u s \<Longrightarrow> v \<le> u \<Longrightarrow> slot_in v s"
  by (auto simp: slot_in_def)

lemma slot_record_outside:
  assumes "length d = 4096" and "0 \<le> a" and "a + int (length r) \<le> b" and "b \<le> 4096" and "slot_in b s"
  shows "slot_record (slice_assign d (nat a) (nat a + length r) r) s = slot_record d s"
proof (cases s)
  case (Pair off n)
  show ?thesis
  proof (cases "off = 0 \<and> n = 0")
    case False
    with assms Pair have b: "b \<le> off" "off + int n \<le> 4096" by (auto simp: slot_in_def)
    have e: "nat (off + int n) = nat off + n" using b assms(2,3) by simp
    have "slice (slice_assign d (nat a) (nat a + length r) r) (nat off) (nat off + n) =
        slice d (nat off) (nat off + n)"
      by (rule slice_assign_other) (use b assms in linarith)+
    with False Pair b assms(2,3) e show ?thesis by simp
  qed (simp add: Pair)
qed

lemma get_record_contents:
  "get_record sid p =
     (if 0 \<le> sid \<and> sid < int (length (contents p)) then Inr (contents p ! nat sid) else Inl ValueError)"
proof (cases "0 \<le> sid \<and> sid < int (length (slots p))")
  case True
  then have "nat sid < length (slots p)" by linarith
  moreover obtain off n where "slots p ! nat sid = (off, n)" by fastforce
  ultimately show ?thesis using True by (auto simp: get_record_def contents_def)
qed (auto simp: get_record_def contents_def)

lemma pager_init_ok:
  assumes "0 \<le> pid" and "0 \<le> fl" and "fl < 2 ^ 16"
  shows "\<exists>p. pager_init pid fl = Inr p \<and> page_id p = pid \<and> slots p = [] \<and> contents p = [] \<and>
    free_space p = 4076 \<and> (pid < 2 ^ 32 \<longrightarrow> page_inv p) \<and> cached_metadata p = []"
  using assms by (auto simp: pager_init_def page_inv_def page_wf_def contents_def free_space_def)

subsection \<open>Inserting, deleting\<close>

lemma insert_record_ok:
  assumes wf: "page_wf p" and r: "payload \<noteq> []" and f: "4 + int (length payload) \<le> free_space p"
  shows "\<exists>p'. insert_record payload p = (Inr (length (slots p)), p') \<and> page_wf p' \<and>
     (page_inv p \<longrightarrow> page_inv p') \<and> contents p' = contents p @ [Some payload] \<and>
     free_space p' = free_space p - 4 - int (length payload) \<and> cached_metadata p' = [] \<and>
     page_id p' = page_id p \<and> length (slots p') = Suc (length (slots p))"
proof -
  let ?n = "length payload" and ?u = "upper_offset p - int (length payload)"
  let ?d = "slice_assign (page_data p) (nat ?u) (nat ?u + length payload) payload"
  let ?q = "p\<lparr>upper_offset := ?u, page_data := ?d, slots := slots p @ [(?u, ?n)],
      lower_offset := lower_offset p + 4, cached_metadata := []\<rparr>"
  have u: "int (lower_offset p) + 4 \<le> ?u" "upper_offset p \<le> 4096"
    using f wf by (auto simp: free_space_def page_wf_def)
  then have e: "nat (?u + int ?n) = nat ?u + ?n" "nat (upper_offset p) = nat ?u + ?n" by auto
  have ins: "insert_record payload p = (Inr (length (slots p)), ?q)"
    using r f u e by (simp add: insert_record_def has_space_for_def Let_def)
  have d: "length ?d = 4096"
    using wf u e by (auto simp: page_wf_def length_slice_assign)
  have wfq: "page_wf ?q"
    using wf u d by (auto simp: page_wf_def slot_in_def)
  have old: "slot_record ?d s = slot_record (page_data p) s" if "s \<in> set (slots p)" for s
    using that wf u by (intro slot_record_outside [of _ _ _ "upper_offset p"]) (auto simp: page_wf_def)
  have "slice ?d (nat ?u) (nat ?u + ?n) = payload"
    using wf u e by (intro slice_assign_same) (auto simp: page_wf_def)
  then have new: "slot_record ?d (?u, ?n) = Some payload"
    using r u e by simp
  have "contents ?q = contents p @ [Some payload]"
    using old new by (simp add: contents_def)
  moreover have "page_inv ?q" if "page_inv p"
  proof -
    have "x \<notin> set (slot_bytes (?u, ?n))" if "s \<in> set (slots p)" "x \<in> set (slot_bytes s)" for s x
      using that wf u e by (auto simp: page_wf_def slot_bytes_def slot_in_def)
    with that wfq show ?thesis by (auto simp: page_inv_def slot_bytes_def)
  qed
  ultimately show ?thesis
    using ins wfq u by (auto simp: free_space_def)
qed

lemma insert_record_full:
  assumes "payload \<noteq> []" and "free_space p < 4 + int (length payload)"
  shows "insert_record payload p = (Inl PageOverflowError, p)"
  using assms by (simp add: insert_record_def has_space_for_def)

lemma concat_distinct_other:
  assumes d: "distinct (concat (map f xs))" and i: "i < length xs" and j: "j < length xs" and ij: "i \<noteq> j"
  shows "set (f (xs ! i)) \<inter> set (f (xs ! j)) = {}"
proof -
  have *: "set (f (xs ! a)) \<inter> set (f (xs ! b)) = {}" if "a < b" "b < length xs" for a b
  proof -
    have "xs = take a xs @ xs ! a # drop (Suc a) xs" using that by (simp add: id_take_nth_drop)
    then have "distinct (concat (map f (take a xs @ xs ! a # drop (Suc a) xs)))" using d by simp
    moreover have "xs ! b \<in> set (drop (Suc a) xs)"
      using that by (auto simp: in_set_conv_nth intro!: exI [of _ "b - Suc a"])
    ultimately show ?thesis by auto
  qed
  show ?thesis using * [of i j] * [of j i] i j ij by (cases "i < j") auto
qed

lemma slot_record_disjoint:
  assumes len: "length d = 4096" and i: "slot_in 20 (a, m)" "(a, m) \<noteq> (0, 0)" and s: "slot_in 20 s"
    and dis: "set (slot_bytes (a, m)) \<inter> set (slot_bytes s) = {}" and r: "length r = m"
  shows "slot_record (slice_assign d (nat a) (nat a + m) r) s = slot_record d s"
proof (cases s)
  case (Pair off n)
  show ?thesis
  proof (cases "off = 0 \<and> n = 0")
    case False
    with s Pair have b: "20 \<le> off" "off + int n \<le> 4096" by (auto simp: slot_in_def)
    have a: "20 \<le> a" "a + int m \<le> 4096" using i by (auto simp: slot_in_def)
    have e: "nat (off + int n) = nat off + n" using b by simp
    have "slice (slice_assign d (nat a) (nat a + m) r) (nat off) (nat off + n) =
        slice d (nat off) (nat off + n)"
    proof (cases "n = 0 \<or> m = 0")
      case True
      then show ?thesis using r by (auto simp: slice_assign_empty)
    next
      case F: False
      have "off + int n \<le> a \<or> a + int m \<le> off"
      proof (rule ccontr)
        assume "\<not> ?thesis"
        then have "nat (max a off) \<in> set (slot_bytes (a, m)) \<inter> set (slot_bytes s)"
          using a b F Pair by (auto simp: slot_bytes_def)
        with dis show False by blast
      qed
      then show ?thesis
        by (intro slice_assign_other) (use a b r len in linarith)+
    qed
    with False Pair b e show ?thesis by simp
  qed (simp add: Pair)
qed

lemma slot_bytes_tomb [simp]: "slot_bytes (0, 0) = []"
  by (simp add: slot_bytes_def)

lemma distinct_slot_bytes [simp]: "distinct (slot_bytes s)"
  by (simp add: slot_bytes_def)

lemma slot_record_tomb [simp]: "slot_record d (0, 0) = None"
  by simp

lemma slot_record_None_iff: "slot_record d s = None \<longleftrightarrow> s = (0, 0)"
  by (cases s) auto

lemma page_slot_in: "page_wf p \<Longrightarrow> s \<in> set (slots p) \<Longrightarrow> slot_in 20 s"
  by (rule slot_in_mono [of "upper_offset p"]) (auto simp: page_wf_def)

lemma delete_record_ok:
  assumes inv: "page_inv p" and i: "i < length (slots p)" and live: "contents p ! i \<noteq> None"
  shows "\<exists>p' off n. delete_record (int i) p = (Inr (), p') \<and> page_inv p' \<and>
     contents p' = (contents p)[i := None] \<and> free_space p' = free_space p \<and>
     cached_metadata p' = [] \<and> page_id p' = page_id p \<and> slots p ! i = (off, n) \<and>
     slice (page_data p') (nat off) (nat off + n) = replicate n 0"
proof -
  have wf: "page_wf p" using inv by (simp add: page_inv_def)
  obtain off n where s: "slots p ! i = (off, n)" by fastforce
  have mem: "(off, n) \<in> set (slots p)" using i s nth_mem by fastforce
  have nz: "(off, n) \<noteq> (0, 0)" using live i s by (auto simp: contents_def split: if_splits)
  have b: "20 \<le> off" "off + int n \<le> 4096"
    using page_slot_in [OF wf mem] nz by (auto simp: slot_in_def)
  then have e: "nat (off + int n) = nat off + n" by simp
  let ?d = "slice_assign (page_data p) (nat off) (nat off + n) (replicate n 0)"
  let ?q = "p\<lparr>page_data := ?d, slots := (slots p)[i := (0, 0)], cached_metadata := []\<rparr>"
  have del: "delete_record (int i) p = (Inr (), ?q)"
    using i s nz b e by (auto simp: delete_record_def)
  have dl: "length ?d = 4096"
    using wf b by (auto simp: page_wf_def length_slice_assign)
  have other: "slot_record ?d (slots p ! j) = slot_record (page_data p) (slots p ! j)"
    if "j < length (slots p)" "j \<noteq> i" for j
  proof (rule slot_record_disjoint)
    show "set (slot_bytes (off, n)) \<inter> set (slot_bytes (slots p ! j)) = {}"
      using concat_distinct_other [of slot_bytes "slots p" i j] inv i that s by (simp add: page_inv_def)
  qed (use wf page_slot_in [OF wf] mem nz that in \<open>auto simp: page_wf_def\<close>)
  have cont: "contents ?q = (contents p)[i := None]"
    by (rule nth_equalityI) (use i other in \<open>auto simp: contents_def nth_list_update\<close>)
  have "page_wf ?q"
    using wf dl by (auto simp: page_wf_def slot_in_def dest!: set_update_subset_insert [THEN subsetD])
  moreover have "distinct (concat (map slot_bytes ((slots p)[i := (0, 0)])))"
  proof -
    have "slots p = take i (slots p) @ slots p ! i # drop (Suc i) (slots p)"
      using i by (rule id_take_nth_drop)
    then have "distinct (concat (map slot_bytes (take i (slots p) @ slots p ! i # drop (Suc i) (slots p))))"
      using inv by (simp add: page_inv_def)
    then show ?thesis using i by (auto simp: upd_conv_take_nth_drop)
  qed
  ultimately have "page_inv ?q" by (simp add: page_inv_def)
  moreover have "slice ?d (nat off) (nat off + n) = replicate n 0"
    by (rule slice_assign_same) (use wf b in \<open>auto simp: page_wf_def\<close>)
  ultimately show ?thesis using del cont s by (auto simp: free_space_def)
qed

lemma delete_record_dead:
  assumes "i < length (slots p)" and "contents p ! i = None"
  shows "delete_record (int i) p = (Inl ValueError, p)"
proof -
  have "slots p ! i = (0, 0)"
    using assms by (simp add: contents_def slot_record_None_iff)
  then show ?thesis using assms(1) by (auto simp: delete_record_def)
qed

subsection \<open>Compaction\<close>

definition live_bytes :: "bytes option list \<Rightarrow> nat" where
  "live_bytes rs = sum_list (map (\<lambda>r. case r of None \<Rightarrow> 0 | Some b \<Rightarrow> length b) rs)"

lemma live_bytes_simps [simp]:
  "live_bytes [] = 0" "live_bytes (None # rs) = live_bytes rs"
  "live_bytes (Some b # rs) = length b + live_bytes rs"
  "live_bytes (xs @ ys) = live_bytes xs + live_bytes ys"
  by (simp_all add: live_bytes_def)

lemma concat_slot_bytes_below:
  assumes "\<forall>s \<in> set ss. slot_in u s" and "0 \<le> a" and "a + int n \<le> u"
  shows "set (slot_bytes (a, n)) \<inter> set (concat (map slot_bytes ss)) = {}"
proof -
  have "x \<notin> set (slot_bytes (a, n))" if "s \<in> set ss" "x \<in> set (slot_bytes s)" for s x
    using assms that by (cases s) (auto simp: slot_bytes_def slot_in_def)
  then show ?thesis by auto
qed

text \<open>
  The loop invariant of \<open>repack\<close>: the slots before \<open>i\<close> are placed in the area from \<open>upper_offset\<close> up
  and keep their records, the slots from \<open>i\<close> on get the records still to be placed.
\<close>

lemma repack_correct:
  assumes "slots p = ds @ ts" and "i = length ds" and "length rs = length ts"
    and "length (page_data p) = 4096" and "upper_offset p \<le> 4096"
    and "20 + int (live_bytes rs) \<le> upper_offset p"
    and "\<forall>s \<in> set ds. slot_in (upper_offset p) s"
    and "\<forall>(r, t) \<in> set (zip rs ts). r = None \<longrightarrow> t = (0, 0)"
    and "distinct (concat (map slot_bytes ds))"
  shows "\<exists>d ts'. repack i rs p = p\<lparr>upper_offset := upper_offset p - int (live_bytes rs),
           page_data := d, slots := ds @ ts'\<rparr> \<and> length d = 4096 \<and> length ts' = length ts \<and>
         map (slot_record d) ts' = rs \<and>
         map (slot_record d) ds = map (slot_record (page_data p)) ds \<and>
         (\<forall>s \<in> set (ds @ ts'). slot_in (upper_offset p - int (live_bytes rs)) s) \<and>
         distinct (concat (map slot_bytes (ds @ ts')))"
  using assms
proof (induction rs arbitrary: i p ds ts)
  case Nil
  then show ?case by (intro exI [of _ "page_data p"] exI [of _ "[]"]) auto
next
  case (Cons o' rs)
  then obtain t ts0 where ts: "ts = t # ts0" by (cases ts) auto
  show ?case
  proof (cases o')
    case None
    with Cons ts have t: "t = (0, 0)" by auto
    have "\<exists>d ts'. repack (i + 1) rs p = p\<lparr>upper_offset := upper_offset p - int (live_bytes rs),
             page_data := d, slots := (ds @ [t]) @ ts'\<rparr> \<and> length d = 4096 \<and> length ts' = length ts0 \<and>
           map (slot_record d) ts' = rs \<and>
           map (slot_record d) (ds @ [t]) = map (slot_record (page_data p)) (ds @ [t]) \<and>
           (\<forall>s \<in> set ((ds @ [t]) @ ts'). slot_in (upper_offset p - int (live_bytes rs)) s) \<and>
           distinct (concat (map slot_bytes ((ds @ [t]) @ ts')))"
      by (rule Cons.IH) (use Cons.prems ts t None in \<open>auto simp: slot_in_def\<close>)
    then obtain d ts' where "repack (i + 1) rs p = p\<lparr>upper_offset := upper_offset p - int (live_bytes rs),
             page_data := d, slots := (ds @ [t]) @ ts'\<rparr>" "length d = 4096" "length ts' = length ts0"
           "map (slot_record d) ts' = rs"
           "map (slot_record d) (ds @ [t]) = map (slot_record (page_data p)) (ds @ [t])"
           "\<forall>s \<in> set ((ds @ [t]) @ ts'). slot_in (upper_offset p - int (live_bytes rs)) s"
           "distinct (concat (map slot_bytes ((ds @ [t]) @ ts')))" by blast
    then show ?thesis using ts t None by (intro exI [of _ d] exI [of _ "t # ts'"]) auto
  next
    case (Some r)
    let ?u = "upper_offset p - int (length r)"
    let ?d = "slice_assign (page_data p) (nat ?u) (nat ?u + length r) r"
    let ?t = "(?u, length r)"
    note c = Cons.prems
    have u: "20 + int (live_bytes rs) \<le> ?u" using c(6) Some by simp
    then have e: "nat (?u + int (length r)) = nat ?u + length r" by simp
    let ?p = "p\<lparr>upper_offset := ?u, page_data := ?d, slots := ds @ ?t # ts0\<rparr>"
    have step: "repack i (o' # rs) p = repack (i + 1) rs ?p"
      using c(1,2) ts u e Some by (simp add: Let_def list_update_append)
    have dl: "length ?d = 4096" using c(4,5) u by (auto simp: length_slice_assign)
    have keep: "map (slot_record ?d) ds = map (slot_record (page_data p)) ds"
      using c(4,5,7) u by (auto intro!: slot_record_outside [of _ _ _ "upper_offset p"])
    have "slice ?d (nat ?u) (nat ?u + length r) = r"
      using c(4,5) u by (intro slice_assign_same) auto
    then have rec: "slot_record ?d ?t = Some r" using u e by simp
    have ins: "\<forall>s \<in> set (ds @ [?t]). slot_in ?u s"
      using c(5,7) by (auto intro: slot_in_mono simp: slot_in_def)
    have dis: "distinct (concat (map slot_bytes (ds @ [?t])))"
      using c(9) concat_slot_bytes_below [OF c(7), of ?u "length r"] u by auto
    have "\<exists>d ts'. repack (i + 1) rs ?p = ?p\<lparr>upper_offset := upper_offset ?p - int (live_bytes rs),
             page_data := d, slots := (ds @ [?t]) @ ts'\<rparr> \<and> length d = 4096 \<and> length ts' = length ts0 \<and>
           map (slot_record d) ts' = rs \<and>
           map (slot_record d) (ds @ [?t]) = map (slot_record (page_data ?p)) (ds @ [?t]) \<and>
           (\<forall>s \<in> set ((ds @ [?t]) @ ts'). slot_in (upper_offset ?p - int (live_bytes rs)) s) \<and>
           distinct (concat (map slot_bytes ((ds @ [?t]) @ ts')))"
      by (rule Cons.IH) (use c ts u dl ins dis in \<open>auto\<close>)
    then obtain d ts' where ih: "repack (i + 1) rs ?p = ?p\<lparr>upper_offset := ?u - int (live_bytes rs),
             page_data := d, slots := (ds @ [?t]) @ ts'\<rparr>" "length d = 4096" "length ts' = length ts0"
           "map (slot_record d) ts' = rs"
           "map (slot_record d) (ds @ [?t]) = map (slot_record ?d) (ds @ [?t])"
           "\<forall>s \<in> set ((ds @ [?t]) @ ts'). slot_in (?u - int (live_bytes rs)) s"
           "distinct (concat (map slot_bytes ((ds @ [?t]) @ ts')))" by auto
    show ?thesis
      unfolding step
      by (intro exI [of _ d] exI [of _ "?t # ts'"])
        (use ih keep rec ts Some in \<open>auto simp: algebra_simps\<close>)
  qed
qed

lemma slot_record_length:
  assumes "slot_in 20 s" and "length d = 4096"
  shows "(case slot_record d s of None \<Rightarrow> 0 | Some b \<Rightarrow> length b) = length (slot_bytes s)"
proof (cases s)
  case (Pair off n)
  show ?thesis
  proof (cases "s = (0, 0)")
    case False
    with assms Pair have b: "20 \<le> off" "off + int n \<le> 4096" by (auto simp: slot_in_def)
    then have e: "nat (off + int n) = nat off + n" and "nat off + n \<le> 4096" by auto
    with False Pair b assms(2) show ?thesis by (auto simp: slot_bytes_def length_slice_le)
  qed simp
qed

lemma live_bytes_contents:
  assumes "page_wf p"
  shows "live_bytes (contents p) = length (concat (map slot_bytes (slots p)))"
proof -
  have "map (\<lambda>r. case r of None \<Rightarrow> 0 | Some b \<Rightarrow> length b) (contents p) =
      map (length \<circ> slot_bytes) (slots p)"
    unfolding contents_def
    using slot_record_length page_slot_in [OF assms] assms
    by (auto simp: page_wf_def simp del: slot_record.simps)
  then show ?thesis by (simp add: live_bytes_def length_concat)
qed

lemma live_bytes_bound:
  assumes "page_inv p"
  shows "int (live_bytes (contents p)) \<le> 4096 - upper_offset p"
proof -
  have wf: "page_wf p" using assms by (simp add: page_inv_def)
  let ?b = "concat (map slot_bytes (slots p))"
  have "set ?b \<subseteq> {nat (upper_offset p) ..< 4096}"
    using wf by (force simp: page_wf_def slot_in_def slot_bytes_def)
  then have "card (set ?b) \<le> 4096 - nat (upper_offset p)"
    using card_mono [of "{nat (upper_offset p) ..< 4096}" "set ?b"] by simp
  moreover have "card (set ?b) = length ?b"
    using assms by (intro distinct_card) (simp add: page_inv_def)
  ultimately have "length ?b \<le> 4096 - nat (upper_offset p)" by simp
  then have "int (length ?b) \<le> 4096 - upper_offset p"
    using wf unfolding page_wf_def by linarith
  then show ?thesis using live_bytes_contents [OF wf] by simp
qed

lemma compact_ok:
  assumes inv: "page_inv p"
  shows "page_inv (compact p)" and "contents (compact p) = contents p"
    and "upper_offset (compact p) = 4096 - int (live_bytes (contents p))"
    and "lower_offset (compact p) = lower_offset p" and "page_id (compact p) = page_id p"
    and "length (slots (compact p)) = length (slots p)" and "cached_metadata (compact p) = []"
    and "slice (page_data (compact p)) (lower_offset p) (4096 - live_bytes (contents p)) =
         replicate (4096 - live_bytes (contents p) - lower_offset p) 0"
proof -
  have wf: "page_wf p" using inv by (simp add: page_inv_def)
  let ?L = "live_bytes (contents p)"
  let ?u = "4096 - int ?L"
  have L: "int (lower_offset p) \<le> ?u" "20 \<le> int (lower_offset p)"
    using live_bytes_bound [OF inv] wf by (auto simp: page_wf_def)
  have tomb: "\<forall>(r, t) \<in> set (zip (contents p) (slots p)). r = None \<longrightarrow> t = (0, 0)"
    by (auto simp: contents_def in_set_zip slot_record_None_iff simp del: slot_record.simps)
  have "\<exists>d ts. repack 0 (contents p) (p\<lparr>upper_offset := 4096\<rparr>) =
          (p\<lparr>upper_offset := 4096\<rparr>)\<lparr>upper_offset := upper_offset (p\<lparr>upper_offset := 4096\<rparr>) - int ?L,
             page_data := d, slots := [] @ ts\<rparr> \<and> length d = 4096 \<and> length ts = length (slots p) \<and>
        map (slot_record d) ts = contents p \<and>
        map (slot_record d) [] = map (slot_record (page_data (p\<lparr>upper_offset := 4096\<rparr>))) [] \<and>
        (\<forall>s \<in> set ([] @ ts). slot_in (upper_offset (p\<lparr>upper_offset := 4096\<rparr>) - int ?L) s) \<and>
        distinct (concat (map slot_bytes ([] @ ts)))"
    by (rule repack_correct) (use wf L tomb in \<open>auto simp: page_wf_def contents_def\<close>)
  then obtain d ts where rp: "repack 0 (contents p) (p\<lparr>upper_offset := 4096\<rparr>) =
          p\<lparr>upper_offset := ?u, page_data := d, slots := ts\<rparr>" "length d = 4096"
        "length ts = length (slots p)" "map (slot_record d) ts = contents p"
        "\<forall>s \<in> set ts. slot_in ?u s" "distinct (concat (map slot_bytes ts))" by auto
  let ?l = "lower_offset p" and ?n = "4096 - ?L - lower_offset p"
  let ?d = "slice_assign d ?l (?l + ?n) (replicate ?n 0)"
  have n: "?l + ?n = 4096 - ?L" "nat ?u = 4096 - ?L" "nat (?u - int ?l) = ?n" using L by linarith+
  have "slice_assign d ?l (4096 - ?L) [] = d" if "int ?l = ?u"
  proof -
    have "4096 - ?L = ?l" using that by linarith
    then show ?thesis by (simp add: slice_assign_empty)
  qed
  then have comp: "compact p = p\<lparr>upper_offset := ?u, page_data := ?d, slots := ts, cached_metadata := []\<rparr>"
    using rp(1) L n by (auto simp: compact_def contents_def [symmetric] Let_def)
  have dl: "length ?d = 4096" using rp(2) n by (simp add: length_slice_assign)
  have rec: "slot_record ?d s = slot_record d s" if "s \<in> set ts" for s
    using slot_record_outside [OF rp(2), of "int ?l" "replicate ?n 0" ?u s] rp(5) that L n by simp
  show "contents (compact p) = contents p"
    using rec rp(4) by (simp add: comp contents_def cong: map_cong)
  show "page_inv (compact p)"
    using wf L dl rp(3,5,6) by (simp add: comp page_inv_def page_wf_def)
  show "slice (page_data (compact p)) ?l (4096 - ?L) = replicate (4096 - ?L - ?l) 0"
    using slice_assign_same [of ?l "replicate ?n 0" "?l + ?n" d] rp(2) n by (simp add: comp)
  show "upper_offset (compact p) = ?u" "lower_offset (compact p) = ?l" "page_id (compact p) = page_id p"
    "length (slots (compact p)) = length (slots p)" "cached_metadata (compact p) = []"
    by (simp_all add: comp rp(3))
qed

subsection \<open>Serialisation\<close>

text \<open>The slot directory as bytes.\<close>

fun slot_entry :: "int \<times> nat \<Rightarrow> bytes" where
  "slot_entry (off, n) = be_bytes 2 (nat off) @ be_bytes 2 n"

lemma slot_in_fits: "slot_in 20 (off, n) \<Longrightarrow> 0 \<le> off \<and> off < 65536 \<and> n < 65536"
  by (auto simp: slot_in_def)

lemma pack_slots_ok:
  "\<forall>s \<in> set ss. slot_in 20 s \<Longrightarrow> pack_slots ss = Inr (concat (map slot_entry ss))"
  by (induction ss rule: pack_slots.induct) (auto dest: slot_in_fits)

lemma length_slot_entries: "length (concat (map slot_entry ss)) = 4 * length ss"
  by (induction ss) (auto split: prod.splits)

lemma slice_slot_entry:
  "i < length ss \<Longrightarrow> slice (concat (map slot_entry ss)) (4 * i) (4 * i + 4) = slot_entry (ss ! i)"
proof (induction ss arbitrary: i)
  case (Cons s ss)
  have l: "length (slot_entry s) = 4" by (cases s) simp
  show ?case
  proof (cases i)
    case 0
    then show ?thesis using l by (simp add: slice_def)
  next
    case (Suc j)
    then show ?thesis using Cons l by (simp add: slice_append_right add.commute)
  qed
qed simp

lemma slice_sub:
  "slice xs a b = ys \<Longrightarrow> b \<le> length xs \<Longrightarrow> a \<le> b \<Longrightarrow> c \<le> d \<Longrightarrow> d \<le> b - a \<Longrightarrow>
   slice xs (a + c) (a + d) = slice ys c d"
proof -
  assume y: "slice xs a b = ys" and b: "b \<le> length xs" "a \<le> b" and c: "c \<le> d" "d \<le> b - a"
  show ?thesis
    unfolding y [symmetric]
    by (rule nth_equalityI) (use b c in \<open>auto simp: length_slice nth_slice add.assoc\<close>)
qed

definition slot_accepts :: "nat \<Rightarrow> int \<times> nat \<Rightarrow> bool" where
  "slot_accepts u s \<longleftrightarrow> 0 \<le> fst s \<and>
     (if fst s = 0 then snd s = 0 else int u \<le> fst s \<and> fst s + int (snd s) \<le> 4096)"

lemma read_slots_ok:
  assumes "\<forall>i \<in> set is. i < length ss \<and> slice area (4 * i) (4 * i + 4) = slot_entry (ss ! i) \<and>
     4 * i + 4 \<le> length area"
    and "\<forall>s \<in> set ss. slot_accepts u s"
  shows "read_slots u area is = Inr (map ((!) ss) is)"
  using assms(1)
proof (induction "is")
  case (Cons i "is")
  then have i: "i < length ss" and e: "slice area (4 * i) (4 * i + 4) = slot_entry (ss ! i)"
    and l: "4 * i + 4 \<le> length area" by auto
  obtain off' n where s': "ss ! i = (off', n)" by fastforce
  have acc': "slot_accepts u (off', n)" using assms(2) i s' nth_mem by fastforce
  then have "0 \<le> off'" by (simp add: slot_accepts_def)
  then obtain off where s: "ss ! i = (int off, n)" and acc: "slot_accepts u (int off, n)"
    using s' acc' nonneg_int_cases by metis
  then have b: "off < 256 ^ 2" "n < 256 ^ 2" by (auto simp: slot_accepts_def split: if_splits)
  have "slice area (4 * i + 0) (4 * i + 2) = be_bytes 2 off"
    using slice_sub [OF e l, of 0 2] s by (simp add: slice_def)
  moreover have "slice area (4 * i + 2) (4 * i + 4) = be_bytes 2 n"
    using slice_sub [OF e l, of 2 4] s by (simp add: slice_def)
  ultimately show ?case
    using Cons b acc s by (auto simp: slot_accepts_def Let_def split: if_splits)
qed simp

lemma read_slots_sound:
  "read_slots u area is = Inr ss \<Longrightarrow> (\<forall>i \<in> set is. 4 * i + 4 \<le> length area) \<Longrightarrow>
   length ss = length is \<and> (\<forall>s \<in> set ss. slot_accepts u s) \<and>
   (\<forall>j < length is. slot_entry (ss ! j) = slice area (4 * (is ! j)) (4 * (is ! j) + 4))"
proof (induction "is" arbitrary: ss)
  case (Cons i "is")
  let ?off = "be_val (slice area (4 * i) (4 * i + 2))"
  let ?n = "be_val (slice area (4 * i + 2) (4 * i + 4))"
  from Cons.prems(1) obtain ss' where ss': "read_slots u area is = Inr ss'" "ss = (int ?off, ?n) # ss'"
    by (auto simp: Let_def split: if_splits)
  have acc: "slot_accepts u (int ?off, ?n)"
    using Cons.prems(1) by (auto simp: Let_def slot_accepts_def split: if_splits)
  have l: "4 * i + 4 \<le> length area" using Cons.prems(2) by simp
  have "be_bytes 2 ?off = slice area (4 * i) (4 * i + 2)"
    using be_bytes_val [of "slice area (4 * i) (4 * i + 2)"] l by (simp add: length_slice_le)
  moreover have "be_bytes 2 ?n = slice area (4 * i + 2) (4 * i + 4)"
    using be_bytes_val [of "slice area (4 * i + 2) (4 * i + 4)"] l by (simp add: length_slice_le)
  ultimately have "slot_entry (int ?off, ?n) = slice area (4 * i) (4 * i + 4)"
    using slice_split [of "4 * i" "4 * i + 2" "4 * i + 4" area] by simp
  then show ?case
    using Cons.IH [OF ss'(1)] Cons.prems(2) ss'(2) acc by (auto simp: nth_Cons split: nat.splits)
qed simp

text \<open>The image of a page: header, checksum, slot directory, and the bytes behind the directory.\<close>

definition header_bytes :: "'m page \<Rightarrow> bytes" where
  "header_bytes p = blit ''CDBP'' @ be_bytes 4 (nat (page_id p)) @ be_bytes 2 (lower_offset p) @
     be_bytes 2 (nat (upper_offset p)) @ be_bytes 2 (length (slots p)) @ be_bytes 2 (nat (page_flags p))"

definition page_body :: "'m page \<Rightarrow> bytes" where
  "page_body p = concat (map slot_entry (slots p)) @ drop (lower_offset p) (page_data p)"

definition page_checksum :: "'m page \<Rightarrow> nat" where
  "page_checksum p = crc32 (header_bytes p @ replicate 4 0 @ page_body p)"

definition page_image :: "'m page \<Rightarrow> bytes" where
  "page_image p = header_bytes p @ be_bytes 4 (page_checksum p) @ page_body p"

lemma length_header_bytes [simp]: "length (header_bytes p) = 16"
  by (simp add: header_bytes_def)

lemma length_page_body: "page_wf p \<Longrightarrow> length (page_body p) = 4076"
  by (auto simp: page_body_def length_slot_entries page_wf_def)

lemma length_page_image: "page_wf p \<Longrightarrow> length (page_image p) = 4096"
  by (simp add: page_image_def length_page_body)

lemma page_header_ok:
  assumes "page_wf p"
  shows "page_header p = Inr (header_bytes p)"
proof -
  have "0 \<le> page_id p" "page_id p < 256 ^ 4" "int (lower_offset p) < 256 ^ 2" "0 \<le> upper_offset p"
      "upper_offset p < 256 ^ 2" "int (length (slots p)) < 256 ^ 2" "0 \<le> page_flags p"
      "page_flags p < 256 ^ 2"
    using assms by (auto simp: page_wf_def)
  then show ?thesis by (simp add: page_header_def header_bytes_def to_be_def)
qed

lemma to_bytes_ok:
  assumes wf: "page_wf p"
  shows "to_bytes p = (Inr (page_image p), p\<lparr>page_data := page_image p\<rparr>)"
proof -
  let ?sb = "concat (map slot_entry (slots p))"
  let ?d1 = "slice_assign (page_data p) 20 (20 + length ?sb) ?sb"
  let ?p1 = "p\<lparr>page_data := ?d1\<rparr>"
  have ps: "pack_slots (slots p) = Inr ?sb"
    using page_slot_in [OF wf] by (intro pack_slots_ok) blast
  have l: "20 + length ?sb = lower_offset p" "lower_offset p \<le> 4096" "length (page_data p) = 4096"
    using wf by (auto simp: page_wf_def length_slot_entries)
  have d1: "?d1 = take 20 (page_data p) @ page_body p"
    using l by (simp add: slice_assign_def page_body_def)
  have wf1: "page_wf ?p1" using wf l by (simp add: page_wf_def length_slice_assign)
  have h: "page_header ?p1 = Inr (header_bytes p)"
    using page_header_ok [OF wf1] by (simp add: header_bytes_def)
  let ?d2 = "slice_assign ?d1 0 16 (header_bytes p)"
  have d2: "?d2 = header_bytes p @ drop 16 (take 20 (page_data p)) @ page_body p"
    unfolding d1 using l by (simp add: slice_assign_def)
  have d3: "slice_assign ?d2 16 20 r = header_bytes p @ r @ page_body p" for r
    unfolding d2 using l by (simp add: slice_assign_def)
  have d4: "slice_assign (header_bytes p @ replicate 4 0 @ page_body p) 16 20 r =
      header_bytes p @ r @ page_body p" for r
    by (simp add: slice_assign_def)
  show ?thesis
    by (simp add: to_bytes_def ps h Let_def d3 d4 page_image_def page_checksum_def)
qed

lemma slice_image:
  assumes "length raw = 4096" and "raw = h @ cs @ body" and "length h = 16" and "length cs = 4"
  shows "b \<le> 16 \<Longrightarrow> slice raw a b = slice h a b" and "slice raw 16 20 = cs"
    and "slice raw 20 b = slice body 0 (b - 20)" and "slice_assign raw 16 20 r = h @ r @ body"
  using assms by (simp_all add: slice_rules slice_assign_def slice_def)

lemma slice_cat:
  "length xs = a \<Longrightarrow> b \<le> a \<Longrightarrow> slice (xs @ ys) 0 b = slice xs 0 b"
  "length xs \<le> a \<Longrightarrow> slice (xs @ ys) a b = slice ys (a - length xs) (b - length xs)"
  by (simp_all add: slice_rules)

lemma header_slices:
  "slice (header_bytes p) 0 4 = blit ''CDBP''"
  "slice (header_bytes p) 4 8 = be_bytes 4 (nat (page_id p))"
  "slice (header_bytes p) 8 10 = be_bytes 2 (lower_offset p)"
  "slice (header_bytes p) 10 12 = be_bytes 2 (nat (upper_offset p))"
  "slice (header_bytes p) 12 14 = be_bytes 2 (length (slots p))"
  "slice (header_bytes p) 14 16 = be_bytes 2 (nat (page_flags p))"
  by (simp_all add: header_bytes_def slice_def)

text \<open>What a page decoded from its own image looks like: the same page, with the image as buffer.\<close>

lemma from_bytes_image:
  assumes wf: "page_wf p"
  shows "from_bytes (page_image p) = Inr (p\<lparr>page_data := page_image p, cached_metadata := []\<rparr>)"
proof -
  let ?r = "page_image p"
  have len: "length ?r = 4096" by (rule length_page_image [OF wf])
  note sl = slice_image [OF len page_image_def length_header_bytes length_be_bytes]
  have cs: "crc32 (header_bytes p @ replicate 4 0 @ page_body p) = page_checksum p"
    by (simp add: page_checksum_def)
  have f: "nat (page_id p) < 256 ^ 4" "lower_offset p < 256 ^ 2" "nat (upper_offset p) < 256 ^ 2"
      "length (slots p) < 256 ^ 2" "nat (page_flags p) < 256 ^ 2" "page_checksum p < 256 ^ 4"
    using wf by (auto simp: page_wf_def page_checksum_def simp del: crc32_bound) 
      (use crc32_bound in \<open>simp add: power_numeral\<close>)
  have area: "slice (page_body p) 0 (4 * length (slots p)) = concat (map slot_entry (slots p))"
    by (simp add: page_body_def slice_append_left slice_whole length_slot_entries)
  have rs: "read_slots (nat (upper_offset p)) (concat (map slot_entry (slots p))) [0 ..< length (slots p)] =
      Inr (slots p)"
  proof -
    have "slot_accepts (nat (upper_offset p)) s" if "s \<in> set (slots p)" for s
      using wf that by (cases s) (auto simp: page_wf_def slot_in_def slot_accepts_def)
    then show ?thesis
      using read_slots_ok [of "[0 ..< length (slots p)]" "slots p"] slice_slot_entry [of _ "slots p"]
      by (simp add: length_slot_entries map_nth)
  qed
  have b: "0 \<le> page_id p" "0 \<le> page_flags p" "page_flags p < 65536" "0 \<le> upper_offset p"
      "upper_offset p \<le> 4096" "lower_offset p = 20 + 4 * length (slots p)"
      "int (lower_offset p) \<le> upper_offset p"
    using wf by (auto simp: page_wf_def)
  have "from_bytes ?r = Inr \<lparr>page_id = page_id p, page_flags = page_flags p,
      lower_offset = lower_offset p, upper_offset = upper_offset p, slots = slots p,
      page_data = ?r, cached_metadata = []\<rparr>"
    using b f unfolding from_bytes_def
    by (auto simp: len sl header_slices cs area rs Let_def pager_init_def)
  then show ?thesis by (cases p) simp
qed

subsection \<open>What \<open>from_bytes\<close> accepts\<close>

lemma read_slots_error: "read_slots u area is = Inl e \<Longrightarrow> e = PageCorruptionError"
  by (induction "is") (auto simp: Let_def split: if_splits elim!: bind_result.elims)

lemma from_bytes_Inr:
  assumes "from_bytes raw = Inr p"
  defines "lo \<equiv> be_val (slice raw 8 10)" and "up \<equiv> be_val (slice raw 10 12)"
    and "ns \<equiv> be_val (slice raw 12 14)"
  shows "length raw = 4096" and "slice raw 0 4 = blit ''CDBP''"
    and "crc32 (slice_assign raw 16 20 (replicate 4 0)) = be_val (slice raw 16 20)"
    and "lo = 20 + ns * 4" and "lo \<le> up" and "up \<le> 4096"
    and "\<exists>ss. read_slots up (slice raw 20 lo) [0 ..< ns] = Inr ss \<and>
      p = \<lparr>page_id = int (be_val (slice raw 4 8)), page_flags = int (be_val (slice raw 14 16)),
           lower_offset = lo, upper_offset = int up, slots = ss, page_data = raw, cached_metadata = []\<rparr>"
  using assms(1) unfolding from_bytes_def assms(2-4)
  by (auto simp: Let_def pager_init_def split: if_splits)

lemma drop_slice: "a \<le> b \<Longrightarrow> slice xs a b @ drop b xs = drop a xs"
  by (metis append_take_drop_id drop_drop le_add_diff_inverse2 slice_def)

lemma be_field:
  "slice raw a (a + k) = ys \<Longrightarrow> a + k \<le> length raw \<Longrightarrow> be_bytes k (be_val ys) = ys \<and> be_val ys < 256 ^ k"
  using be_bytes_val [of ys] be_val_bound [of ys] by (auto simp: length_slice_le)

text \<open>A page is accepted only in the form in which it would be written again.\<close>

lemma from_bytes_sound:
  assumes ok: "from_bytes raw = Inr p"
  shows "page_wf p" and "page_image p = raw" and "page_data p = raw" and "cached_metadata p = []"
proof -
  note f = from_bytes_Inr [OF ok]
  obtain ss where ss: "read_slots (be_val (slice raw 10 12)) (slice raw 20 (be_val (slice raw 8 10)))
      [0 ..< be_val (slice raw 12 14)] = Inr ss"
    and p: "p = \<lparr>page_id = int (be_val (slice raw 4 8)), page_flags = int (be_val (slice raw 14 16)),
      lower_offset = be_val (slice raw 8 10), upper_offset = int (be_val (slice raw 10 12)),
      slots = ss, page_data = raw, cached_metadata = []\<rparr>"
    using f(7) by blast
  define lo where "lo = be_val (slice raw 8 10)"
  define ns where "ns = be_val (slice raw 12 14)"
  have lo: "lo = 20 + ns * 4" "lo \<le> 4096" using f(4-6) by (simp_all add: lo_def ns_def)
  have area: "length (slice raw 20 lo) = 4 * ns" using f(1) lo by (simp add: length_slice_le)
  have rs: "length ss = ns" "\<forall>s \<in> set ss. slot_accepts (be_val (slice raw 10 12)) s"
    "\<forall>j < ns. slot_entry (ss ! j) = slice (slice raw 20 lo) (4 * j) (4 * j + 4)"
    using read_slots_sound [OF ss] area by (auto simp: lo_def ns_def)
  have e: "be_bytes 4 (be_val (slice raw 4 8)) = slice raw 4 8 \<and> be_val (slice raw 4 8) < 256 ^ 4"
    "be_bytes 2 (be_val (slice raw 8 10)) = slice raw 8 10 \<and> be_val (slice raw 8 10) < 256 ^ 2"
    "be_bytes 2 (be_val (slice raw 10 12)) = slice raw 10 12 \<and> be_val (slice raw 10 12) < 256 ^ 2"
    "be_bytes 2 (be_val (slice raw 12 14)) = slice raw 12 14 \<and> be_val (slice raw 12 14) < 256 ^ 2"
    "be_bytes 2 (be_val (slice raw 14 16)) = slice raw 14 16 \<and> be_val (slice raw 14 16) < 256 ^ 2"
    "be_bytes 4 (be_val (slice raw 16 20)) = slice raw 16 20 \<and> be_val (slice raw 16 20) < 256 ^ 4"
    using be_field [of raw 4 4] be_field [of raw 8 2] be_field [of raw 10 2] be_field [of raw 12 2]
      be_field [of raw 14 2] be_field [of raw 16 4] f(1) by simp_all
  have slot: "slot_in (int (be_val (slice raw 10 12))) s" if "s \<in> set ss" for s
    using rs(2) that by (cases s) (auto simp: slot_accepts_def slot_in_def split: if_splits)
  show "page_wf p"
    using f(1,5,6) e lo rs(1) slot by (auto simp: p page_wf_def lo_def [symmetric])
  have "header_bytes p = slice raw 0 4 @ slice raw 4 8 @ slice raw 8 10 @ slice raw 10 12 @
      slice raw 12 14 @ slice raw 14 16"
    using e rs(1) by (simp add: header_bytes_def p f(2) ns_def)
  also have "\<dots> = slice raw 0 16"
    using slice_split [of 0 4 16 raw] slice_split [of 4 8 16 raw] slice_split [of 8 10 16 raw]
      slice_split [of 10 12 16 raw] slice_split [of 12 14 16 raw] by simp
  finally have h: "header_bytes p = take 16 raw" by (simp add: slice_def)
  have "concat (map slot_entry ss) = slice raw 20 lo"
  proof (rule nth_equalityI)
    show "length (concat (map slot_entry ss)) = length (slice raw 20 lo)"
      using area rs(1) by (simp add: length_slot_entries)
    fix i assume "i < length (concat (map slot_entry ss))"
    then have i: "i div 4 < length ss" "4 * (i div 4) + i mod 4 = i" "i mod 4 < 4"
      by (auto simp: length_slot_entries less_mult_imp_div_less mult.commute)
    have "slice (concat (map slot_entry ss)) (4 * (i div 4)) (4 * (i div 4) + 4) ! (i mod 4) =
        slice (slice raw 20 lo) (4 * (i div 4)) (4 * (i div 4) + 4) ! (i mod 4)"
      using slice_slot_entry [OF i(1)] rs i(1) by simp
    then show "concat (map slot_entry ss) ! i = slice raw 20 lo ! i"
      using i rs(1) area by (simp add: nth_slice length_slot_entries)
  qed
  then have b: "page_body p = drop 20 raw"
    using lo drop_slice [of 20 lo raw] by (simp add: page_body_def p lo_def [symmetric])
  have "slice_assign raw 16 20 (replicate 4 0) = header_bytes p @ replicate 4 0 @ page_body p"
    by (simp add: h b slice_assign_def)
  then have "page_checksum p = be_val (slice raw 16 20)" using f(3) by (simp add: page_checksum_def)
  then have "page_image p = take 16 raw @ slice raw 16 20 @ drop 20 raw"
    using e by (simp add: page_image_def h b)
  also have "\<dots> = raw"
    by (simp add: drop_slice)
  finally show "page_image p = raw" .
  show "page_data p = raw" "cached_metadata p = []" by (simp_all add: p)
qed

lemma from_bytes_error:
  assumes "from_bytes raw = Inl e"
  shows "e = PageCorruptionError"
proof -
  have "be_val (slice raw 14 16) \<le> 65535" if "length raw = 4096"
    using be_val_bound [of "slice raw 14 16"] that by (simp add: length_slice_le)
  then show ?thesis
    using assms unfolding from_bytes_def
    by (auto simp: Let_def pager_init_def elim!: bind_result.elims dest: read_slots_error split: if_splits)
qed

lemma from_bytes_window:
  assumes ok: "from_bytes raw = Inr (p :: 'a page)" and len: "length w = k" "k \<le> 4" "a + k \<le> 4096"
    and new: "w \<noteq> slice raw a (a + k)" and place: "a + k \<le> 16 \<or> 20 \<le> a \<or> (16 \<le> a \<and> a + k \<le> 20)"
  shows "(from_bytes (slice_assign raw a (a + k) w) :: 'b page result) = Inl PageCorruptionError"
proof (cases "from_bytes (slice_assign raw a (a + k) w) :: 'b page result")
  case (Inr q)
  let ?raw = "slice_assign raw a (a + k) w"
  let ?z = "\<lambda>r. slice_assign r 16 20 (replicate 4 0)"
  have l: "length raw = 4096" and crc: "crc32 (?z raw) = be_val (slice raw 16 20)"
    and crc': "crc32 (?z ?raw) = be_val (slice ?raw 16 20)"
    using from_bytes_Inr(1,3) [OF ok] from_bytes_Inr(3) [OF Inr] by auto
  have l': "length ?raw = 4096" using l len by (simp add: length_slice_assign)
  show ?thesis
  proof (cases "16 \<le> a \<and> a + k \<le> 20")
    case True
    have nth: "?z ?raw ! i = ?z raw ! i" if "i < 4096" for i
      using True that l len l' by (auto simp: nth_slice_assign)
    have "?z ?raw = ?z raw"
      by (rule nth_equalityI) (use l l' nth in \<open>auto simp: length_slice_assign\<close>)
    then have "slice ?raw 16 20 = slice raw 16 20"
      using crc crc' l l' by (intro be_val_inj) (auto simp: length_slice_le)
    then have same: "?raw ! i = raw ! i" if "16 \<le> i" "i < 20" for i
      using that l l' nth_slice [of "i - 16" 20 16 ?raw] nth_slice [of "i - 16" 20 16 raw] by simp
    have "w = slice raw a (a + k)"
    proof (rule nth_equalityI)
      fix i assume "i < length w"
      then have "?raw ! (a + i) = w ! i" "i < k" using len l by (auto simp: nth_slice_assign)
      then show "w ! i = slice raw a (a + k) ! i"
        using same [of "a + i"] True l len by (simp add: nth_slice)
    qed (use len l in \<open>simp add: length_slice_le\<close>)
    with new show ?thesis by blast
  next
    case False
    then have out: "a + k \<le> 16 \<or> 20 \<le> a" using place by blast
    have "slice ?raw 16 20 = slice raw 16 20"
      using out len l by (intro slice_assign_other) auto
    then have same: "crc32 (?z ?raw) = crc32 (?z raw)" using crc crc' by simp
    let ?xs = "take a (?z raw)" and ?ys = "drop (a + k) (?z raw)"
    have zl: "length (?z r) = 4096" if "length r = 4096" for r :: bytes
      using that by (simp add: length_slice_assign)
    have "?z raw = ?xs @ slice raw a (a + k) @ ?ys"
    proof -
      have "slice (?z raw) a (a + k) = slice raw a (a + k)"
        using out len l by (intro slice_assign_other) auto
      then show ?thesis using drop_slice [of a "a + k" "?z raw"] by simp
    qed
    moreover have "?z ?raw = ?xs @ w @ ?ys"
    proof (rule nth_equalityI)
      show "length (?z ?raw) = length (?xs @ w @ ?ys)" using zl [OF l] zl [OF l'] len by simp
      fix i assume "i < length (?z ?raw)"
      then show "?z ?raw ! i = (?xs @ w @ ?ys) ! i"
        using out len l l' zl [OF l] by (auto simp: nth_append nth_slice_assign length_slice_assign)
    qed
    moreover have "length (slice raw a (a + k)) = length w" using len l by (simp add: length_slice_le)
    ultimately have "crc32 (?z raw) \<noteq> crc32 (?z ?raw)"
      using crc32_window [of "slice raw a (a + k)" w ?xs ?ys] len new by simp
    with same show ?thesis by simp
  qed
next
  case (Inl e)
  then show ?thesis using from_bytes_error [OF Inl] by simp
qed

subsection \<open>Refinement of a list of records\<close>

text \<open>
  The specification: records by slot id, and the free room. \<open>compact\<close> makes the room of the deleted
  records available again; everything else is the list.
\<close>

datatype page_op = Insert_Record bytes | Get_Record int | Delete_Record int | Compact | Serialise
datatype page_out = Slot nat | Record "bytes option" | Done

fun page_step :: "page_op \<Rightarrow> 'm page \<Rightarrow> ('m page, page_out) step_result" where
  "page_step (Insert_Record r) p = bind_step (insert_record r p) (\<lambda>i p'. (Inr (Slot i), p'))"
| "page_step (Get_Record i) p = (bind_result (get_record i p) (\<lambda>r. Inr (Record r)), p)"
| "page_step (Delete_Record i) p = bind_step (delete_record i p) (\<lambda>_ p'. (Inr Done, p'))"
| "page_step Compact p = (Inr Done, compact p)"
| "page_step Serialise p = bind_step (to_bytes p) (\<lambda>_ p'. (Inr Done, p'))"

fun slot_list_step :: "page_op \<Rightarrow> bytes option list \<times> int \<Rightarrow> page_out result \<times> bytes option list \<times> int" where
  "slot_list_step (Insert_Record r) (rs, room) =
     (if r = [] then (Inl ValueError, rs, room)
      else if 4 + int (length r) \<le> room
      then (Inr (Slot (length rs)), rs @ [Some r], room - 4 - int (length r))
      else (Inl PageOverflowError, rs, room))"
| "slot_list_step (Get_Record i) (rs, room) =
     (if 0 \<le> i \<and> i < int (length rs) then Inr (Record (rs ! nat i)) else Inl ValueError, rs, room)"
| "slot_list_step (Delete_Record i) (rs, room) =
     (if 0 \<le> i \<and> i < int (length rs) \<and> rs ! nat i \<noteq> None then (Inr Done, rs[nat i := None], room)
      else (Inl ValueError, rs, room))"
| "slot_list_step Compact (rs, room) =
     (Inr Done, rs, 4076 - 4 * int (length rs) - int (live_bytes rs))"
| "slot_list_step Serialise (rs, room) = (Inr Done, rs, room)"

text \<open>A history of operations, in which a raise ends only the operation that raised.\<close>

abbreviation page_history :: "page_op list \<Rightarrow> 'm page \<Rightarrow> page_out result list \<times> 'm page" where
  "page_history \<equiv> run page_step"

abbreviation slot_list_history ::
  "page_op list \<Rightarrow> bytes option list \<times> int \<Rightarrow> page_out result list \<times> bytes option list \<times> int" where
  "slot_list_history \<equiv> run slot_list_step"

lemma length_contents [simp]: "length (contents p) = length (slots p)"
  by (simp add: contents_def)

lemma contents_image:
  assumes wf: "page_wf p"
  shows "contents (p\<lparr>page_data := page_image p\<rparr>) = contents p"
proof -
  have "drop (lower_offset p) (page_image p) = drop (lower_offset p) (page_data p)"
    using wf by (simp add: page_image_def page_body_def page_wf_def length_slot_entries)
  then have "slice (page_image p) a b = slice (page_data p) a b" if "lower_offset p \<le> a" for a b
    using that unfolding slice_def by (metis drop_drop le_add_diff_inverse2)
  then have "slot_record (page_image p) s = slot_record (page_data p) s" if "s \<in> set (slots p)" for s
    using that wf by (cases s) (auto simp: page_wf_def slot_in_def)
  then show ?thesis by (simp add: contents_def)
qed

lemma page_step_refines:
  assumes inv: "page_inv p"
  shows "fst (page_step x p) = fst (slot_list_step x (contents p, free_space p)) \<and>
     (contents (snd (page_step x p)), free_space (snd (page_step x p))) =
       snd (slot_list_step x (contents p, free_space p)) \<and>
     page_inv (snd (page_step x p)) \<and> page_id (snd (page_step x p)) = page_id p"
proof -
  have wf: "page_wf p" using inv by (simp add: page_inv_def)
  show ?thesis
  proof (cases x)
    case (Insert_Record r)
    show ?thesis
    proof (cases "r = [] \<or> free_space p < 4 + int (length r)")
      case True
      with Insert_Record inv show ?thesis
        by (cases "r = []") (auto simp: insert_record_full, auto simp: insert_record_def)
    next
      case False
      then show ?thesis
        using insert_record_ok [OF wf, of r] inv Insert_Record by auto
    qed
  next
    case (Get_Record i)
    with inv show ?thesis by (auto simp: get_record_contents)
  next
    case (Delete_Record i)
    show ?thesis
    proof (cases "0 \<le> i \<and> i < int (length (slots p))")
      case True
      then obtain j where j: "i = int j" "j < length (slots p)" using nonneg_int_cases by auto
      with inv Delete_Record show ?thesis
        using delete_record_ok [OF inv j(2)] delete_record_dead [OF j(2)] by (cases "contents p ! j") auto
    next
      case False
      with inv Delete_Record show ?thesis by (auto simp: delete_record_def)
    qed
  next
    case Compact
    have "int (lower_offset p) = 20 + 4 * int (length (slots p))" using wf by (simp add: page_wf_def)
    with Compact show ?thesis
      using compact_ok [OF inv] by (simp add: free_space_def)
  next
    case Serialise
    let ?q = "p\<lparr>page_data := page_image p\<rparr>"
    have "from_bytes (page_image p) = Inr (?q\<lparr>cached_metadata := []\<rparr>)"
      using from_bytes_image [OF wf] by simp
    then have wfq: "page_wf (?q\<lparr>cached_metadata := []\<rparr>)" by (rule from_bytes_sound)
    have "contents ?q = contents p" by (rule contents_image [OF wf])
    moreover have "page_inv ?q" using inv wfq by (simp add: page_inv_def page_wf_def)
    ultimately show ?thesis using Serialise to_bytes_ok [OF wf] by (simp add: free_space_def)
  qed
qed

interpretation page_machine: simulation page_step slot_list_step
  "\<lambda>_ v p. page_inv p \<and> v = (contents p, free_space p)" "\<lambda>_. True" "\<lambda>_ _. 0" 1
proof
  fix n v x and p :: "'m page"
  assume "page_inv p \<and> v = (contents p, free_space p)"
  then show "\<exists>p'. page_step x p = (fst (slot_list_step x v), p') \<and> page_inv p' \<and>
      snd (slot_list_step x v) = (contents p', free_space p')"
    using page_step_refines [of p x] by (cases "page_step x p") auto
qed

lemma page_history_refines:
  "page_inv p \<Longrightarrow> fst (page_history xs p) = fst (slot_list_history xs (contents p, free_space p)) \<and>
   (contents (snd (page_history xs p)), free_space (snd (page_history xs p))) =
     snd (slot_list_history xs (contents p, free_space p)) \<and> page_inv (snd (page_history xs p))"
  using page_machine.history_simulates [of p "(contents p, free_space p)" xs 0] by (simp add: run_cost_constant)

text \<open>
  The interface the table file relies on: pages are encoded into blocks of one size, decoding gives
  the page back, up to what is not stored.
\<close>

locale block_codec =
  fixes encode :: "'p \<Rightarrow> bytes" and decode :: "bytes \<Rightarrow> 'p result" and ok :: "'p \<Rightarrow> bool"
    and norm :: "'p \<Rightarrow> 'p" and block :: nat
  assumes block_pos: "0 < block"
    and encode_length: "ok x \<Longrightarrow> length (encode x) = block"
    and decode_encode: "ok x \<Longrightarrow> decode (encode x) = Inr (norm x)"
    and decode_ok: "decode b = Inr x \<Longrightarrow> ok x \<and> encode x = b \<and> norm x = x"
begin

text \<open>The blocks of a file that holds the encodings of a list of items.\<close>

definition image :: "'p list \<Rightarrow> bytes" where
  "image xs = concat (map encode xs)"

lemma length_image: "\<forall>x \<in> set xs. ok x \<Longrightarrow> length (image xs) = length xs * block"
  by (induction xs) (auto simp: image_def encode_length)

lemma image_block:
  "\<forall>x \<in> set xs. ok x \<Longrightarrow> i < length xs \<Longrightarrow> slice (image xs) (i * block) (i * block + block) = encode (xs ! i)"
proof (induction xs arbitrary: i)
  case (Cons x xs)
  have l: "length (encode x) = block" using Cons.prems(1) by (simp add: encode_length)
  show ?case
  proof (cases i)
    case 0
    then show ?thesis using l by (simp add: image_def slice_def)
  next
    case (Suc j)
    then show ?thesis using Cons l by (simp add: image_def slice_append_right add.commute)
  qed
qed simp

lemma decode_block:
  "\<forall>x \<in> set xs. ok x \<Longrightarrow> i < length xs \<Longrightarrow>
   decode (slice (image xs) (i * block) (i * block + block)) = Inr (norm (xs ! i))"
  by (simp add: image_block decode_encode)

lemma encode_norm: "ok x \<Longrightarrow> encode (norm x) = encode x \<and> ok (norm x) \<and> norm (norm x) = norm x"
  using decode_encode decode_ok by blast

lemma image_norm: "\<forall>x \<in> set xs. ok x \<Longrightarrow> image (map norm xs) = image xs"
  by (induction xs) (auto simp: image_def encode_norm)

lemma image_inject:
  assumes "\<forall>x \<in> set xs. ok x" and "\<forall>y \<in> set ys. ok y" and "image xs = image ys"
  shows "map norm xs = map norm ys"
proof -
  have l: "length xs = length ys"
    using length_image [OF assms(1)] length_image [OF assms(2)] assms(3) block_pos by simp
  show ?thesis
  proof (rule nth_equalityI)
    fix i assume "i < length (map norm xs)"
    then have i: "i < length xs" "i < length ys" using l by simp_all
    then have "Inr (norm (xs ! i)) = (Inr (norm (ys ! i)) :: 'p result)"
      using decode_block [OF assms(1), of i] decode_block [OF assms(2), of i] assms(3) by simp
    with i show "map norm xs ! i = map norm ys ! i" by simp
  qed (simp add: l)
qed

end

definition stored :: "'m page \<Rightarrow> 'm page" where
  "stored p = p\<lparr>page_data := page_image p, cached_metadata := []\<rparr>"

lemma contents_stored: "page_wf p \<Longrightarrow> contents (stored p) = contents p"
  using contents_image [of p] by (simp add: contents_def stored_def)

lemma free_space_stored [simp]: "free_space (stored p) = free_space p"
  by (simp add: stored_def free_space_def)

lemma page_wf_stored [simp]: "page_wf p \<Longrightarrow> page_wf (stored p)"
  by (simp add: page_wf_def stored_def length_page_image [unfolded page_wf_def])

lemma page_id_stored [simp]: "page_id (stored p) = page_id p"
  by (simp add: stored_def)

interpretation pg: block_codec page_image from_bytes page_wf stored 4096
proof
  fix b and x :: "'a page"
  assume "from_bytes b = Inr x"
  from from_bytes_sound [OF this] show "page_wf x \<and> page_image x = b \<and> stored x = x"
    by (cases x) (simp add: stored_def)
qed (simp_all add: length_page_image from_bytes_image stored_def)

subsection \<open>Properties\<close>

text \<open>C12: Every history of inserts, reads, deletes, compactions and serialisations of a fresh page
  answers as the plain list of records with a room counter does: same slot ids, same records (a
  deleted slot stays deleted, every other id keeps its record through compaction), the same
  \<open>ValueError\<close> and \<open>PageOverflowError\<close>, and the page invariant (no overlapping slots) holds at the end.\<close>

theorem page_refines_record_list:
  assumes "0 \<le> pid" and "pid < 2 ^ 32" and "0 \<le> fl" and "fl < 2 ^ 16"
  shows "\<exists>p. pager_init pid fl = Inr p \<and>
    fst (page_history xs p) = fst (slot_list_history xs ([], 4076)) \<and>
    (contents (snd (page_history xs p)), free_space (snd (page_history xs p))) =
       snd (slot_list_history xs ([], 4076)) \<and> page_inv (snd (page_history xs p))"
proof -
  obtain p :: "'a page" where p: "pager_init pid fl = Inr p" "contents p = []" "free_space p = 4076" "page_inv p"
    using pager_init_ok [OF assms(1,3,4)] assms(2) by blast
  with page_history_refines [OF p(4), of xs] show ?thesis by auto
qed

theorem page_refines_record_list_witness:
  "\<exists>p. pager_init 3 0 = Inr p \<and>
    fst (page_history [Insert_Record [1, 2], Insert_Record [3], Delete_Record 0, Compact, Get_Record 1, Get_Record 0] p) =
      [Inr (Slot 0), Inr (Slot 1), Inr Done, Inr Done, Inr (Record (Some [3])), Inr (Record None)]"
proof -
  have "fst (slot_list_history [Insert_Record [1, 2], Insert_Record [3], Delete_Record 0, Compact, Get_Record 1, Get_Record 0] ([], 4076))
      = [Inr (Slot 0), Inr (Slot 1), Inr Done, Inr Done, Inr (Record (Some [3])), Inr (Record None)]"
    by simp
  then show ?thesis
    using page_refines_record_list [of 3 0 "[Insert_Record [1, 2], Insert_Record [3], Delete_Record 0, Compact, Get_Record 1, Get_Record 0]"]
    by auto
qed

text \<open>C13: A well-formed page serialises without raising into 4096 bytes, and \<open>from_bytes\<close> reads back
  the same page (ids, flags, offsets, slots, every record; only the metadata cache is empty).\<close>

theorem page_bytes_roundtrip:
  assumes "page_inv p"
  shows "\<exists>raw p'. to_bytes p = (Inr raw, p') \<and> length raw = 4096 \<and> contents p' = contents p \<and>
     from_bytes raw = Inr (p'\<lparr>cached_metadata := []\<rparr>) \<and> slots p' = slots p \<and>
     page_id p' = page_id p \<and> page_flags p' = page_flags p \<and> upper_offset p' = upper_offset p"
proof -
  have wf: "page_wf p" using assms by (simp add: page_inv_def)
  show ?thesis
    using contents_image [OF wf] to_bytes_ok [OF wf] from_bytes_image [OF wf] length_page_image [OF wf] by simp
qed

theorem page_bytes_roundtrip_witness:
  "\<exists>p raw p'. insert_record [7, 8, 9] (p :: nat page) = (Inr 0, p') \<and> (\<exists>p''. to_bytes p' = (Inr raw, p'') \<and>
     from_bytes raw = Inr (p''\<lparr>cached_metadata := []\<rparr>) \<and> contents p'' = [Some [7, 8, 9]])"
proof -
  obtain p :: "nat page" where p: "page_inv p" "slots p = []" "contents p = []" "free_space p = 4076"
    using pager_init_ok [of 0 0] by auto
  have wf: "page_wf p" using p(1) by (simp add: page_inv_def)
  have "\<exists>p'. insert_record [7, 8, 9] p = (Inr 0, p') \<and> page_inv p' \<and> contents p' = [Some [7, 8, 9]]"
    using insert_record_ok [OF wf, of "[7, 8, 9]"] p by auto
  then show ?thesis using page_bytes_roundtrip by metis
qed

text \<open>C14: \<open>from_bytes\<close> accepts only what the page it returns would be written as: every check it makes
  is sound, the returned page is well formed, and serialising it again gives the same 4096 bytes.\<close>

theorem accepted_page_is_canonical:
  assumes "from_bytes raw = Inr p"
  shows "page_wf p \<and> to_bytes p = (Inr raw, p)"
proof -
  note f = from_bytes_sound [OF assms]
  then have "p\<lparr>page_data := raw\<rparr> = p" by (cases p) simp
  with to_bytes_ok [OF f(1)] f show ?thesis by simp
qed

theorem accepted_page_is_canonical_witness:
  "\<exists>raw p. from_bytes raw = Inr (p :: nat page) \<and> to_bytes p = (Inr raw, p)"
proof -
  obtain q :: "nat page" where "page_inv q" using pager_init_ok [of 0 0] by auto
  then have "from_bytes (page_image q) = Inr (stored q)"
    by (simp add: pg.decode_encode page_inv_def)
  from this accepted_page_is_canonical [OF this] show ?thesis by blast
qed



end
