(* ===== verification/Table_Handler.thy ===== *)
theory Table_Handler
  imports Pager
begin

text \<open>
  \<open>storage/table_handler.py\<close>: one table as a file of 4096-byte pages with a cache of page objects.
  The state holds the file (contents as later reads and a reopen see them), whether the handle is
  open, and the page cache. \<open>read_page\<close> returns the object in the cache, so a caller that changes
  the page changes the cache entry: \<open>page_changed\<close> is that effect. The specification is the list
  of the pages' record lists; \<open>handler_inv\<close> says that the file and the cache agree.
\<close>

subsection \<open>The handler's state and operations\<close>

record 'm handler =
  table_name :: pystr
  tbl_file :: pyfile
  is_open :: bool
  page_cache :: "(int, 'm page) dict"

text \<open>
  \<open>create_table\<close>: the file found on disk, if any, and whether creating the directory and touching
  the file succeed, come from the operating system and are arguments.
\<close>

definition create_table :: "bool \<Rightarrow> bool \<Rightarrow> pyfile option \<Rightarrow> pyfile result" where
  "create_table mkdir_ok touch_ok disk =
     (if \<not> mkdir_ok then Inl TableHandlerError
      else case disk of
             Some f \<Rightarrow> Inr f
           | None \<Rightarrow> if touch_ok then Inr empty_file else Inl TableHandlerError)"

definition handler_init :: "bool \<Rightarrow> bool \<Rightarrow> bool \<Rightarrow> pystr \<Rightarrow> pyfile option \<Rightarrow> 'm handler result" where
  "handler_init mkdir_ok touch_ok open_ok name disk =
     (if name = [] then Inl ValueError
      else bind_result (create_table mkdir_ok touch_ok disk) (\<lambda>f.
             if open_ok then Inr \<lparr>table_name = name, tbl_file = f, is_open = True, page_cache = []\<rparr>
             else Inl TableHandlerError))"

definition require_open :: "'m handler \<Rightarrow> unit result" where
  "require_open h = (if is_open h then Inr () else Inl TableHandlerError)"

definition page_count :: "'m handler \<Rightarrow> nat" where
  "page_count h = fsize (tbl_file h) div 4096"

definition total_pages :: "'m handler \<Rightarrow> nat result" where
  "total_pages h = bind_result (require_open h) (\<lambda>_. Inr (page_count h))"

definition page_changed :: "int \<Rightarrow> 'm page \<Rightarrow> 'm handler \<Rightarrow> 'm handler" where
  "page_changed pid p h = h\<lparr>page_cache := dset (page_cache h) pid p\<rparr>"

text \<open>\<open>to_bytes\<close> changes the page object, which \<open>allocate_page\<close> and \<open>write_page\<close> have just cached.\<close>

definition write_image :: "'m page \<Rightarrow> int \<Rightarrow> 'm handler \<Rightarrow> ('m handler, unit) step_result" where
  "write_image p pid h =
     (let h1 = page_changed pid p h
      in case to_bytes p of
           (Inl e, p') \<Rightarrow> (Inl e, page_changed pid p' h1)
         | (Inr raw, p') \<Rightarrow>
             (Inr (), (page_changed pid p' h1)\<lparr>tbl_file := fwrite (tbl_file h1) (nat pid * 4096) raw\<rparr>))"

definition allocate_page :: "'m handler \<Rightarrow> ('m handler, nat) step_result" where
  "allocate_page h =
     (case total_pages h of
        Inl e \<Rightarrow> (Inl e, h)
      | Inr n \<Rightarrow>
          (case pager_init (int n) 0 of
             Inl e \<Rightarrow> (Inl e, h)
           | Inr p \<Rightarrow> bind_step (write_image p (int n) h) (\<lambda>_ h'. (Inr n, h'))))"

definition read_page :: "int \<Rightarrow> 'm handler \<Rightarrow> ('m handler, 'm page) step_result" where
  "read_page pid h =
     (if \<not> is_open h then (Inl TableHandlerError, h)
      else if pid < 0 then (Inl ValueError, h)
      else case dget (page_cache h) pid of
        Some p \<Rightarrow> (Inr p, h)
      | None \<Rightarrow>
          if int (page_count h) \<le> pid then (Inl TableHandlerError, h)
          else let raw = fread (tbl_file h) (nat pid * 4096) 4096
               in if length raw \<noteq> 4096 then (Inl TableHandlerError, h)
                  else case from_bytes raw of
                    Inl e \<Rightarrow> (Inl (if is_page_error e then TableHandlerError else e), h)
                  | Inr p \<Rightarrow> (Inr p, page_changed pid p h))"

definition write_page :: "'m page \<Rightarrow> 'm handler \<Rightarrow> ('m handler, unit) step_result" where
  "write_page p h =
     (if \<not> is_open h then (Inl TableHandlerError, h)
      else if int (page_count h) \<le> page_id p then (Inl TableHandlerError, h)
      else write_image p (page_id p) h)"

definition close_table :: "'m handler \<Rightarrow> 'm handler" where
  "close_table h = h\<lparr>page_cache := [], is_open := False\<rparr>"

definition sync_table :: "'m handler \<Rightarrow> unit result" where
  "sync_table h = require_open h"

subsection \<open>Invariant and abstraction\<close>

definition block_at :: "'m handler \<Rightarrow> nat \<Rightarrow> bytes" where
  "block_at h i = fread (tbl_file h) (i * 4096) 4096"

definition file_ok :: "'m handler \<Rightarrow> bool" where
  "file_ok h \<longleftrightarrow> (\<forall>i < page_count h. \<exists>p :: 'm page. from_bytes (block_at h i) = Inr p \<and> page_id p = int i)"

text \<open>Every cached page is the one in the file, up to the metadata cache.\<close>

definition cache_ok :: "'m handler \<Rightarrow> bool" where
  "cache_ok h \<longleftrightarrow> (\<forall>pid p. dget (page_cache h) pid = Some p \<longrightarrow>
     0 \<le> pid \<and> pid < int (page_count h) \<and> page_wf p \<and> page_id p = pid \<and>
     page_image p = block_at h (nat pid))"

definition handler_inv :: "'m handler \<Rightarrow> bool" where
  "handler_inv h \<longleftrightarrow> is_open h \<and> dict_ok (page_cache h) \<and> file_ok h \<and> cache_ok h"

text \<open>What a block contributes: the records by slot id and the room left.\<close>

definition block_view :: "bytes \<Rightarrow> bytes option list \<times> int" where
  "block_view b =
     (case from_bytes b of Inl _ \<Rightarrow> ([], 0) | Inr p \<Rightarrow> (contents (p :: unit page), free_space p))"

definition table_view :: "'m handler \<Rightarrow> (bytes option list \<times> int) list" where
  "table_view h = map (\<lambda>i. block_view (block_at h i)) [0 ..< page_count h]"

text \<open>\<open>block_view\<close> does not depend on the type of the metadata.\<close>

definition erase :: "'m page \<Rightarrow> unit page" where
  "erase p = \<lparr>page_id = page_id p, page_flags = page_flags p, lower_offset = lower_offset p,
     upper_offset = upper_offset p, slots = slots p, page_data = page_data p, cached_metadata = []\<rparr>"

lemma from_bytes_erase:
  assumes "from_bytes b = Inr (p :: 'm page)"
  shows "from_bytes b = Inr (erase p)"
proof -
  note f = from_bytes_sound [OF assms]
  have wf: "page_wf (erase p)" using f(1) by (simp add: page_wf_def erase_def)
  have "page_image (erase p) = b"
    using f(2) by (simp add: page_image_def header_bytes_def page_body_def page_checksum_def erase_def)
  moreover have "(erase p)\<lparr>page_data := b, cached_metadata := []\<rparr> = erase p"
    using f(3) by (simp add: erase_def)
  ultimately show ?thesis using from_bytes_image [OF wf] by simp
qed

lemma block_view_eq: "from_bytes b = Inr p \<Longrightarrow> block_view b = (contents p, free_space p)"
  by (simp add: block_view_def from_bytes_erase) (simp add: contents_def erase_def free_space_def)

lemma block_view_image: "page_wf p \<Longrightarrow> block_view (page_image p) = (contents p, free_space p)"
  using block_view_eq [OF pg.decode_encode, of p] by (simp add: contents_stored)

lemma length_table_view [simp]: "length (table_view h) = page_count h"
  by (simp add: table_view_def)

lemma nth_table_view: "i < page_count h \<Longrightarrow> table_view h ! i = block_view (block_at h i)"
  by (simp add: table_view_def)

lemma page_changed_simps [simp]:
  "tbl_file (page_changed i p h) = tbl_file h" "is_open (page_changed i p h) = is_open h"
  "page_count (page_changed i p h) = page_count h" "block_at (page_changed i p h) = block_at h"
  "file_ok (page_changed i p h) = file_ok h" "table_view (page_changed i p h) = table_view h"
  "page_cache (page_changed i p h) = dset (page_cache h) i p"
  by (simp_all add: page_changed_def page_count_def block_at_def fun_eq_iff file_ok_def table_view_def)

subsection \<open>Reading\<close>

lemma block_length: "i < page_count h \<Longrightarrow> length (block_at h i) = 4096"
  by (simp add: block_at_def length_fread_in page_count_def less_mult_imp_div_less
      div_le_dividend Suc_le_eq [symmetric] le_div_geq)

lemma file_page:
  assumes "file_ok (h :: 'm handler)" and "i < page_count h"
  obtains p :: "'m page" where "from_bytes (block_at h i) = Inr p" "page_id p = int i" "page_wf p"
    "page_image p = block_at h i"
  using assms from_bytes_sound unfolding file_ok_def by blast

lemma cached_page:
  assumes "handler_inv h" and "dget (page_cache h) (int i) = Some p"
  shows "i < page_count h" and "page_wf p" and "page_id p = int i" and "page_image p = block_at h i"
  using assms by (fastforce simp: handler_inv_def cache_ok_def)+

lemma read_page_ok:
  assumes inv: "handler_inv (h :: 'm handler)" and i: "i < page_count h"
  shows "\<exists>p h'. read_page (int i) h = (Inr p, h') \<and> page_wf p \<and> page_id p = int i \<and>
     page_image p = block_at h i \<and> (contents p, free_space p) = table_view h ! i \<and>
     handler_inv h' \<and> tbl_file h' = tbl_file h \<and> dget (page_cache h') (int i) = Some p \<and>
     (\<forall>j. j \<noteq> int i \<longrightarrow> dget (page_cache h') j = dget (page_cache h) j)"
proof (cases "dget (page_cache h) (int i)")
  case (Some p)
  note c = cached_page [OF inv Some]
  have "(contents p, free_space p) = table_view h ! i"
    using block_view_image [OF c(2)] c(4) i by (simp add: nth_table_view)
  with Some inv c show ?thesis
    by (auto simp: read_page_def handler_inv_def)
next
  case None
  have fo: "file_ok h" using inv by (simp add: handler_inv_def)
  obtain p :: "'m page" where p: "from_bytes (block_at h i) = Inr p" "page_id p = int i" "page_wf p"
    "page_image p = block_at h i" using file_page [OF fo i] by blast
  have l: "length (fread (tbl_file h) (i * 4096) 4096) = 4096"
    using block_length [OF i] by (simp add: block_at_def)
  have rd: "read_page (int i) h = (Inr p, page_changed (int i) p h)"
    using None inv i l p(1) by (simp add: read_page_def handler_inv_def Let_def block_at_def)
  have "(contents p, free_space p) = table_view h ! i"
    using block_view_eq [OF p(1)] i by (simp add: nth_table_view)
  moreover have "handler_inv (page_changed (int i) p h)"
    using inv i p by (auto simp: handler_inv_def cache_ok_def)
  ultimately show ?thesis using rd p by auto
qed

lemma read_page_negative: "is_open h \<Longrightarrow> pid < 0 \<Longrightarrow> read_page pid h = (Inl ValueError, h)"
  by (simp add: read_page_def)

lemma read_page_beyond:
  assumes inv: "handler_inv h" and pid: "int (page_count h) \<le> pid"
  shows "read_page pid h = (Inl TableHandlerError, h)"
proof -
  have "dget (page_cache h) pid = None"
    using inv pid by (cases "dget (page_cache h) pid") (fastforce simp: handler_inv_def cache_ok_def)+
  with inv pid show ?thesis by (auto simp: read_page_def handler_inv_def)
qed

subsection \<open>Writing and allocating\<close>

lemma block_at_write:
  assumes "length raw = 4096" and "j < page_count h \<or> j = i"
    and "h' = h\<lparr>tbl_file := fwrite (tbl_file h) (i * 4096) raw, page_cache := c\<rparr>"
  shows "block_at h' j = (if j = i then raw else block_at h j)"
proof (cases "j = i")
  case True
  then show ?thesis
    using fread_fwrite_same [of "tbl_file h" "i * 4096" raw] assms by (simp add: block_at_def)
next
  case False
  then have "j < i \<or> i < j" by auto
  then have "j * 4096 + 4096 \<le> i * 4096 \<or> i * 4096 + 4096 \<le> j * 4096" by auto
  moreover have "j * 4096 + 4096 \<le> fsize (tbl_file h)"
    using assms(2) False by (simp add: page_count_def) 
  ultimately show ?thesis
    using fread_fwrite_other [of "j * 4096" 4096 "i * 4096" raw "tbl_file h"] assms False
    by (simp add: block_at_def)
qed

lemma page_count_write:
  assumes "length raw = 4096" and "i \<le> page_count h"
    and "h' = h\<lparr>tbl_file := fwrite (tbl_file h) (i * 4096) raw, page_cache := c\<rparr>"
  shows "page_count h' = max (page_count h) (Suc i)"
proof -
  have ne: "raw \<noteq> []" using assms(1) by auto
  show ?thesis
  proof (cases "i < page_count h")
    case True
    then have "i * 4096 + 4096 \<le> fsize (tbl_file h)" by (simp add: page_count_def)
    with True ne assms show ?thesis by (simp add: page_count_def fsize_fwrite max_def)
  next
    case False
    then have i: "i = page_count h" using assms(2) by simp
    then have "fsize (tbl_file h) < i * 4096 + 4096" by (simp add: page_count_def)
    with i ne assms show ?thesis by (simp add: page_count_def fsize_fwrite max_def)
  qed
qed

lemma nth_replaced:
  assumes "i \<le> length xs" and "j \<noteq> i" and "j < length xs"
  shows "(take i xs @ [x] @ drop (Suc i) xs) ! j = xs ! j"
proof (cases "j < i")
  case False
  then obtain k where "j = Suc (i + k)" using assms(2) less_imp_Suc_add [of i j] by auto
  with assms show ?thesis by (simp add: nth_append min_def)
qed (use assms in \<open>simp add: nth_append\<close>)

text \<open>
  Writing page \<open>i\<close> (an existing one or the next one), also when the cache entry of that page
  already carries changes that the file does not have: those of the written page replace them.
\<close>

lemma write_image_ok:
  assumes inv: "handler_inv (h :: 'm handler)" and wf: "page_wf p" and pid: "page_id p = int i"
    and i: "i \<le> page_count h" and h2: "h2 = h \<or> h2 = page_changed (int i) q h"
  shows "\<exists>h'. write_image p (int i) h2 = (Inr (), h') \<and> handler_inv h' \<and>
     page_count h' = max (page_count h) (Suc i) \<and>
     table_view h' = (take i (table_view h) @ [(contents p, free_space p)] @ drop (Suc i) (table_view h)) \<and>
     dget (page_cache h') (int i) = Some (p\<lparr>page_data := page_image p\<rparr>)"
proof -
  let ?p = "p\<lparr>page_data := page_image p\<rparr>"
  let ?c = "dset (dset (page_cache h2) (int i) p) (int i) ?p"
  let ?h = "h\<lparr>tbl_file := fwrite (tbl_file h) (i * 4096) (page_image p), page_cache := ?c\<rparr>"
  have l: "length (page_image p) = 4096" by (rule length_page_image [OF wf])
  have w: "write_image p (int i) h2 = (Inr (), ?h)"
    using h2 to_bytes_ok [OF wf] by (auto simp: write_image_def Let_def page_changed_def)
  note b = block_at_write [OF l _ refl, of _ h i ?c] and n = page_count_write [OF l i refl, of ?c]
  have bi: "block_at ?h i = page_image p" by (simp add: b)
  have bj: "block_at ?h j = block_at h j" if "j \<noteq> i" "j < page_count ?h" for j
    using b [of j] that n i by (auto simp: max_def split: if_splits)
  have "file_ok ?h"
    unfolding file_ok_def
  proof (intro allI impI)
    fix j assume j: "j < page_count ?h"
    show "\<exists>p :: 'm page. from_bytes (block_at ?h j) = Inr p \<and> page_id p = int j"
    proof (cases "j = i")
      case True
      then show ?thesis using bi pg.decode_encode [OF wf] pid by simp
    next
      case False
      then have "j < page_count h" using j n i by (auto simp: max_def split: if_splits)
      then show ?thesis using inv bj [OF False j] by (simp add: handler_inv_def file_ok_def)
    qed
  qed
  moreover have "cache_ok ?h"
    unfolding cache_ok_def
  proof (intro allI impI)
    fix j q assume q: "dget (page_cache ?h) j = Some q"
    show "0 \<le> j \<and> j < int (page_count ?h) \<and> page_wf q \<and> page_id q = j \<and> page_image q = block_at ?h (nat j)"
    proof (cases "j = int i")
      case True
      with q have "q = ?p" by simp
      moreover have "page_wf ?p" using wf l by (simp add: page_wf_def)
      moreover have "page_image ?p = page_image p"
        using pg.encode_norm [OF wf] by (simp add: stored_def page_image_def page_checksum_def header_bytes_def page_body_def)
      ultimately show ?thesis using True n pid bi by simp
    next
      case False
      with q h2 have "dget (page_cache h) j = Some q" by (auto split: if_splits)
      with inv have o: "0 \<le> j" "j < int (page_count h)" "page_wf q" "page_id q = j"
          "page_image q = block_at h (nat j)"
        by (auto simp: handler_inv_def cache_ok_def)
      moreover have "nat j \<noteq> i" "nat j < page_count ?h" using False o n by auto
      ultimately show ?thesis using bj [of "nat j"] n by simp
    qed
  qed
  moreover have "dict_ok ?c" using inv h2 by (auto simp: handler_inv_def)
  ultimately have "handler_inv ?h" using inv by (simp add: handler_inv_def)
  moreover have "table_view ?h = take i (table_view h) @ [(contents p, free_space p)] @ drop (Suc i) (table_view h)"
  proof (rule nth_equalityI)
    show len: "length (table_view ?h) =
        length (take i (table_view h) @ [(contents p, free_space p)] @ drop (Suc i) (table_view h))"
      using n i by simp
    fix j assume "j < length (table_view ?h)"
    then have j: "j < page_count ?h" by simp
    show "table_view ?h ! j =
        (take i (table_view h) @ [(contents p, free_space p)] @ drop (Suc i) (table_view h)) ! j"
    proof (cases "j = i")
      case True
      then show ?thesis using j i bi block_view_image [OF wf] by (simp add: nth_table_view nth_append min_def)
    next
      case False
      then have jh: "j < page_count h" using j n i by (auto simp: max_def split: if_splits)
      have "(take i (table_view h) @ [(contents p, free_space p)] @ drop (Suc i) (table_view h)) ! j =
          table_view h ! j"
        by (rule nth_replaced) (use False jh i in auto)
      then show ?thesis using False j jh bj by (simp add: nth_table_view)
    qed
  qed
  ultimately show ?thesis using w n by simp
qed

lemma write_page_ok:
  assumes inv: "handler_inv h" and wf: "page_wf p" and pid: "page_id p = int i"
    and i: "i < page_count h" and h2: "h2 = h \<or> h2 = page_changed (int i) q h"
  shows "\<exists>h'. write_page p h2 = (Inr (), h') \<and> handler_inv h' \<and> page_count h' = page_count h \<and>
     table_view h' = (table_view h)[i := (contents p, free_space p)] \<and>
     dget (page_cache h') (int i) = Some (p\<lparr>page_data := page_image p\<rparr>)"
proof -
  have "is_open h2" "page_count h2 = page_count h" using inv h2 by (auto simp: handler_inv_def)
  then have "write_page p h2 = write_image p (int i) h2"
    using pid i by (simp add: write_page_def)
  moreover have "max (page_count h) (Suc i) = page_count h" using i by simp
  ultimately show ?thesis
    using write_image_ok [OF inv wf pid _ h2] i by (simp add: upd_conv_take_nth_drop)
qed

lemma allocate_page_ok:
  assumes inv: "handler_inv (h :: 'm handler)" and n: "page_count h < 2 ^ 32"
  shows "\<exists>h' p. allocate_page h = (Inr (page_count h), h') \<and> handler_inv h' \<and>
     page_count h' = Suc (page_count h) \<and> table_view h' = table_view h @ [([], 4076)] \<and>
     dget (page_cache h') (int (page_count h)) = Some p \<and> slots p = []"
proof -
  obtain p :: "'m page" where p: "pager_init (int (page_count h)) 0 = Inr p" "page_id p = int (page_count h)"
    "contents p = []" "free_space p = 4076" "page_inv p" "slots p = []"
    using pager_init_ok [of "int (page_count h)" 0] n by auto
  then have wf: "page_wf p" by (simp add: page_inv_def)
  have "total_pages h = Inr (page_count h)"
    using inv by (simp add: total_pages_def require_open_def handler_inv_def)
  then show ?thesis
    using write_image_ok [OF inv wf p(2) order.refl, of h] p by (auto simp: allocate_page_def)
qed

subsection \<open>Histories of a table file\<close>

text \<open>
  A single-record transaction as the flush makes it (read the page, insert, write the page), the
  other operations, and closing the handler and opening the file again.
\<close>

datatype table_op = Allocate | Read int | Append int bytes | Reopen
datatype table_out = Page_Id nat | Page_Records "bytes option list" | Slot_Id nat | Reopened

definition append_record :: "int \<Rightarrow> bytes \<Rightarrow> 'm handler \<Rightarrow> ('m handler, nat) step_result" where
  "append_record pid r h =
     bind_step (read_page pid h) (\<lambda>p h1.
       case insert_record r p of
         (Inl e, _) \<Rightarrow> (Inl e, h1)
       | (Inr sid, p') \<Rightarrow>
           bind_step (write_page p' (page_changed pid p' h1)) (\<lambda>_ h2. (Inr sid, h2)))"

definition reopen :: "'m handler \<Rightarrow> ('m handler, unit) step_result" where
  "reopen h =
     (let h1 = close_table h
      in case handler_init True True True (table_name h1) (Some (tbl_file h1)) of
           Inl e \<Rightarrow> (Inl e, h1)
         | Inr h2 \<Rightarrow> (Inr (), h2))"

fun table_step :: "table_op \<Rightarrow> 'm handler \<Rightarrow> ('m handler, table_out) step_result" where
  "table_step Allocate h = bind_step (allocate_page h) (\<lambda>i h'. (Inr (Page_Id i), h'))"
| "table_step (Read i) h = bind_step (read_page i h) (\<lambda>p h'. (Inr (Page_Records (contents p)), h'))"
| "table_step (Append i r) h = bind_step (append_record i r h) (\<lambda>s h'. (Inr (Slot_Id s), h'))"
| "table_step Reopen h = bind_step (reopen h) (\<lambda>_ h'. (Inr Reopened, h'))"

type_synonym table_spec = "(bytes option list \<times> int) list"

fun table_spec_step :: "table_op \<Rightarrow> table_spec \<Rightarrow> table_out result \<times> table_spec" where
  "table_spec_step Allocate t = (Inr (Page_Id (length t)), t @ [([], 4076)])"
| "table_spec_step (Read i) t =
     (if i < 0 then Inl ValueError else if int (length t) \<le> i then Inl TableHandlerError
      else Inr (Page_Records (fst (t ! nat i))), t)"
| "table_spec_step (Append i r) t =
     (if i < 0 then (Inl ValueError, t) else if int (length t) \<le> i then (Inl TableHandlerError, t)
      else if r = [] then (Inl ValueError, t)
      else let (rs, room) = t ! nat i
           in if 4 + int (length r) \<le> room
              then (Inr (Slot_Id (length rs)), t[nat i := (rs @ [Some r], room - 4 - int (length r))])
              else (Inl PageOverflowError, t))"
| "table_spec_step Reopen t = (Inr Reopened, t)"

abbreviation table_history :: "table_op list \<Rightarrow> 'm handler \<Rightarrow> table_out result list \<times> 'm handler" where
  "table_history \<equiv> run table_step"

abbreviation table_spec_history :: "table_op list \<Rightarrow> table_spec \<Rightarrow> table_out result list \<times> table_spec" where
  "table_spec_history \<equiv> run table_spec_step"

lemma table_name_kept:
  "read_page i h = (r, h') \<Longrightarrow> table_name h' = table_name h"
  "write_image p i h = (w, h') \<Longrightarrow> table_name h' = table_name h"
  "write_page p h = (w, h') \<Longrightarrow> table_name h' = table_name h"
  by (auto simp: read_page_def write_page_def write_image_def page_changed_def Let_def
      split: if_splits option.splits sum.splits prod.splits)

lemma append_record_ok:
  assumes inv: "handler_inv (h :: 'm handler)" and i: "i < page_count h" and r: "r \<noteq> []"
    and room: "4 + int (length r) \<le> snd (table_view h ! i)"
  shows "\<exists>h'. append_record (int i) r h = (Inr (length (fst (table_view h ! i))), h') \<and> handler_inv h' \<and>
     table_name h' = table_name h \<and>
     table_view h' = (table_view h)[i := (fst (table_view h ! i) @ [Some r],
                                          snd (table_view h ! i) - 4 - int (length r))]"
proof -
  obtain p :: "'m page" and h1 where p: "read_page (int i) h = (Inr p, h1)" "page_wf p" "page_id p = int i"
    "(contents p, free_space p) = table_view h ! i" "handler_inv h1" "tbl_file h1 = tbl_file h"
    using read_page_ok [OF inv i] by blast
  have same: "page_count h1 = page_count h" "table_view h1 = table_view h"
    using p(6) by (simp_all add: page_count_def table_view_def block_at_def)
  have view: "fst (table_view h ! i) = contents p" "snd (table_view h ! i) = free_space p"
    using p(4) by (metis fst_conv snd_conv)+
  obtain p' where p': "insert_record r p = (Inr (length (slots p)), p')" "page_wf p'"
    "contents p' = contents p @ [Some r]" "free_space p' = free_space p - 4 - int (length r)"
    "page_id p' = page_id p"
    using insert_record_ok [OF p(2) r] room view by auto
  obtain h' where h': "write_page p' (page_changed (int i) p' h1) = (Inr (), h')" "handler_inv h'"
    "table_view h' = (table_view h1)[i := (contents p', free_space p')]"
    using write_page_ok [OF p(5) p'(2), of i "page_changed (int i) p' h1" p'] p'(5) p(3) i same by auto
  have "table_name h1 = table_name h" "table_name h' = table_name h1"
    using table_name_kept(1) [OF p(1)] table_name_kept(3) [OF h'(1)] by (simp_all add: page_changed_def)
  then show ?thesis
    using p(1) p' h' same view by (simp add: append_record_def)
qed

lemma reopen_ok:
  assumes inv: "handler_inv (h :: 'm handler)" and name: "table_name h \<noteq> []"
  shows "\<exists>h'. reopen h = (Inr (), h') \<and> handler_inv h' \<and> table_name h' = table_name h \<and>
     table_view h' = table_view h \<and> tbl_file h' = tbl_file h \<and> page_cache h' = []"
proof -
  let ?h = "\<lparr>table_name = table_name h, tbl_file = tbl_file h, is_open = True, page_cache = []\<rparr> :: 'm handler"
  have s: "page_count ?h = page_count h" "block_at ?h = block_at h"
    by (simp_all add: page_count_def block_at_def fun_eq_iff)
  have "handler_inv ?h"
    using inv by (simp add: handler_inv_def cache_ok_def file_ok_def s)
  moreover have "table_view ?h = table_view h" by (simp add: table_view_def s)
  ultimately show ?thesis
    using name by (simp add: reopen_def close_table_def handler_init_def create_table_def)
qed

lemma append_record_error:
  assumes inv: "handler_inv (h :: 'm handler)" and i: "i < page_count h"
    and bad: "r = [] \<or> snd (table_view h ! i) < 4 + int (length r)"
  shows "\<exists>h'. append_record (int i) r h = (Inl (if r = [] then ValueError else PageOverflowError), h') \<and>
     handler_inv h' \<and> table_name h' = table_name h \<and> table_view h' = table_view h"
proof -
  obtain p :: "'m page" and h1 where p: "read_page (int i) h = (Inr p, h1)" "page_wf p"
    "(contents p, free_space p) = table_view h ! i" "handler_inv h1" "tbl_file h1 = tbl_file h"
    using read_page_ok [OF inv i] by blast
  have "insert_record r p = (Inl (if r = [] then ValueError else PageOverflowError), p)"
  proof (cases "r = []")
    case False
    moreover have "free_space p = snd (table_view h ! i)" using p(3) by (metis snd_conv)
    ultimately show ?thesis using bad by (simp add: insert_record_full)
  qed (simp add: insert_record_def)
  moreover have "table_view h1 = table_view h"
    using p(5) by (simp add: page_count_def table_view_def block_at_def)
  ultimately show ?thesis
    using p(1,4) table_name_kept(1) [OF p(1)] by (simp add: append_record_def)
qed

lemma page_index:
  obtains "i < 0" | "int (page_count h) \<le> i" "0 \<le> i" | j where "i = int j" "j < page_count h"
proof (cases "0 \<le> i")
  case True
  then obtain j where "i = int j" by (rule nonneg_int_cases)
  then show thesis using that by (cases "j < page_count h") auto
qed (use that in simp)

lemma table_step_refines:
  assumes inv: "handler_inv (h :: 'm handler)" and name: "table_name h \<noteq> []" and n: "page_count h < 2 ^ 32"
  shows "fst (table_step x h) = fst (table_spec_step x (table_view h)) \<and>
    table_view (snd (table_step x h)) = snd (table_spec_step x (table_view h)) \<and>
    handler_inv (snd (table_step x h)) \<and> table_name (snd (table_step x h)) = table_name h"
proof (cases x)
  case Allocate
  obtain h' where a: "allocate_page h = (Inr (page_count h), h')" "handler_inv h'"
    "table_view h' = table_view h @ [([], 4076)]"
    using allocate_page_ok [OF inv n] by blast
  have "table_name h' = table_name h"
    using a(1) table_name_kept(2) by (auto simp: allocate_page_def split: sum.splits)
  with Allocate a show ?thesis by simp
next
  case (Read i)
  show ?thesis
  proof (cases rule: page_index [where i = i and h = h])
    case (3 j)
    obtain p :: "'m page" and h1 where p: "read_page (int j) h = (Inr p, h1)"
      "(contents p, free_space p) = table_view h ! j" "handler_inv h1" "tbl_file h1 = tbl_file h"
      using read_page_ok [OF inv 3(2)] by blast
    have "table_view h1 = table_view h"
      using p(4) by (simp add: page_count_def table_view_def block_at_def)
    moreover have "fst (table_view h ! j) = contents p" using p(2) by (metis fst_conv)
    ultimately show ?thesis
      using Read 3 p(1,3) table_name_kept(1) [OF p(1)] by simp
  qed (use Read inv in \<open>auto simp: read_page_negative read_page_beyond handler_inv_def\<close>)
next
  case (Append i r)
  show ?thesis
  proof (cases rule: page_index [where i = i and h = h])
    case (3 j)
    obtain rs room where v: "table_view h ! j = (rs, room)" by fastforce
    show ?thesis
    proof (cases "r = [] \<or> room < 4 + int (length r)")
      case True
      with append_record_error [OF inv 3(2), of r] v obtain h' where
        "append_record (int j) r h = (Inl (if r = [] then ValueError else PageOverflowError), h')"
        "handler_inv h'" "table_name h' = table_name h" "table_view h' = table_view h" by auto
      with Append 3 v True show ?thesis by auto
    next
      case False
      then obtain h' where "append_record (int j) r h = (Inr (length rs), h')" "handler_inv h'"
        "table_name h' = table_name h"
        "table_view h' = (table_view h)[j := (rs @ [Some r], room - 4 - int (length r))]"
        using append_record_ok [OF inv 3(2), of r] v by auto
      with Append 3 v False show ?thesis by simp
    qed
  qed (use Append inv in \<open>auto simp: append_record_def read_page_negative read_page_beyond handler_inv_def\<close>)
next
  case Reopen
  with reopen_ok [OF inv name] show ?thesis by auto
qed

lemma length_spec_step: "length (snd (table_spec_step x t)) \<le> Suc (length t)"
  by (cases "(x, t)" rule: table_spec_step.cases) (auto split: prod.splits)

interpretation table_machine: simulation table_step table_spec_step
  "\<lambda>n v h. handler_inv h \<and> table_name h \<noteq> [] \<and> v = table_view h \<and> page_count h \<le> n" "\<lambda>_. True" "\<lambda>_ _. 1" "2 ^ 32"
proof
  fix n v x and h :: "'m handler"
  assume h: "handler_inv h \<and> table_name h \<noteq> [] \<and> v = table_view h \<and> page_count h \<le> n" "n + 1 < 2 ^ 32"
  then have "page_count h < 2 ^ 32" by simp
  note step = table_step_refines [OF _ _ this, of x]
  obtain r h' where h': "table_step x h = (r, h')" by fastforce
  have "length (snd (table_spec_step x (table_view h))) \<le> Suc (page_count h)"
    using length_spec_step [of x "table_view h"] by simp
  then have "page_count h' \<le> n + 1" using step h h' by (metis Suc_eq_plus1 Suc_le_mono le_trans length_table_view snd_conv)
  with step h h' show "\<exists>h'. table_step x h = (fst (table_spec_step x v), h') \<and> handler_inv h' \<and> table_name h' \<noteq> [] \<and>
      snd (table_spec_step x v) = table_view h' \<and> page_count h' \<le> n + 1" by auto
qed

lemma table_history_refines:
  assumes "handler_inv (h :: 'm handler)" and "table_name h \<noteq> []" and "page_count h + length xs < 2 ^ 32"
  shows "fst (table_history xs h) = fst (table_spec_history xs (table_view h)) \<and>
    table_view (snd (table_history xs h)) = snd (table_spec_history xs (table_view h)) \<and>
    handler_inv (snd (table_history xs h)) \<and> table_name (snd (table_history xs h)) \<noteq> []"
  using table_machine.history_simulates [of h "table_view h" "page_count h" xs] assms by (simp add: run_cost_constant)

subsection \<open>Properties\<close>

text \<open>C16: On a new table file, every history of page allocations, page reads, record appends (as the
  flush makes them) and close-and-reopen answers as the list of the pages' record lists: same page
  and slot ids, same records also after reopening, same errors for negative, missing and full pages;
  the page cache and the file never disagree.\<close>

theorem table_file_refines_page_lists:
  assumes "name \<noteq> []" and "length xs < 2 ^ 32"
  shows "\<exists>h :: 'm handler. handler_init True True True name None = Inr h \<and>
    fst (table_history xs h) = fst (table_spec_history xs []) \<and>
    table_view (snd (table_history xs h)) = snd (table_spec_history xs []) \<and>
    handler_inv (snd (table_history xs h))"
proof -
  let ?h = "\<lparr>table_name = name, tbl_file = empty_file, is_open = True, page_cache = []\<rparr> :: 'm handler"
  have i: "handler_init True True True name None = Inr ?h"
    using assms(1) by (simp add: handler_init_def create_table_def)
  have n: "page_count ?h = 0" by (simp add: page_count_def empty_file_def)
  then have "handler_inv ?h" by (simp add: handler_inv_def file_ok_def cache_ok_def)
  moreover have "table_view ?h = []" using n by (simp add: table_view_def)
  ultimately show ?thesis
    using table_history_refines [of ?h xs] i assms n by auto
qed

theorem table_file_refines_page_lists_witness:
  "\<exists>h :: nat handler. handler_init True True True (lit ''t'') None = Inr h \<and>
    fst (table_history [Read 0, Allocate, Append 0 [1, 2], Reopen, Read 0] h) =
      [Inl TableHandlerError, Inr (Page_Id 0), Inr (Slot_Id 0), Inr Reopened, Inr (Page_Records [Some [1, 2]])]"
proof -
  have "lit ''t'' \<noteq> []" by (simp add: lit_def)
  moreover have s: "fst (table_spec_history [Read 0, Allocate, Append 0 [1, 2], Reopen, Read 0] []) =
      [Inl TableHandlerError, Inr (Page_Id 0), Inr (Slot_Id 0), Inr Reopened, Inr (Page_Records [Some [1, 2]])]"
    by simp
  ultimately show ?thesis
    using table_file_refines_page_lists [of "lit ''t''" "[Read 0, Allocate, Append 0 [1, 2], Reopen, Read 0]"]
    unfolding s by (auto simp del: run.simps)
qed

text \<open>An operation on a handler that was closed (or never opened) raises and leaves the file as
  it is, and closing is idempotent.\<close>

theorem closed_table_rejects:
  assumes "\<not> is_open h"
  shows "total_pages h = Inl TableHandlerError \<and> allocate_page h = (Inl TableHandlerError, h) \<and>
    read_page i h = (Inl TableHandlerError, h) \<and> write_page p h = (Inl TableHandlerError, h) \<and>
    sync_table h = Inl TableHandlerError \<and> close_table (close_table h) = close_table h \<and>
    tbl_file (close_table h) = tbl_file h"
  using assms
  by (simp add: total_pages_def allocate_page_def read_page_def write_page_def sync_table_def
      require_open_def close_table_def)

theorem closed_table_rejects_witness:
  "read_page 0 (close_table \<lparr>table_name = lit ''t'', tbl_file = empty_file, is_open = True, page_cache = []\<rparr> :: nat handler)
     = (Inl TableHandlerError, close_table \<lparr>table_name = lit ''t'', tbl_file = empty_file, is_open = True, page_cache = []\<rparr>)"
proof -
  let ?h = "close_table \<lparr>table_name = lit ''t'', tbl_file = empty_file, is_open = True, page_cache = []\<rparr> :: nat handler"
  have "\<not> is_open ?h" by (simp add: close_table_def)
  from closed_table_rejects [OF this, of 0] show ?thesis by blast
qed

end
