(* ===== verification/Wal.thy ===== *)
theory Wal
  imports Py_Dict Crc32
begin

text \<open>
  \<open>recovery/wal.py\<close>: the write-ahead log. A WAL file holds a 32-byte header (magic, capacity, record
  count, used payload bytes, CRC-32), a slot of 25 bytes per transaction of the file's id range, and
  the payload area behind the slots. This theory models the file format byte by byte and every
  operation as the transition it makes while it holds its lock; the histories of
  these transitions, by callers and by the writer thread, are \<open>wal_run\<close> in \<open>Wal_Log\<close>.
\<close>

subsection \<open>Constants and the log's state\<close>

definition WAL_CAPACITY :: nat where "WAL_CAPACITY = 50000"
definition PAYLOAD_AREA_SIZE :: nat where "PAYLOAD_AREA_SIZE = 100 * 1024 * 1024"
definition BATCH_SIZE :: nat where "BATCH_SIZE = 50000"

definition header_block_size :: nat where
  "header_block_size = 32 + WAL_CAPACITY * 25"

type_synonym wal_files = "(nat, pyfile) dict"
type_synonym tx_record = "nat \<times> bytes"

text \<open>
  \<open>wal_files\<close>: the files \<open>global_<id>.wal\<close> of the directory by id. The timestamp of an entry is the
  eight bytes of a double, an argument \<open>stamp\<close> of the operations that write entries.
\<close>

record wal =
  global_tx_id :: nat
  wal_buffer :: "tx_record list"
  ram_completed_tx :: "nat set"
  wal_files :: wal_files
  active_flushes :: int

subsection \<open>Headers and entries\<close>

definition header_prefix :: "bytes \<Rightarrow> nat \<Rightarrow> nat \<Rightarrow> nat \<Rightarrow> bytes" where
  "header_prefix magic cap rec used = magic @ be_bytes 4 cap @ be_bytes 4 rec @ be_bytes 8 used"

definition header_image :: "bytes \<Rightarrow> nat \<Rightarrow> nat \<Rightarrow> nat \<Rightarrow> bytes" where
  "header_image magic cap rec used =
     header_prefix magic cap rec used @ be_bytes 4 (crc32 (header_prefix magic cap rec used)) @ replicate 8 0"

definition unpack_header :: "bytes \<Rightarrow> bytes \<times> nat \<times> nat \<times> nat \<times> nat" where
  "unpack_header h = (slice h 0 4, be_val (slice h 4 8), be_val (slice h 8 12), be_val (slice h 12 20),
     be_val (slice h 20 24))"

text \<open>The checks that every reader of a header makes on 32 bytes.\<close>

definition check_header :: "bytes \<Rightarrow> (nat \<times> nat \<times> nat) result" where
  "check_header h =
     (let (magic, cap, rec, used, checksum) = unpack_header h
      in if crc32 (header_prefix magic cap rec used) \<noteq> checksum then Inl WALCorruptionError
         else if magic \<noteq> blit ''WAL1'' then Inl WALCorruptionError
         else Inr (cap, rec, used))"

definition validate_tx_id :: "int \<Rightarrow> unit result" where
  "validate_tx_id tx = (if tx < 0 then Inl ValueError else if tx > 2 ^ 63 - 1 then Inl ValueError else Inr ())"

definition file_id_of :: "nat \<Rightarrow> nat result" where
  "file_id_of tx = bind_result (validate_tx_id (int tx)) (\<lambda>_. Inr (tx div WAL_CAPACITY))"

definition get_slot_index :: "nat \<Rightarrow> nat result" where
  "get_slot_index tx = bind_result (validate_tx_id (int tx)) (\<lambda>_. Inr (tx mod WAL_CAPACITY))"

definition entry_offset :: "nat \<Rightarrow> nat" where
  "entry_offset slot = 32 + slot * 25"

definition create_file_header :: "pyfile \<Rightarrow> int \<Rightarrow> int \<Rightarrow> pyfile result" where
  "create_file_header f rec used =
     (if rec < 0 \<or> rec > int WAL_CAPACITY then Inl ValueError
      else if used < 0 \<or> used > int PAYLOAD_AREA_SIZE then Inl ValueError
      else Inr (fwrite f 0 (header_image (blit ''WAL1'') WAL_CAPACITY (nat rec) (nat used))))"

definition pre_allocate_wal :: "nat \<Rightarrow> pyfile result" where
  "pre_allocate_wal n = create_file_header (zero_file n) 0 0"

definition pre_allocate_async :: "nat \<Rightarrow> wal_files \<Rightarrow> wal_files" where
  "pre_allocate_async fid files =
     (if dget files fid \<noteq> None then files
      else case pre_allocate_wal (header_block_size + PAYLOAD_AREA_SIZE) of
             Inl _ \<Rightarrow> files
           | Inr f \<Rightarrow> dset files fid f)"

definition create_entry_header :: "64 word \<Rightarrow> nat \<Rightarrow> nat \<Rightarrow> bool \<Rightarrow> bytes result" where
  "create_entry_header stamp tx off completed =
     bind_result (validate_tx_id (int tx)) (\<lambda>_.
     bind_result (to_be 8 (int tx)) (\<lambda>t.
     bind_result (to_be 8 (int off)) (\<lambda>p.
       Inr (t @ be_bytes 8 (unat stamp) @ [if completed then 1 else 0] @ p))))"

definition validate_payload_size :: "bytes \<Rightarrow> nat \<Rightarrow> unit result" where
  "validate_payload_size payload used =
     (if length payload > PAYLOAD_AREA_SIZE then Inl WALCapacityError
      else if used + length payload > PAYLOAD_AREA_SIZE then Inl WALCapacityError
      else Inr ())"

subsection \<open>Writing a batch\<close>

text \<open>Phase 1 of \<open>_write_batch_to_disk\<close>: offsets, the block of payloads, the space then used.\<close>

fun layout_payloads :: "tx_record list \<Rightarrow> nat \<Rightarrow> (nat list \<times> bytes \<times> nat) result" where
  "layout_payloads [] used = Inr ([], [], used)"
| "layout_payloads ((tx, payload) # b) used =
     bind_result (to_be 4 (int (length payload))) (\<lambda>l.
     bind_result (validate_payload_size (l @ payload) used) (\<lambda>_.
     bind_result (layout_payloads b (used + length (l @ payload))) (\<lambda>(offs, block, used').
       Inr ((header_block_size + used) # offs, (l @ payload) @ block, used'))))"

text \<open>Phase 2: the entry headers, the \<open>i\<close>-th with the \<open>i\<close>-th timestamp.\<close>

fun layout_entries :: "(nat \<Rightarrow> 64 word) \<Rightarrow> nat set \<Rightarrow> tx_record list \<Rightarrow> nat list \<Rightarrow> bytes result" where
  "layout_entries stamp done [] offs = Inr []"
| "layout_entries stamp done (b # bs) [] = Inl IndexError"
| "layout_entries stamp done ((tx, payload) # b) (off # offs) =
     bind_result (create_entry_header (stamp 0) tx off (tx \<in> done)) (\<lambda>e.
     bind_result (layout_entries (\<lambda>i. stamp (Suc i)) done b offs) (\<lambda>es. Inr (e @ es)))"

text \<open>\<open>except (OSError, struct.error)\<close> wraps the error in an \<open>OSError\<close>.\<close>

definition wrap_os_error :: "error \<Rightarrow> error" where
  "wrap_os_error e = (if e = StructError then OSError else e)"

text \<open>The body under \<open>io_lock\<close>: header check, then payloads, entries and header, in this order.\<close>

definition write_batch_file ::
  "(nat \<Rightarrow> 64 word) \<Rightarrow> nat set \<Rightarrow> tx_record list \<Rightarrow> pyfile \<Rightarrow> (pyfile, unit) step_result" where
  "write_batch_file stamp done batch f =
     (let h = fread f 0 32
      in if length h \<noteq> 32 then (Inl WALCorruptionError, f)
         else case check_header h of
           Inl e \<Rightarrow> (Inl e, f)
         | Inr (cap, rec, used) \<Rightarrow>
         (case layout_payloads batch used of
           Inl e \<Rightarrow> (Inl (wrap_os_error e), f)
         | Inr (offs, block, used') \<Rightarrow>
             let f1 = fwrite f (header_block_size + used) block
             in case get_slot_index (fst (hd batch)) of
                  Inl e \<Rightarrow> (Inl (wrap_os_error e), f1)
                | Inr slot \<Rightarrow>
                (case layout_entries stamp done batch offs of
                  Inl e \<Rightarrow> (Inl (wrap_os_error e), f1)
                | Inr entries \<Rightarrow>
                    let f2 = fwrite f1 (entry_offset slot) entries
                    in case bind_result (to_be 4 (int (rec + length batch))) (\<lambda>_. to_be 8 (int used')) of
                         Inl e \<Rightarrow> (Inl (wrap_os_error e), f2)
                       | Inr _ \<Rightarrow>
                           (Inr (), fwrite f2 0 (header_image (blit ''WAL1'') cap (rec + length batch) used')))))"

definition write_batch ::
  "(nat \<Rightarrow> 64 word) \<Rightarrow> nat set \<Rightarrow> tx_record list \<Rightarrow> wal_files \<Rightarrow> (wal_files, unit) step_result" where
  "write_batch stamp done batch files =
     (if batch = [] then (Inl IndexError, files)
      else case file_id_of (fst (hd batch)) of
        Inl e \<Rightarrow> (Inl e, files)
      | Inr fid \<Rightarrow>
          let total = sum_list (map (\<lambda>(_, p). length p + 4) batch);
              pre = (case dget files fid of
                       Some f \<Rightarrow> Inr f
                     | None \<Rightarrow> pre_allocate_wal (32 + total))
          in case pre of
               Inl e \<Rightarrow> (Inl e, files)
             | Inr f \<Rightarrow>
                 (case write_batch_file stamp done batch f of
                    (r, f') \<Rightarrow> (r, dset files fid f')))"

text \<open>\<open>file_batches\<close>, a \<open>defaultdict(list)\<close> in the order of first use.\<close>

definition add_to_batches :: "tx_record \<Rightarrow> (nat, tx_record list) dict \<Rightarrow> (nat, tx_record list) dict" where
  "add_to_batches r d =
     (let fid = fst r div WAL_CAPACITY
      in dset d fid ((case dget d fid of None \<Rightarrow> [] | Some b \<Rightarrow> b) @ [r]))"

definition split_batches :: "tx_record list \<Rightarrow> (nat, tx_record list) dict" where
  "split_batches buf = foldl (\<lambda>d r. add_to_batches r d) [] buf"

fun write_batches ::
  "(nat \<Rightarrow> 64 word) \<Rightarrow> nat set \<Rightarrow> (nat \<times> tx_record list) list \<Rightarrow> wal_files \<Rightarrow> (wal_files, unit) step_result" where
  "write_batches stamp done [] files = (Inr (), files)"
| "write_batches stamp done ((fid, batch) # bs) files =
     bind_step (write_batch stamp done batch files) (\<lambda>_ files'.
       write_batches (\<lambda>i. stamp (i + length batch)) done bs files')"

definition write_buffer_to_disk ::
  "(nat \<Rightarrow> 64 word) \<Rightarrow> tx_record list \<Rightarrow> wal \<Rightarrow> (wal, unit) step_result" where
  "write_buffer_to_disk stamp buf w =
     (if buf = [] then (Inr (), w)
      else case write_batches stamp (ram_completed_tx w) (split_batches buf) (wal_files w) of
             (r, files') \<Rightarrow> (r, w\<lparr>ram_completed_tx := {}, wal_files := files'\<rparr>))"

subsection \<open>Appending, marking, flushing\<close>

text \<open>
  The back-pressure loop waits while the buffer holds two batches: \<open>None\<close> means that the call is
  still waiting for the writer.
\<close>

definition append_to_buffer :: "bytes \<Rightarrow> wal \<Rightarrow> (nat \<times> wal) option" where
  "append_to_buffer r w =
     (if length (wal_buffer w) \<ge> BATCH_SIZE * 2 then None
      else Some (global_tx_id w, w\<lparr>global_tx_id := global_tx_id w + 1,
                                   wal_buffer := wal_buffer w @ [(global_tx_id w, r)]\<rparr>))"

fun append_loop :: "bytes list \<Rightarrow> wal \<Rightarrow> nat list \<times> wal" where
  "append_loop [] w = ([], w)"
| "append_loop (r # rs) w =
     (let tx = global_tx_id w;
          w1 = w\<lparr>global_tx_id := tx + 1, wal_buffer := wal_buffer w @ [(tx, r)]\<rparr>;
          (txs, w2) = append_loop rs w1
      in (tx # txs, w2))"

definition append_many_to_buffer :: "bytes list \<Rightarrow> wal \<Rightarrow> (nat list \<times> wal) option" where
  "append_many_to_buffer rs w =
     (if length (wal_buffer w) \<ge> BATCH_SIZE * 2 then None else Some (append_loop rs w))"

text \<open>Setting the completion byte of one entry, at \<open>entry_offset + 16\<close>.\<close>

definition mark_entry :: "nat \<Rightarrow> pyfile \<Rightarrow> pyfile" where
  "mark_entry tx f = fwrite f (entry_offset (tx mod WAL_CAPACITY) + 16) [1]"

fun mark_in_files :: "nat list \<Rightarrow> wal_files \<Rightarrow> wal_files" where
  "mark_in_files [] files = files"
| "mark_in_files (tx # txs) files =
     mark_in_files txs
       (case file_id_of tx of
          Inl _ \<Rightarrow> files
        | Inr fid \<Rightarrow> (case dget files fid of
            None \<Rightarrow> files
          | Some f \<Rightarrow> dset files fid (mark_entry tx f)))"

definition in_buffer_range :: "tx_record list \<Rightarrow> nat \<Rightarrow> bool" where
  "in_buffer_range buf tx \<longleftrightarrow> buf \<noteq> [] \<and> fst (hd buf) \<le> tx \<and> tx \<le> fst (last buf)"

definition mark_many_jobs_complete :: "nat list \<Rightarrow> wal \<Rightarrow> wal" where
  "mark_many_jobs_complete txs w =
     (if txs = [] then w
      else let w1 = w\<lparr>ram_completed_tx := ram_completed_tx w \<union> set txs\<rparr>;
               disk = filter (\<lambda>t. \<not> in_buffer_range (wal_buffer w1) t) txs
           in w1\<lparr>wal_files := mark_in_files disk (wal_files w1)\<rparr>)"

text \<open>\<open>mark_job_complete(tx_id, file_path)\<close>; the path is the caller's, given by its file id.\<close>

definition mark_job_complete :: "int \<Rightarrow> nat \<Rightarrow> wal \<Rightarrow> (wal, unit) step_result" where
  "mark_job_complete tx fid w =
     (case validate_tx_id tx of
        Inl e \<Rightarrow> (Inl e, w)
      | Inr _ \<Rightarrow>
          let w1 = w\<lparr>ram_completed_tx := insert (nat tx) (ram_completed_tx w)\<rparr>
          in if in_buffer_range (wal_buffer w1) (nat tx) then (Inr (), w1)
             else case dget (wal_files w1) fid of
                    None \<Rightarrow> (Inr (), w1)
                  | Some f \<Rightarrow> (Inr (), w1\<lparr>wal_files := dset (wal_files w1) fid (mark_entry (nat tx) f)\<rparr>))"

text \<open>
  One round of \<open>_wal_writer_loop\<close>: the buffer is swapped out, and whatever the write raises is
  logged and dropped.
\<close>

definition writer_round :: "(nat \<Rightarrow> 64 word) \<Rightarrow> wal \<Rightarrow> wal" where
  "writer_round stamp w =
     (if wal_buffer w = [] then w
      else snd (write_buffer_to_disk stamp (wal_buffer w) (w\<lparr>wal_buffer := []\<rparr>)))"

text \<open>
  \<open>force_flush\<close> takes the non-reentrant lock; with a non-empty buffer it calls
  \<open>_write_buffer_to_disk\<close>, which takes the same lock again and never gets it: \<open>None\<close>.
\<close>

definition force_flush :: "wal \<Rightarrow> wal option" where
  "force_flush w = (if wal_buffer w \<noteq> [] then None else Some w)"

text \<open>
  \<open>shutdown\<close>: the writer thread leaves its loop either at once (it sees the stop event at the loop
  head) or after one more round (it was waiting for the flush event).
\<close>

definition wal_shutdown :: "bool \<Rightarrow> (nat \<Rightarrow> 64 word) \<Rightarrow> wal \<Rightarrow> wal option" where
  "wal_shutdown waiting stamp w = force_flush (if waiting then writer_round stamp w else w)"

subsection \<open>Reading and restarting\<close>

text \<open>
  The entries \<open>read_wal\<close> yields from one file, for the slots still to read, and the exception that
  ends the generator, if any (a seek to an offset of 2^63 or more).
\<close>

fun read_entries :: "pyfile \<Rightarrow> nat list \<Rightarrow> tx_record list \<times> error option" where
  "read_entries f [] = ([], None)"
| "read_entries f (i # is) =
     (let e = fread f (entry_offset i) 25
      in if length e < 25 then ([], None)
         else let tx = be_val (slice e 0 8);
                  completed = (e ! 16 \<noteq> 0);
                  off = be_val (slice e 17 25)
              in if completed then read_entries f is
                 else if off \<ge> 2 ^ 63 then ([], Some OverflowError)
                 else let lb = fread f off 4
                      in if length lb < 4 then read_entries f is
                         else let n = be_val lb
                              in if n = 0 \<or> n > PAYLOAD_AREA_SIZE then read_entries f is
                                 else let r = fread f (off + 4) n
                                      in if length r < n then read_entries f is
                                         else (case read_entries f is of
                                                 (rs, err) \<Rightarrow> ((tx, r) # rs, err)))"

definition read_wal_file :: "pyfile \<Rightarrow> tx_record list \<times> error option" where
  "read_wal_file f =
     (let h = fread f 0 32
      in if length h < 32 then ([], None)
         else case check_header h of
                Inl _ \<Rightarrow> ([], None)
              | Inr (cap, rec, used) \<Rightarrow> read_entries f [0 ..< rec])"

fun read_files :: "pyfile list \<Rightarrow> tx_record list \<times> error option" where
  "read_files [] = ([], None)"
| "read_files (f # fs) =
     (case read_wal_file f of
        (rs, Some e) \<Rightarrow> (rs, Some e)
      | (rs, None) \<Rightarrow> (case read_files fs of (rs', err) \<Rightarrow> (rs @ rs', err)))"

text \<open>The files of the directory, \<open>sorted\<close> by the number in their names.\<close>

definition sorted_ids :: "wal_files \<Rightarrow> nat list" where
  "sorted_ids files = sort (dkeys files)"

definition read_wal :: "wal_files \<Rightarrow> tx_record list \<times> error option" where
  "read_wal files = read_files (map (\<lambda>i. the (dget files i)) (sorted_ids files))"

definition restore_global_tx_id :: "wal_files \<Rightarrow> nat result" where
  "restore_global_tx_id files =
     (if files = [] then Inr 0
      else let fid = last (sorted_ids files);
               h = fread (the (dget files fid)) 0 32
           in if length h = 32 then
                bind_result (check_header h) (\<lambda>(cap, rec, used). Inr (fid * WAL_CAPACITY + rec))
              else Inr (fid * WAL_CAPACITY))"

text \<open>\<open>WAL()\<close> on the files of an earlier run.\<close>

definition wal_init :: "wal_files \<Rightarrow> wal result" where
  "wal_init files =
     bind_result (restore_global_tx_id files) (\<lambda>n.
       Inr \<lparr>global_tx_id = n, wal_buffer = [], ram_completed_tx = {}, wal_files = files, active_flushes = 0\<rparr>)"

subsection \<open>What a file holds\<close>

text \<open>
  The abstract content of a file is the list of its records in slot order, a payload and whether it
  is marked complete: the \<open>i\<close>-th has transaction id \<open>fid * WAL_CAPACITY + i\<close>.
\<close>

type_synonym log_records = "(bytes \<times> bool) list"

definition frame :: "bytes \<Rightarrow> bytes" where
  "frame p = be_bytes 4 (length p) @ p"

definition entry_image :: "nat \<Rightarrow> 64 word \<Rightarrow> bool \<Rightarrow> nat \<Rightarrow> bytes" where
  "entry_image tx st completed off =
     be_bytes 8 tx @ be_bytes 8 (unat st) @ [if completed then 1 else 0] @ be_bytes 8 off"

definition frames :: "log_records \<Rightarrow> bytes list" where
  "frames rs = map (frame \<circ> fst) rs"

definition space_used :: "log_records \<Rightarrow> nat" where
  "space_used rs = length (concat (frames rs))"

fun entries_from :: "nat \<Rightarrow> nat \<Rightarrow> (nat \<Rightarrow> 64 word) \<Rightarrow> log_records \<Rightarrow> bytes list" where
  "entries_from tx used st [] = []"
| "entries_from tx used st ((p, d) # rs) =
     entry_image tx (st 0) d (header_block_size + used) #
     entries_from (tx + 1) (used + length (frame p)) (\<lambda>i. st (Suc i)) rs"

definition file_rel :: "nat \<Rightarrow> log_records \<Rightarrow> pyfile \<Rightarrow> bool" where
  "file_rel fid rs f \<longleftrightarrow>
     length rs \<le> WAL_CAPACITY \<and> space_used rs \<le> PAYLOAD_AREA_SIZE \<and> (\<forall>r \<in> set rs. fst r \<noteq> []) \<and>
     fread f 0 32 = header_image (blit ''WAL1'') WAL_CAPACITY (length rs) (space_used rs) \<and>
     (\<exists>st. fread f 32 (25 * length rs) = concat (entries_from (fid * WAL_CAPACITY) 0 st rs)) \<and>
     fread f header_block_size (space_used rs) = concat (frames rs)"

fun pending_from :: "nat \<Rightarrow> log_records \<Rightarrow> tx_record list" where
  "pending_from tx [] = []"
| "pending_from tx ((p, d) # rs) = (if d then [] else [(tx, p)]) @ pending_from (tx + 1) rs"

subsection \<open>Layout lemmas\<close>

lemma length_frame [simp]: "length (frame p) = length p + 4"
  by (simp add: frame_def)

lemma length_entry_image [simp]: "length (entry_image tx st d off) = 25"
  by (simp add: entry_image_def)

lemma frames_simps [simp]:
  "frames [] = []" "frames ((p, d) # rs) = frame p # frames rs" "frames (rs @ rs') = frames rs @ frames rs'"
  "length (frames rs) = length rs"
  by (simp_all add: frames_def)

lemma space_used_simps [simp]:
  "space_used [] = 0" "space_used ((p, d) # rs) = length p + 4 + space_used rs"
  "space_used (rs @ rs') = space_used rs + space_used rs'"
  by (simp_all add: space_used_def)

lemma length_entries_from [simp]: "length (entries_from tx used st rs) = length rs"
  by (induction tx used st rs rule: entries_from.induct) auto

lemma length_entries_bytes [simp]: "length (concat (entries_from tx used st rs)) = 25 * length rs"
  by (induction tx used st rs rule: entries_from.induct) auto

lemma entries_from_append:
  "entries_from tx used st (rs @ rs') =
   entries_from tx used st rs @
   entries_from (tx + length rs) (used + space_used rs) (\<lambda>i. st (i + length rs)) rs'"
  by (induction tx used st rs rule: entries_from.induct) (simp_all add: ac_simps)

lemma nth_entries_from:
  "i < length rs \<Longrightarrow> entries_from tx used st rs ! i =
     entry_image (tx + i) (st i) (snd (rs ! i)) (header_block_size + used + space_used (take i rs))"
proof (induction tx used st rs arbitrary: i rule: entries_from.induct)
  case (2 tx used st p d rs)
  then show ?case by (cases i) (simp_all add: ac_simps)
qed simp

lemma entries_from_stamps:
  "(\<And>i. i < length rs \<Longrightarrow> st i = st' i) \<Longrightarrow> entries_from tx used st rs = entries_from tx used st' rs"
proof (induction tx used st rs arbitrary: st' rule: entries_from.induct)
  case (2 tx used st p d rs)
  have "st 0 = st' 0" using 2(2) [of 0] by simp
  moreover have "entries_from (tx + 1) (used + length (frame p)) (\<lambda>i. st (Suc i)) rs =
      entries_from (tx + 1) (used + length (frame p)) (\<lambda>i. st' (Suc i)) rs"
    using 2(2) by (intro 2(1)) simp
  ultimately show ?case by simp
qed simp

lemma space_used_take: "i \<le> length rs \<Longrightarrow> space_used (take i rs) \<le> space_used rs"
  by (metis append_take_drop_id le_add1 space_used_simps(3))

lemma space_used_nth:
  "i < length rs \<Longrightarrow> space_used (take i rs) + length (fst (rs ! i)) + 4 \<le> space_used rs"
proof -
  assume "i < length rs"
  then have "rs = take i rs @ [rs ! i] @ drop (Suc i) rs" by (simp add: id_take_nth_drop)
  then have "space_used rs = space_used (take i rs @ [rs ! i] @ drop (Suc i) rs)" by simp
  then show ?thesis by (cases "rs ! i") simp
qed

lemma length_header_prefix: "length (header_prefix (blit ''WAL1'') cap rec used) = 20"
  by (simp add: header_prefix_def)

lemma length_header_image [simp]: "length (header_image (blit ''WAL1'') cap rec used) = 32"
  by (simp add: header_image_def length_header_prefix)

lemma check_header_image:
  assumes "cap < 2 ^ 32" and "rec < 2 ^ 32" and "used < 2 ^ 64"
  shows "check_header (header_image (blit ''WAL1'') cap rec used) = Inr (cap, rec, used)"
proof -
  have "slice (header_image (blit ''WAL1'') cap rec used) 0 4 = blit ''WAL1''"
    "slice (header_image (blit ''WAL1'') cap rec used) 4 8 = be_bytes 4 cap"
    "slice (header_image (blit ''WAL1'') cap rec used) 8 12 = be_bytes 4 rec"
    "slice (header_image (blit ''WAL1'') cap rec used) 12 20 = be_bytes 8 used"
    "slice (header_image (blit ''WAL1'') cap rec used) 20 24 =
       be_bytes 4 (crc32 (header_prefix (blit ''WAL1'') cap rec used))"
    by (simp_all add: header_image_def header_prefix_def slice_def)
  moreover have "crc32 (header_prefix (blit ''WAL1'') cap rec used) < 256 ^ 4" by (rule crc32_bound)
  ultimately show ?thesis
    using assms by (simp add: check_header_def unpack_header_def Let_def)
qed

lemma sizes:
  "WAL_CAPACITY < 2 ^ 32" "n \<le> WAL_CAPACITY \<Longrightarrow> n < 2 ^ 32" "u \<le> PAYLOAD_AREA_SIZE \<Longrightarrow> u < 2 ^ 32"
  "u \<le> PAYLOAD_AREA_SIZE \<Longrightarrow> header_block_size + u < 2 ^ 63" "0 < WAL_CAPACITY"
  by (simp_all add: WAL_CAPACITY_def PAYLOAD_AREA_SIZE_def header_block_size_def)

lemma file_rel_header:
  assumes "file_rel fid rs f"
  shows "length (fread f 0 32) = 32" and "check_header (fread f 0 32) = Inr (WAL_CAPACITY, length rs, space_used rs)"
proof -
  have h: "fread f 0 32 = header_image (blit ''WAL1'') WAL_CAPACITY (length rs) (space_used rs)"
    "length rs < 2 ^ 32" "space_used rs < 2 ^ 64"
    using assms sizes(2) [of "length rs"] sizes(3) [of "space_used rs"] by (auto simp: file_rel_def)
  then show "length (fread f 0 32) = 32" by simp
  show "check_header (fread f 0 32) = Inr (WAL_CAPACITY, length rs, space_used rs)"
    unfolding h(1) using h(2,3) sizes(1) by (intro check_header_image)
qed

subsection \<open>Reading a file back\<close>

lemma file_rel_entry:
  assumes r: "file_rel fid rs f" and i: "i < length rs"
  obtains st where "fread f (entry_offset i) 25 =
    entry_image (fid * WAL_CAPACITY + i) st (snd (rs ! i)) (header_block_size + space_used (take i rs))"
proof -
  obtain st where st: "fread f 32 (25 * length rs) = concat (entries_from (fid * WAL_CAPACITY) 0 st rs)"
    using r by (auto simp: file_rel_def)
  let ?es = "entries_from (fid * WAL_CAPACITY) 0 st rs"
  have len: "length (fread f 32 (25 * length rs)) = 25 * length rs" using st by simp
  have "concat (take i ?es) = concat (entries_from (fid * WAL_CAPACITY) 0 st (take i rs))"
  proof -
    have "?es = entries_from (fid * WAL_CAPACITY) 0 st (take i rs @ drop i rs)" by simp
    then have "take i ?es = take i (entries_from (fid * WAL_CAPACITY) 0 st (take i rs @ drop i rs))" by simp
    then show ?thesis unfolding entries_from_append using i by simp
  qed
  then have "length (concat (take i ?es)) = 25 * i" using i by simp
  then have "slice (concat ?es) (25 * i) (25 * i + 25) = ?es ! i"
    using slice_concat [of i ?es] i nth_entries_from [OF i, of "fid * WAL_CAPACITY" 0 st] by simp
  moreover have "fread f (32 + 25 * i) 25 = slice (fread f 32 (25 * length rs)) (25 * i) (25 * i + 25)"
    using i len by (intro fread_within) simp
  moreover have "entry_offset i = 32 + 25 * i" by (simp add: entry_offset_def)
  ultimately have "fread f (entry_offset i) 25 = ?es ! i" by (simp only: st)
  then show thesis using that nth_entries_from [OF i, of "fid * WAL_CAPACITY" 0 st] by simp
qed

lemma file_rel_payload:
  assumes r: "file_rel fid rs f" and i: "i < length rs"
  shows "fread f (header_block_size + space_used (take i rs)) 4 = be_bytes 4 (length (fst (rs ! i)))"
    and "fread f (header_block_size + space_used (take i rs) + 4) (length (fst (rs ! i))) = fst (rs ! i)"
proof -
  let ?p = "fst (rs ! i)" and ?a = "space_used (take i rs)"
  have all: "fread f header_block_size (space_used rs) = concat (frames rs)" using r by (simp add: file_rel_def)
  then have len: "length (fread f header_block_size (space_used rs)) = space_used rs" by (simp add: space_used_def)
  have b: "?a + length ?p + 4 \<le> space_used rs" by (rule space_used_nth [OF i])
  have "take i (frames rs) = frames (take i rs)" by (simp add: frames_def take_map)
  moreover have "frames rs ! i = frame ?p" using i by (simp add: frames_def)
  ultimately have fr: "slice (concat (frames rs)) ?a (?a + (length ?p + 4)) = frame ?p"
    using slice_concat [of i "frames rs"] i by (simp add: space_used_def)
  have "fread f (header_block_size + ?a) 4 = slice (concat (frames rs)) ?a (?a + 4)"
    using fread_within [of ?a 4 f header_block_size "space_used rs"] len b by (simp add: all)
  also have "\<dots> = slice (frame ?p) 0 4"
    using slice_slice [of 4 "?a + (length ?p + 4)" ?a "concat (frames rs)" 0] fr by simp
  finally show "fread f (header_block_size + ?a) 4 = be_bytes 4 (length ?p)"
    by (simp add: frame_def slice_def)
  have "fread f (header_block_size + (?a + 4)) (length ?p) = slice (concat (frames rs)) (?a + 4) (?a + 4 + length ?p)"
    using fread_within [of "?a + 4" "length ?p" f header_block_size "space_used rs"] len b by (simp add: all)
  also have "\<dots> = slice (frame ?p) 4 (length ?p + 4)"
    using slice_slice [of "length ?p + 4" "?a + (length ?p + 4)" ?a "concat (frames rs)" 4] fr by (simp add: ac_simps)
  finally show "fread f (header_block_size + ?a + 4) (length ?p) = ?p"
    by (simp add: frame_def slice_def add.assoc)
qed

lemma read_entries_rel:
  assumes r: "file_rel fid rs f" and b: "fid * WAL_CAPACITY + WAL_CAPACITY \<le> 2 ^ 63"
    and "\<forall>i \<in> set is. i < length rs"
  shows "read_entries f is =
    (concat (map (\<lambda>i. if snd (rs ! i) then [] else [(fid * WAL_CAPACITY + i, fst (rs ! i))]) is), None)"
  using assms(3)
proof (induction "is")
  case (Cons i "is")
  then have i: "i < length rs" by simp
  let ?off = "header_block_size + space_used (take i rs)" and ?p = "fst (rs ! i)"
  obtain st where e: "fread f (entry_offset i) 25 =
      entry_image (fid * WAL_CAPACITY + i) st (snd (rs ! i)) ?off" by (rule file_rel_entry [OF r i])
  have m: "?p \<noteq> []" "length rs \<le> WAL_CAPACITY" "space_used rs \<le> PAYLOAD_AREA_SIZE"
    using r i by (auto simp: file_rel_def)
  have fit: "?off < 2 ^ 63" "length ?p \<le> PAYLOAD_AREA_SIZE" "fid * WAL_CAPACITY + i < 2 ^ 63"
    using sizes(4) [of "space_used (take i rs)"] space_used_nth [OF i] m i b by simp_all
  have lp: "length ?p < 256 ^ 4" using sizes(3) [OF fit(2)] by simp
  have f1: "be_val (slice (entry_image (fid * WAL_CAPACITY + i) st (snd (rs ! i)) ?off) 0 8) = fid * WAL_CAPACITY + i"
    "be_val (slice (entry_image (fid * WAL_CAPACITY + i) st (snd (rs ! i)) ?off) 17 25) = ?off"
    "entry_image (fid * WAL_CAPACITY + i) st (snd (rs ! i)) ?off ! 16 = (if snd (rs ! i) then 1 else 0)"
    using fit by (simp_all add: entry_image_def slice_def nth_append)
  show ?case
    using Cons.IH Cons.prems e f1 fit lp m(1) file_rel_payload [OF r i]
    by (simp add: Let_def)
qed simp

lemma pending_from_index:
  "pending_from tx rs = concat (map (\<lambda>i. if snd (rs ! i) then [] else [(tx + i, fst (rs ! i))]) [0 ..< length rs])"
proof (induction tx rs rule: pending_from.induct)
  case (2 tx p d rs)
  have "[0 ..< length ((p, d) # rs)] = 0 # map Suc [0 ..< length rs]"
    by (simp add: upt_conv_Cons map_Suc_upt del: upt_Suc)
  with 2 show ?case by (simp add: comp_def cong: if_cong)
qed simp

lemma read_wal_file_rel:
  assumes r: "file_rel fid rs f" and b: "fid * WAL_CAPACITY + WAL_CAPACITY \<le> 2 ^ 63"
  shows "read_wal_file f = (pending_from (fid * WAL_CAPACITY) rs, None)"
  using file_rel_header [OF r] read_entries_rel [OF r b, of "[0 ..< length rs]"]
  by (simp add: read_wal_file_def pending_from_index)

subsection \<open>Writing a batch\<close>

definition logged :: "nat set \<Rightarrow> tx_record list \<Rightarrow> log_records" where
  "logged done batch = map (\<lambda>(tx, p). (p, tx \<in> done)) batch"

fun offsets_from :: "nat \<Rightarrow> tx_record list \<Rightarrow> nat list" where
  "offsets_from used [] = []"
| "offsets_from used ((tx, p) # b) = (header_block_size + used) # offsets_from (used + length p + 4) b"

lemma logged_simps [simp]:
  "logged done [] = []" "logged done ((tx, p) # b) = (p, tx \<in> done) # logged done b"
  "logged done (b @ b') = logged done b @ logged done b'" "length (logged done b) = length b"
  by (simp_all add: logged_def)

lemma to_be_nat: "n < 256 ^ k \<Longrightarrow> to_be k (int n) = Inr (be_bytes k n)"
  by (simp flip: of_nat_less_iff)

lemma layout_payloads_fits:
  "used + space_used (logged done batch) \<le> PAYLOAD_AREA_SIZE \<Longrightarrow>
   layout_payloads batch used =
     Inr (offsets_from used batch, concat (frames (logged done batch)), used + space_used (logged done batch))"
proof (induction batch arbitrary: used)
  case (Cons a b)
  obtain tx payload where a: "a = (tx, payload)" by (cases a)
  have l: "length payload < 256 ^ 4"
    using Cons.prems sizes(3) [of "length payload"] a by simp
  have "validate_payload_size (be_bytes 4 (length payload) @ payload) used = Inr ()"
    using Cons.prems a by (simp add: validate_payload_size_def)
  then show ?case
    using Cons.IH [of "used + length payload + 4"] Cons.prems a l
    by (simp add: to_be_nat frame_def add.assoc add.commute add.left_commute)
qed simp

lemma layout_payloads_full:
  "used \<le> PAYLOAD_AREA_SIZE \<Longrightarrow> PAYLOAD_AREA_SIZE < used + space_used (logged done batch) \<Longrightarrow>
   \<forall>(tx, p) \<in> set batch. length p < 2 ^ 32 \<Longrightarrow> layout_payloads batch used = Inl WALCapacityError"
proof (induction batch arbitrary: used)
  case (Cons a b)
  obtain tx payload where a: "a = (tx, payload)" by (cases a)
  have l: "length payload < 256 ^ 4" using Cons.prems(3) a by auto
  show ?case
  proof (cases "used + length payload + 4 \<le> PAYLOAD_AREA_SIZE")
    case True
    then have v: "validate_payload_size (be_bytes 4 (length payload) @ payload) used = Inr ()"
      by (simp add: validate_payload_size_def)
    have "layout_payloads b (used + (4 + length payload)) = Inl WALCapacityError"
      using Cons.IH [of "used + (4 + length payload)"] Cons.prems True a by simp
    with v a l show ?thesis by (simp add: to_be_nat)
  next
    case False
    then show ?thesis using l a by (simp add: to_be_nat validate_payload_size_def)
  qed
qed simp

lemma layout_entries_ok:
  "map fst batch = [tx ..< tx + length batch] \<Longrightarrow> tx + length batch \<le> 2 ^ 63 \<Longrightarrow>
   used + space_used (logged done batch) \<le> PAYLOAD_AREA_SIZE \<Longrightarrow>
   layout_entries stamp done batch (offsets_from used batch) =
     Inr (concat (entries_from tx used stamp (logged done batch)))"
proof (induction batch arbitrary: tx used stamp)
  case (Cons a b)
  obtain t p where a: "a = (t, p)" by (cases a)
  from Cons.prems(1) a have t: "t = tx" and b: "map fst b = [Suc tx ..< Suc tx + length b]"
    by (auto simp: upt_conv_Cons simp del: upt_Suc)
  have tx: "int tx < 2 ^ 63" using Cons.prems(2) by simp
  then have v: "validate_tx_id (int tx) = Inr ()" by (simp add: validate_tx_id_def)
  have off: "header_block_size + used < 2 ^ 63"
    using Cons.prems(3) by (intro sizes(4)) simp
  then have "create_entry_header (stamp 0) tx (header_block_size + used) (tx \<in> done) =
      Inr (entry_image tx (stamp 0) (tx \<in> done) (header_block_size + used))"
    using v tx by (simp add: create_entry_header_def entry_image_def to_be_def nat_add_distrib)
  then show ?case
    using Cons.IH [OF b, of "used + length p + 4" "\<lambda>i. stamp (Suc i)"] Cons.prems(2,3) a t
    by (simp add: ac_simps)
qed simp

lemma validate_tx_id_nat: "m < 2 ^ 63 \<Longrightarrow> validate_tx_id (int m) = Inr ()"
  by (simp add: validate_tx_id_def)

lemma slot_of_next:
  assumes "n < WAL_CAPACITY" and "fid * WAL_CAPACITY + n < 2 ^ 63"
  shows "get_slot_index (fid * WAL_CAPACITY + n) = Inr n" and "file_id_of (fid * WAL_CAPACITY + n) = Inr fid"
proof -
  note v = validate_tx_id_nat [OF assms(2)]
  with assms(1) show "get_slot_index (fid * WAL_CAPACITY + n) = Inr n" "file_id_of (fid * WAL_CAPACITY + n) = Inr fid"
    by (simp_all add: get_slot_index_def file_id_of_def v del: of_nat_add of_nat_mult)
qed

text \<open>
  The three writes of a batch, in order. The first two leave what a reader sees untouched: it reads
  only up to the record count in the header, and the new bytes lie behind the old ones.
\<close>

lemma file_rel_sizes:
  assumes "file_rel fid rs f"
  shows "32 \<le> fsize f" and "32 + 25 * length rs \<le> fsize f"
    and "rs \<noteq> [] \<Longrightarrow> header_block_size + space_used rs \<le> fsize f"
    and "32 + 25 * length rs \<le> header_block_size"
proof -
  obtain st where e: "fread f 0 32 = header_image (blit ''WAL1'') WAL_CAPACITY (length rs) (space_used rs)"
    "fread f 32 (25 * length rs) = concat (entries_from (fid * WAL_CAPACITY) 0 st rs)"
    "fread f header_block_size (space_used rs) = concat (frames rs)" "length rs \<le> WAL_CAPACITY"
    using assms by (auto simp: file_rel_def)
  have "length (fread f 0 32) = 32" "length (fread f 32 (25 * length rs)) = 25 * length rs"
    by (simp_all add: e)
  moreover have l3: "length (fread f header_block_size (space_used rs)) = space_used rs"
    using arg_cong [OF e(3), of length] by (simp add: space_used_def)
  ultimately show "32 \<le> fsize f" "32 + 25 * length rs \<le> fsize f"
    by (auto simp: length_fread)
  have "0 < space_used rs" if "rs \<noteq> []" using that by (cases rs) auto
  then show "header_block_size + space_used rs \<le> fsize f" if "rs \<noteq> []"
    using that l3 by (auto simp: length_fread)
  show "32 + 25 * length rs \<le> header_block_size"
    using e(4) by (simp add: header_block_size_def)
qed

lemma file_rel_payload_write:
  assumes r: "file_rel fid rs f"
  shows "file_rel fid rs (fwrite f (header_block_size + space_used rs) block)"
proof (cases "rs = []")
  case True
  have "0 < header_block_size" by (simp add: header_block_size_def)
  moreover have "32 \<le> header_block_size" by (simp add: header_block_size_def)
  ultimately show ?thesis
    using r True file_rel_sizes(1) [OF r] fread_fwrite_other [of 0 32 header_block_size block f]
    by (simp add: file_rel_def length_fread fread_def)
next
  case False
  note s = file_rel_sizes [OF r]
  show ?thesis
    using r s(1,2,4) s(3) [OF False]
      fread_fwrite_other [of 0 32 "header_block_size + space_used rs" block f]
      fread_fwrite_other [of 32 "25 * length rs" "header_block_size + space_used rs" block f]
      fread_fwrite_other [of header_block_size "space_used rs" "header_block_size + space_used rs" block f]
    by (simp add: file_rel_def)
qed

lemma file_rel_entry_write:
  assumes r: "file_rel fid rs f" and a: "32 + 25 * length rs \<le> a" and b: "a + length es \<le> header_block_size"
  shows "file_rel fid rs (fwrite f a es)"
proof (cases "rs = []")
  case True
  then show ?thesis
    using r file_rel_sizes(1) [OF r] a fread_fwrite_other [of 0 32 a es f]
    by (simp add: file_rel_def fread_def)
next
  case False
  note s = file_rel_sizes [OF r]
  show ?thesis
    using r s(1,2,4) s(3) [OF False] a b
      fread_fwrite_other [of 0 32 a es f] fread_fwrite_other [of 32 "25 * length rs" a es f]
      fread_fwrite_other [of header_block_size "space_used rs" a es f]
    by (simp add: file_rel_def)
qed

lemma file_rel_extend:
  fixes st :: "nat \<Rightarrow> 64 word"
  assumes r: "file_rel fid rs f" and n: "length rs + length new \<le> WAL_CAPACITY" "new \<noteq> []"
    and u: "space_used rs + space_used new \<le> PAYLOAD_AREA_SIZE" and ne: "\<forall>r \<in> set new. fst r \<noteq> []"
  defines "f1 \<equiv> fwrite f (header_block_size + space_used rs) (concat (frames new))"
  defines "f2 \<equiv> fwrite f1 (entry_offset (length rs))
      (concat (entries_from (fid * WAL_CAPACITY + length rs) (space_used rs) st new))"
  shows "file_rel fid (rs @ new) (fwrite f2 0 (header_image (blit ''WAL1'') WAL_CAPACITY
      (length rs + length new) (space_used rs + space_used new)))" (is "file_rel fid _ ?f3")
proof -
  note s = file_rel_sizes [OF r]
  let ?HB = header_block_size and ?u = "space_used rs" and ?n = "length rs"
  let ?es = "concat (entries_from (fid * WAL_CAPACITY + ?n) ?u st new)"
  have hb: "32 + 25 * (?n + length new) \<le> ?HB" using n(1) by (simp add: header_block_size_def)
  have ln: "length (concat (frames new)) = space_used new" by (simp add: space_used_def)
  have "0 < space_used new" using n(2) by (cases new) auto
  then have pos1: "concat (frames new) \<noteq> []" using ln by (metis less_irrefl list.size(3))
  have "0 < length ?es" using n(2) by simp
  then have pos2: "?es \<noteq> []" by (metis less_irrefl list.size(3))
  note pos = pos1 pos2
  have z1: "fsize f1 = max (fsize f) (?HB + ?u + space_used new)"
    by (simp only: f1_def fsize_fwrite ln pos1 if_False)
  have "fsize f2 = max (fsize f1) (entry_offset ?n + length ?es)"
    by (simp only: f2_def fsize_fwrite pos2 if_False)
  then have z2: "fsize f2 = fsize f1" using hb z1 by (simp add: entry_offset_def)
  have z3: "fsize ?f3 = fsize f1" using z1 z2 by (simp add: fsize_fwrite header_image_def header_prefix_def header_block_size_def)
  have r1: "file_rel fid rs f1" unfolding f1_def by (rule file_rel_payload_write [OF r])
  have r2: "file_rel fid rs f2"
    unfolding f2_def using hb by (intro file_rel_entry_write [OF r1]) (simp_all add: entry_offset_def)
  have hd: "fread ?f3 0 32 = header_image (blit ''WAL1'') WAL_CAPACITY (?n + length new) (?u + space_used new)"
    using fread_fwrite_same [of f2 0 "header_image (blit ''WAL1'') WAL_CAPACITY (?n + length new) (?u + space_used new)"]
    by simp
  have ent: "fread ?f3 32 (25 * (?n + length new)) = fread f2 32 (25 * ?n) @ ?es"
  proof -
    have "fread ?f3 32 (25 * (?n + length new)) = fread f2 32 (25 * ?n + 25 * length new)"
      using fread_fwrite_other [of 32 "25 * (?n + length new)" 0] z1 z2 hb by (simp add: distrib_left)
    also have "\<dots> = fread f2 32 (25 * ?n) @ fread f2 (32 + 25 * ?n) (25 * length new)"
      using z1 z2 hb by (intro fread_split) simp
    also have "fread f2 (32 + 25 * ?n) (25 * length new) = ?es"
      using fread_fwrite_same [of f1 "entry_offset ?n" ?es] by (simp add: f2_def entry_offset_def mult.commute)
    finally show ?thesis .
  qed
  have pay: "fread ?f3 ?HB (?u + space_used new) = fread f ?HB ?u @ concat (frames new)"
  proof -
    have "fread ?f3 ?HB (?u + space_used new) = fread f2 ?HB (?u + space_used new)"
      using fread_fwrite_other [of ?HB "?u + space_used new" 0] z1 z2 hb by simp
    also have "\<dots> = fread f1 ?HB (?u + space_used new)"
      unfolding f2_def using fread_fwrite_other [of ?HB "?u + space_used new" "entry_offset ?n" ?es f1] z1 hb
      by (simp add: entry_offset_def)
    also have "\<dots> = fread f1 ?HB ?u @ fread f1 (?HB + ?u) (space_used new)"
      using z1 by (intro fread_split) simp
    also have "fread f1 (?HB + ?u) (space_used new) = concat (frames new)"
      unfolding f1_def using fread_fwrite_same [of f "?HB + ?u" "concat (frames new)"] ln by simp
    also have "fread f1 ?HB ?u = fread f ?HB ?u" using r1 r by (simp add: file_rel_def)
    finally show ?thesis .
  qed
  obtain st0 where st0: "fread f2 32 (25 * ?n) = concat (entries_from (fid * WAL_CAPACITY) 0 st0 rs)"
    using r2 by (auto simp: file_rel_def)
  define st1 where "st1 = (\<lambda>i. if i < ?n then st0 i else st (i - ?n))"
  have "entries_from (fid * WAL_CAPACITY) 0 st1 rs = entries_from (fid * WAL_CAPACITY) 0 st0 rs"
    by (rule entries_from_stamps) (simp add: st1_def)
  moreover have "(\<lambda>i. st1 (i + ?n)) = st" by (simp add: st1_def)
  ultimately have "entries_from (fid * WAL_CAPACITY) 0 st1 (rs @ new) =
      entries_from (fid * WAL_CAPACITY) 0 st0 rs @ entries_from (fid * WAL_CAPACITY + ?n) ?u st new"
    by (simp add: entries_from_append)
  then have "fread ?f3 32 (25 * length (rs @ new)) = concat (entries_from (fid * WAL_CAPACITY) 0 st1 (rs @ new))"
    using ent st0 by simp
  then show ?thesis
    using r n u ne hd pay by (auto simp: file_rel_def)
qed

lemma hd_next: "map fst batch = [tx ..< tx + length batch] \<Longrightarrow> batch \<noteq> [] \<Longrightarrow> fst (hd batch) = tx"
  by (cases batch) (auto simp: upt_conv_Cons simp del: upt_Suc)

lemma logged_nonempty: "\<forall>(tx, p) \<in> set batch. p \<noteq> [] \<Longrightarrow> \<forall>r \<in> set (logged done batch). fst r \<noteq> []"
  by (auto simp: logged_def)

lemma write_batch_file_ok:
  assumes r: "file_rel fid rs f" and bs: "batch \<noteq> []" "\<forall>(tx, p) \<in> set batch. p \<noteq> []"
    and tx: "map fst batch = [fid * WAL_CAPACITY + length rs ..< fid * WAL_CAPACITY + length rs + length batch]"
    and n: "length rs + length batch \<le> WAL_CAPACITY" "fid * WAL_CAPACITY + WAL_CAPACITY \<le> 2 ^ 63"
    and u: "space_used rs + space_used (logged done batch) \<le> PAYLOAD_AREA_SIZE"
  shows "\<exists>f'. write_batch_file stamp done batch f = (Inr (), f') \<and> file_rel fid (rs @ logged done batch) f'"
proof -
  let ?tx = "fid * WAL_CAPACITY + length rs"
  have l: "layout_payloads batch (space_used rs) = Inr (offsets_from (space_used rs) batch,
      concat (frames (logged done batch)), space_used rs + space_used (logged done batch))"
    by (rule layout_payloads_fits [OF u])
  have e: "layout_entries stamp done batch (offsets_from (space_used rs) batch) =
      Inr (concat (entries_from ?tx (space_used rs) stamp (logged done batch)))"
    using n by (intro layout_entries_ok [OF tx _ u]) simp
  have "0 < length batch" using bs(1) by simp
  then have "length rs < WAL_CAPACITY" "fid * WAL_CAPACITY + length rs < 2 ^ 63" using n by linarith+
  then have s: "get_slot_index (fst (hd batch)) = Inr (length rs)"
    using slot_of_next(1) [of "length rs" fid] hd_next [OF tx bs(1)] by simp
  have h: "bind_result (to_be 4 (int (length rs + length batch)))
      (\<lambda>_. to_be 8 (int (space_used rs + space_used (logged done batch)))) =
      Inr (be_bytes 8 (space_used rs + space_used (logged done batch)))"
  proof -
    have "length rs + length batch < 256 ^ 4" "space_used rs + space_used (logged done batch) < 256 ^ 8"
      using sizes(2) [OF n(1)] sizes(3) [OF u] by simp_all
    then show ?thesis by (simp only: to_be_nat bind_result.simps)
  qed
  have "file_rel fid (rs @ logged done batch)
      (fwrite (fwrite (fwrite f (header_block_size + space_used rs) (concat (frames (logged done batch))))
         (entry_offset (length rs)) (concat (entries_from ?tx (space_used rs) stamp (logged done batch)))) 0
         (header_image (blit ''WAL1'') WAL_CAPACITY (length rs + length (logged done batch))
            (space_used rs + space_used (logged done batch))))"
    using bs n u logged_nonempty [OF bs(2)] by (intro file_rel_extend [OF r]) (auto simp: logged_def)
  then show ?thesis
    using file_rel_header [OF r] by (simp add: write_batch_file_def Let_def l s e h del: of_nat_add)
qed

lemma write_batch_file_full:
  assumes r: "file_rel fid rs f" and u: "PAYLOAD_AREA_SIZE < space_used rs + space_used (logged done batch)"
    and b: "\<forall>(tx, p) \<in> set batch. length p < 2 ^ 32"
  shows "write_batch_file stamp done batch f = (Inl WALCapacityError, f)"
proof -
  have "space_used rs \<le> PAYLOAD_AREA_SIZE" using r by (simp add: file_rel_def)
  from layout_payloads_full [OF this u b] show ?thesis
    using file_rel_header [OF r] by (simp add: write_batch_file_def Let_def wrap_os_error_def)
qed

lemma pre_allocate_rel:
  assumes "32 \<le> n"
  shows "\<exists>f. pre_allocate_wal n = Inr f \<and> file_rel fid [] f \<and> fsize f = n"
proof -
  let ?h = "header_image (blit ''WAL1'') WAL_CAPACITY 0 0"
  have h: "?h \<noteq> []" using length_header_image by (metis list.size(3) zero_neq_numeral)
  have "fread (fwrite (zero_file n) 0 ?h) 0 32 = ?h"
    using fread_fwrite_same [of "zero_file n" 0 ?h] by simp
  moreover have "fsize (fwrite (zero_file n) 0 ?h) = n"
    using assms h by (simp add: fsize_fwrite zero_file_def)
  ultimately show ?thesis
    by (auto simp: pre_allocate_wal_def create_file_header_def file_rel_def fread_def)
qed

lemma write_batch_ok:
  assumes f: "case dget files fid of None \<Rightarrow> rs = [] | Some f \<Rightarrow> file_rel fid rs f"
    and bs: "batch \<noteq> []" "\<forall>(tx, p) \<in> set batch. p \<noteq> []"
    and tx: "map fst batch = [fid * WAL_CAPACITY + length rs ..< fid * WAL_CAPACITY + length rs + length batch]"
    and n: "length rs + length batch \<le> WAL_CAPACITY" "fid * WAL_CAPACITY + WAL_CAPACITY \<le> 2 ^ 63"
    and u: "space_used rs + space_used (logged done batch) \<le> PAYLOAD_AREA_SIZE"
  shows "\<exists>f'. write_batch stamp done batch files = (Inr (), dset files fid f') \<and>
    file_rel fid (rs @ logged done batch) f'"
proof -
  let ?total = "sum_list (map (\<lambda>(_, p). length p + 4) batch)"
  obtain f0 where f0: "file_rel fid rs f0"
      "(case dget files fid of Some f \<Rightarrow> Inr f | None \<Rightarrow> pre_allocate_wal (32 + ?total)) = Inr f0"
    using f pre_allocate_rel [of "32 + ?total" fid] by (cases "dget files fid") auto
  have "0 < length batch" using bs(1) by simp
  then have "length rs < WAL_CAPACITY" "fid * WAL_CAPACITY + length rs < 2 ^ 63" using n by linarith+
  then have "file_id_of (fst (hd batch)) = Inr fid"
    using slot_of_next(2) [of "length rs" fid] hd_next [OF tx bs(1)] by simp
  moreover obtain f' where "write_batch_file stamp done batch f0 = (Inr (), f')"
      "file_rel fid (rs @ logged done batch) f'"
    using write_batch_file_ok [OF f0(1) bs tx n u] by blast
  ultimately show ?thesis
    using bs(1) f0(2) by (auto simp: write_batch_def Let_def)
qed

subsection \<open>Marking records complete\<close>

lemma space_used_mark: "i < length rs \<Longrightarrow> frames (rs[i := (fst (rs ! i), d)]) = frames rs"
  by (simp add: frames_def map_update list_update_same_conv)

lemma entry_image_mark:
  "slice_assign (entry_image tx st d off) 16 17 [1] = entry_image tx st True off"
  by (simp add: entry_image_def slice_assign_def)

lemma slice_assign_concat:
  assumes "i < length xs" and "c + length ys = d" and "d \<le> length (xs ! i)"
  defines "a \<equiv> length (concat (take i xs))"
  shows "slice_assign (concat xs) (a + c) (a + d) ys = concat (xs[i := slice_assign (xs ! i) c d ys])"
proof -
  have x: "xs = take i xs @ xs ! i # drop (Suc i) xs" using assms(1) by (rule id_take_nth_drop)
  then have c: "concat xs = concat (take i xs) @ xs ! i @ concat (drop (Suc i) xs)"
    by (metis concat.simps(2) concat_append)
  have m: "max (a + c) (a + d) = a + d" "max c d = d" using assms(2) by simp_all
  have "slice_assign (concat xs) (a + c) (a + d) ys =
      concat (take i xs) @ slice_assign (xs ! i) c d ys @ concat (drop (Suc i) xs)"
    using assms(2,3) unfolding c slice_assign_def m by (simp add: a_def)
  also have "\<dots> = concat (xs[i := slice_assign (xs ! i) c d ys])"
    using assms(1) by (simp add: upd_conv_take_nth_drop)
  finally show ?thesis .
qed

lemma entries_from_mark:
  "i < length rs \<Longrightarrow> (entries_from tx used st rs)[i := entry_image (tx + i) (st i) True
       (header_block_size + used + space_used (take i rs))] =
     entries_from tx used st (rs[i := (fst (rs ! i), True)])"
proof (induction tx used st rs arbitrary: i rule: entries_from.induct)
  case (2 tx used st p d rs)
  then show ?case by (cases i) (simp_all add: ac_simps)
qed simp

lemma take_entries_length: "i \<le> length rs \<Longrightarrow> length (concat (take i (entries_from tx used st rs))) = 25 * i"
proof (induction tx used st rs arbitrary: i rule: entries_from.induct)
  case (2 tx used st p d rs)
  then show ?case by (cases i) simp_all
qed simp

lemma mark_entry_rel:
  assumes r: "file_rel fid rs f" and i: "i < length rs" and tx: "tx mod WAL_CAPACITY = i"
  shows "file_rel fid (rs[i := (fst (rs ! i), True)]) (mark_entry tx f)"
proof -
  note s = file_rel_sizes [OF r]
  have ne: "rs \<noteq> []" using i by auto
  let ?f = "mark_entry tx f"
  have m: "?f = fwrite f (32 + 25 * i + 16) [1]"
    by (simp add: mark_entry_def tx entry_offset_def mult.commute)
  have b: "32 + 25 * i + 25 \<le> 32 + 25 * length rs" using i by simp
  obtain st where st: "fread f 32 (25 * length rs) = concat (entries_from (fid * WAL_CAPACITY) 0 st rs)"
    using r by (auto simp: file_rel_def)
  let ?es = "entries_from (fid * WAL_CAPACITY) 0 st rs"
  have "fread ?f 32 (25 * length rs) = slice_assign (concat ?es) (25 * i + 16) (25 * i + 17) [1]"
    unfolding m using fread_fwrite_into [of 32 "32 + 25 * i + 16" "[1]" "25 * length rs" f] s(2) b st
    by (simp add: add.commute)
  also have "\<dots> = concat (?es[i := slice_assign (?es ! i) 16 17 [1]])"
    using slice_assign_concat [of i ?es 16 "[1]" 17] i take_entries_length [of i rs "fid * WAL_CAPACITY" 0 st]
    by (simp add: nth_entries_from)
  also have "\<dots> = concat (entries_from (fid * WAL_CAPACITY) 0 st (rs[i := (fst (rs ! i), True)]))"
    using i entries_from_mark [OF i, of "fid * WAL_CAPACITY" 0 st]
    by (simp add: nth_entries_from entry_image_mark)
  finally have ent: "fread ?f 32 (25 * length rs) = concat (entries_from (fid * WAL_CAPACITY) 0 st (rs[i := (fst (rs ! i), True)]))" .
  have hd: "fread ?f 0 32 = fread f 0 32"
    unfolding m using fread_fwrite_other [of 0 32 "32 + 25 * i + 16" "[1]" f] s(1) by simp
  have pay: "fread ?f header_block_size (space_used rs) = fread f header_block_size (space_used rs)"
    unfolding m using fread_fwrite_other [of header_block_size "space_used rs" "32 + 25 * i + 16" "[1]" f] s(3) [OF ne] s(4) b
    by simp
  have "space_used (rs[i := (fst (rs ! i), True)]) = space_used rs"
    using space_used_mark [OF i] by (simp add: space_used_def)
  moreover have "\<forall>r \<in> set (rs[i := (fst (rs ! i), True)]). fst r \<noteq> []"
    using r i by (auto simp: file_rel_def dest!: set_update_subset_insert [THEN subsetD])
  ultimately show ?thesis
    using r ent hd pay space_used_mark [OF i, of True] unfolding file_rel_def by auto
qed

lemma mark_entry_unused:
  assumes r: "file_rel fid rs f" and tx: "length rs \<le> tx mod WAL_CAPACITY"
  shows "file_rel fid rs (mark_entry tx f)"
proof -
  have "tx mod WAL_CAPACITY < WAL_CAPACITY" using sizes(5) by simp
  then have "(tx mod WAL_CAPACITY) * 25 + 25 \<le> WAL_CAPACITY * 25" by simp
  then show ?thesis
    unfolding mark_entry_def using tx
    by (intro file_rel_entry_write [OF r]) (simp_all add: entry_offset_def header_block_size_def)
qed

subsection \<open>The log as a whole\<close>

text \<open>
  \<open>db fid\<close> are the records of file \<open>fid\<close>; the log's abstract content is the list \<open>D\<close> of all records
  ever made durable, in order, and the set \<open>M\<close> of the ids marked complete. \<open>n\<close> is the id the next
  record on disk will have.
\<close>

type_synonym wal_db = "nat \<Rightarrow> log_records"

definition files_rel :: "wal_files \<Rightarrow> wal_db \<Rightarrow> bool" where
  "files_rel files db \<longleftrightarrow> dict_ok files \<and>
     (\<forall>fid. case dget files fid of None \<Rightarrow> db fid = [] | Some f \<Rightarrow> file_rel fid (db fid) f)"

definition rec_at :: "wal_db \<Rightarrow> nat \<Rightarrow> (bytes \<times> bool) option" where
  "rec_at db tx =
     (if tx mod WAL_CAPACITY < length (db (tx div WAL_CAPACITY))
      then Some (db (tx div WAL_CAPACITY) ! (tx mod WAL_CAPACITY)) else None)"

definition disk_next :: "wal_db \<Rightarrow> nat \<Rightarrow> bool" where
  "disk_next db n \<longleftrightarrow> length (db (n div WAL_CAPACITY)) = n mod WAL_CAPACITY \<and>
     (\<forall>fid > n div WAL_CAPACITY. db fid = [])"

definition durable_rel :: "wal_db \<Rightarrow> tx_record list \<Rightarrow> nat set \<Rightarrow> nat \<Rightarrow> bool" where
  "durable_rel db D M n \<longleftrightarrow> sorted_wrt (<) (map fst D) \<and> (\<forall>tx \<in> fst ` set D. tx < n) \<and> M \<subseteq> fst ` set D \<and>
     (\<forall>tx. rec_at db tx = map_option (\<lambda>p. (p, tx \<in> M)) (map_of D tx))"

lemma files_rel_get: "files_rel files db \<Longrightarrow> dget files fid = Some f \<Longrightarrow> file_rel fid (db fid) f"
  by (auto simp: files_rel_def split: option.splits dest!: spec [of _ fid])

lemma files_rel_set:
  assumes "files_rel files db" and "file_rel fid rs f"
  shows "files_rel (dset files fid f) (db(fid := rs))"
proof -
  have "case dget (dset files fid f) x of None \<Rightarrow> (db(fid := rs)) x = [] | Some g \<Rightarrow> file_rel x ((db(fid := rs)) x) g" for x
    using assms by (cases "x = fid"; cases "dget files x") (auto simp: files_rel_def dest: spec [of _ x])
  with assms(1) show ?thesis by (simp add: files_rel_def)
qed

lemma files_rel_length: "files_rel files db \<Longrightarrow> length (db fid) \<le> WAL_CAPACITY"
  by (cases "dget files fid") (auto simp: files_rel_def file_rel_def split: option.splits dest!: spec [of _ fid])

subsubsection \<open>Splitting the buffer by file\<close>

lemma add_to_batches_append:
  "fst r div WAL_CAPACITY \<notin> fst ` set d \<Longrightarrow> add_to_batches r (d @ e) = d @ add_to_batches r e"
proof -
  assume f: "fst r div WAL_CAPACITY \<notin> fst ` set d"
  have "dset (d @ e) (fst r div WAL_CAPACITY) v = d @ dset e (fst r div WAL_CAPACITY) v" for v
    using f by (induction d) auto
  moreover have "dget (d @ e) (fst r div WAL_CAPACITY) = dget e (fst r div WAL_CAPACITY)"
    using f by (simp add: map_add_def map_of_eq_None_iff [THEN iffD2] split: option.splits)
  ultimately show ?thesis by (simp add: add_to_batches_def Let_def)
qed

lemma split_batches_behind:
  "\<forall>r \<in> set buf. fst r div WAL_CAPACITY \<notin> fst ` set d \<Longrightarrow>
   foldl (\<lambda>d r. add_to_batches r d) (d @ e) buf = d @ foldl (\<lambda>d r. add_to_batches r d) e buf"
  by (induction buf arbitrary: e) (simp_all add: add_to_batches_append)

lemma split_batches_same:
  "\<forall>r \<in> set buf. fst r div WAL_CAPACITY = fid \<Longrightarrow>
   foldl (\<lambda>d r. add_to_batches r d) [(fid, b)] buf = [(fid, b @ buf)]"
  by (induction buf arbitrary: b) (simp_all add: add_to_batches_def)

lemma split_batches_first:
  assumes "xs \<noteq> []" and "\<forall>r \<in> set xs. fst r div WAL_CAPACITY = fid"
    and "\<forall>r \<in> set ys. fst r div WAL_CAPACITY \<noteq> fid"
  shows "split_batches (xs @ ys) = (fid, xs) # split_batches ys"
proof -
  obtain x xs' where xs: "xs = x # xs'" using assms(1) by (cases xs) auto
  have "add_to_batches x [] = [(fid, [x])]" using assms(2) xs by (simp add: add_to_batches_def)
  then have "foldl (\<lambda>d r. add_to_batches r d) [] xs = [(fid, xs)]"
    using split_batches_same [of xs' fid "[x]"] assms(2) xs by simp
  then show ?thesis
    using split_batches_behind [of ys "[(fid, xs)]" "[]"] assms(3) by (simp add: split_batches_def)
qed

lemma contiguous_take_drop:
  assumes "map fst buf = [n ..< n + length buf]"
  shows "map fst (take c buf) = [n ..< n + length (take c buf)]"
    and "c \<le> length buf \<Longrightarrow> map fst (drop c buf) = [n + c ..< n + c + length (drop c buf)]"
proof -
  show "map fst (take c buf) = [n ..< n + length (take c buf)]"
    using assms by (cases "length buf \<le> c") (simp_all add: take_upt flip: take_map)
  show "map fst (drop c buf) = [n + c ..< n + c + length (drop c buf)]" if "c \<le> length buf"
    using assms that by (simp flip: drop_map)
qed

lemma layout_payloads_Inr:
  "layout_payloads batch used = Inr r \<Longrightarrow> used \<le> PAYLOAD_AREA_SIZE \<Longrightarrow>
   used + space_used (logged done batch) \<le> PAYLOAD_AREA_SIZE"
proof (induction batch arbitrary: used r)
  case (Cons a b)
  obtain tx payload where a: "a = (tx, payload)" by (cases a)
  from Cons.prems(1) a have "used + length payload + 4 \<le> PAYLOAD_AREA_SIZE"
    and "\<exists>r'. layout_payloads b (used + (4 + length payload)) = Inr r'"
    by (auto simp: validate_payload_size_def split: if_splits)
  with Cons.IH [of "used + (4 + length payload)"] a show ?case by (auto simp: ac_simps)
qed simp

lemma write_batch_Inr:
  assumes f: "case dget files fid of None \<Rightarrow> rs = [] | Some f \<Rightarrow> file_rel fid rs f"
    and tx: "file_id_of (fst (hd batch)) = Inr fid"
    and ok: "write_batch stamp done batch files = (Inr (), files')"
  shows "space_used rs + space_used (logged done batch) \<le> PAYLOAD_AREA_SIZE"
proof -
  let ?total = "sum_list (map (\<lambda>(_, p). length p + 4) batch)"
  obtain f0 where f0: "file_rel fid rs f0"
      "(case dget files fid of Some f \<Rightarrow> Inr f | None \<Rightarrow> pre_allocate_wal (32 + ?total)) = Inr f0"
    using f pre_allocate_rel [of "32 + ?total" fid] by (cases "dget files fid") auto
  from ok tx f0(2) obtain f' where "write_batch_file stamp done batch f0 = (Inr (), f')"
    by (auto simp: write_batch_def Let_def split: if_splits prod.splits)
  then obtain r where "layout_payloads batch (space_used rs) = Inr r"
    using file_rel_header [OF f0(1)] by (auto simp: write_batch_file_def Let_def split: sum.splits)
  then show ?thesis
    using layout_payloads_Inr f0(1) by (auto simp: file_rel_def)
qed

subsubsection \<open>One batch extends the log\<close>

lemma block_div_mod: "r < WAL_CAPACITY \<Longrightarrow> t = q * WAL_CAPACITY + r \<Longrightarrow> t div WAL_CAPACITY = q \<and> t mod WAL_CAPACITY = r"
  by simp

lemma div_mod_block:
  assumes "n mod WAL_CAPACITY + j < WAL_CAPACITY"
  shows "(n + j) div WAL_CAPACITY = n div WAL_CAPACITY" and "(n + j) mod WAL_CAPACITY = n mod WAL_CAPACITY + j"
proof -
  have "n + j = n div WAL_CAPACITY * WAL_CAPACITY + (n mod WAL_CAPACITY + j)"
    using div_mult_mod_eq [of n WAL_CAPACITY] by linarith
  from block_div_mod [OF assms this]
  show "(n + j) div WAL_CAPACITY = n div WAL_CAPACITY" "(n + j) mod WAL_CAPACITY = n mod WAL_CAPACITY + j"
    by blast+
qed

lemma rec_at_extend:
  assumes d: "disk_next db n" and k: "n mod WAL_CAPACITY + length batch \<le> WAL_CAPACITY"
    and tx: "map fst batch = [n ..< n + length batch]"
  shows "rec_at (db(n div WAL_CAPACITY := db (n div WAL_CAPACITY) @ logged done batch)) t =
    (if n \<le> t \<and> t < n + length batch then Some (snd (batch ! (t - n)), t \<in> done) else rec_at db t)"
proof -
  let ?c = WAL_CAPACITY and ?f = "n div WAL_CAPACITY"
  have l: "length (db ?f) = n mod ?c" using d by (simp add: disk_next_def)
  show ?thesis
  proof (cases "n \<le> t \<and> t < n + length batch")
    case True
    then obtain j where t: "t = n + j" "j < length batch"
      using le_Suc_ex [of n t] by auto
    obtain a b where ab: "batch ! j = (a, b)" by fastforce
    have "map fst batch ! j = t" unfolding tx using t by simp
    then have "a = t" using t(2) ab by simp
    then have "logged done batch ! j = (b, t \<in> done)" using t(2) ab by (simp add: logged_def)
    moreover have "n mod ?c + j < ?c" using k t(2) by linarith
    ultimately show ?thesis
      using t l ab div_mod_block [of n j] by (simp add: rec_at_def nth_append)
  next
    case False
    have "rec_at (db(?f := db ?f @ logged done batch)) t = rec_at db t" if f: "t div ?c = ?f"
    proof -
      have t: "t = ?f * ?c + t mod ?c" "n = ?f * ?c + n mod ?c" using f by (metis div_mult_mod_eq)+
      with False have "t mod ?c < n mod ?c \<or> n mod ?c + length batch \<le> t mod ?c" by linarith
      then show ?thesis using f l by (auto simp: rec_at_def nth_append)
    qed
    then show ?thesis using False by (cases "t div ?c = ?f") (auto simp: rec_at_def)
  qed
qed

lemma disk_next_extend:
  assumes d: "disk_next db n" and k: "n mod WAL_CAPACITY + length batch \<le> WAL_CAPACITY"
  shows "disk_next (db(n div WAL_CAPACITY := db (n div WAL_CAPACITY) @ logged done batch)) (n + length batch)"
proof -
  let ?c = WAL_CAPACITY
  show ?thesis
  proof (cases "n mod ?c + length batch < ?c")
    case True
    with d show ?thesis using div_mod_block [OF True] by (simp add: disk_next_def)
  next
    case False
    have "n + length batch = n div ?c * ?c + (n mod ?c + length batch)"
      using div_mult_mod_eq [of n ?c] by linarith
    moreover have "n mod ?c + length batch = ?c" using k False by linarith
    ultimately have "n + length batch = Suc (n div ?c) * ?c + 0" by (simp only:) simp
    from block_div_mod [OF sizes(5) this] show ?thesis using d by (simp add: disk_next_def)
  qed
qed

lemma map_of_contiguous:
  "map fst batch = [n ..< n + length batch] \<Longrightarrow>
   map_of batch t = (if n \<le> t \<and> t < n + length batch then Some (snd (batch ! (t - n))) else None)"
proof (induction batch arbitrary: n)
  case (Cons a b)
  from Cons.prems have a: "fst a = n" "map fst b = [Suc n ..< Suc n + length b]"
    by (auto simp: upt_conv_Cons simp del: upt_Suc)
  show ?case
    using Cons.IH [OF a(2)] a(1) by (cases a) (auto simp: nth_Cons' Suc_diff_le)
qed simp

lemma durable_rel_extend:
  assumes r: "durable_rel db D M n" and d: "disk_next db n" and k: "n mod WAL_CAPACITY + length batch \<le> WAL_CAPACITY"
    and tx: "map fst batch = [n ..< n + length batch]"
  shows "durable_rel (db(n div WAL_CAPACITY := db (n div WAL_CAPACITY) @ logged done batch))
    (D @ batch) (M \<union> (done \<inter> fst ` set batch)) (n + length batch)"
proof -
  have D: "sorted_wrt (<) (map fst D)" "\<forall>t \<in> fst ` set D. t < n" "M \<subseteq> fst ` set D"
    "\<And>t. rec_at db t = map_option (\<lambda>p. (p, t \<in> M)) (map_of D t)"
    using r by (auto simp: durable_rel_def)
  have b: "fst ` set batch = {n ..< n + length batch}"
    using arg_cong [OF tx, of set] by simp
  have none: "map_of D t = None" if "n \<le> t" for t
    using D(2) that by (auto simp: map_of_eq_None_iff)
  have "rec_at (db(n div WAL_CAPACITY := db (n div WAL_CAPACITY) @ logged done batch)) t =
      map_option (\<lambda>p. (p, t \<in> M \<union> (done \<inter> fst ` set batch))) (map_of (D @ batch) t)" for t
  proof (cases "n \<le> t \<and> t < n + length batch")
    case True
    then have "t \<notin> M" using D(2,3) by fastforce
    then show ?thesis
      using True none [of t] rec_at_extend [OF d k tx] map_of_contiguous [OF tx, of t] b by (simp add: map_add_def)
  next
    case False
    then show ?thesis
      using rec_at_extend [OF d k tx] map_of_contiguous [OF tx, of t] b D(4)
      by (auto simp: map_add_def split: option.splits)
  qed
  moreover have "sorted_wrt (<) (map fst (D @ batch))"
    using D(1,2) b tx by (auto simp: sorted_wrt_append)
  moreover have "\<forall>t \<in> fst ` set (D @ batch). t < n + length batch"
    using D(2) unfolding set_append image_Un b by (auto intro: trans_less_add1)
  moreover have "M \<union> (done \<inter> fst ` set batch) \<subseteq> fst ` set (D @ batch)" using D(3) by auto
  ultimately show ?thesis by (simp add: durable_rel_def)
qed

subsubsection \<open>Writing the whole buffer\<close>

text \<open>The first batch of a contiguous buffer fills the current file; the rest starts a new one.\<close>

lemma split_next:
  assumes tx: "map fst buf = [n ..< n + length buf]" and ne: "buf \<noteq> []"
  obtains xs ys where "buf = xs @ ys" "xs \<noteq> []" "map fst xs = [n ..< n + length xs]"
    "map fst ys = [n + length xs ..< n + length xs + length ys]" "n mod WAL_CAPACITY + length xs \<le> WAL_CAPACITY"
    "\<forall>r \<in> set xs. fst r div WAL_CAPACITY = n div WAL_CAPACITY"
    "\<forall>r \<in> set ys. fst r div WAL_CAPACITY \<noteq> n div WAL_CAPACITY"
    "split_batches buf = (n div WAL_CAPACITY, xs) # split_batches ys"
proof -
  let ?c = WAL_CAPACITY
  define k where "k = min (length buf) (?c - n mod ?c)"
  define xs where "xs = take k buf"
  define ys where "ys = drop k buf"
  have c: "0 < ?c" by (rule sizes)
  have nm: "n mod ?c < ?c" using c by simp
  then have k: "0 < k" "k \<le> length buf" "n mod ?c + k \<le> ?c" using ne by (auto simp: k_def)
  have buf: "buf = xs @ ys" "length xs = k" "length ys = length buf - k" using k by (simp_all add: xs_def ys_def)
  have xs: "map fst xs = [n ..< n + length xs]" "xs \<noteq> []"
    using contiguous_take_drop(1) [OF tx, of k] k ne by (auto simp: xs_def)
  have ys: "map fst ys = [n + k ..< n + k + length ys]"
    using contiguous_take_drop(2) [OF tx k(2)] by (simp add: ys_def)
  have fx: "fst r div ?c = n div ?c" if "r \<in> set xs" for r
  proof -
    have "fst r \<in> set (map fst xs)" using that by simp
    then obtain j where "fst r = n + j" "j < k" unfolding xs(1) using buf(2) le_Suc_ex by force
    then show ?thesis using div_mod_block(1) [of n j] k(3) by simp
  qed
  have fy: "fst r div ?c \<noteq> n div ?c" if "r \<in> set ys" for r
  proof -
    have "ys \<noteq> []" using that by auto
    then have "k < length buf" using buf(3) by (simp flip: length_greater_0_conv)
    then have kc: "n mod ?c + k = ?c" using nm by (auto simp: k_def)
    have "fst r \<in> set (map fst ys)" using that by simp
    then have "n + k \<le> fst r" unfolding ys by simp
    then have "Suc (n div ?c) * ?c \<le> fst r"
      using kc div_mult_mod_eq [of n ?c] by (simp only: mult_Suc)
    then have "Suc (n div ?c) \<le> fst r div ?c" using c by (simp add: less_eq_div_iff_mult_less_eq)
    then show ?thesis by simp
  qed
  have "split_batches buf = (n div ?c, xs) # split_batches ys"
    unfolding buf(1) using fx fy by (intro split_batches_first [OF xs(2)]) auto
  with buf xs ys k(3) fx fy show thesis by (intro that [of xs ys]) (simp_all only: buf(2), blast+)
qed

text \<open>
  One round of the induction over the files: if the first batch fits its file, it is written and
  the log, with the records of the batch, is ready for the rest.
\<close>

lemma write_next:
  assumes r: "files_rel files db" and d: "disk_next db n" and l: "durable_rel db D M n"
    and xs: "xs \<noteq> []" "map fst xs = [n ..< n + length xs]" "\<forall>(tx, p) \<in> set xs. p \<noteq> []"
    and k: "n mod WAL_CAPACITY + length xs \<le> WAL_CAPACITY" and lim: "n + WAL_CAPACITY \<le> 2 ^ 63"
    and u: "space_used (db (n div WAL_CAPACITY)) + space_used (logged done xs) \<le> PAYLOAD_AREA_SIZE"
  shows "\<exists>files1. write_batch stamp done xs files = (Inr (), files1) \<and>
    files_rel files1 (db(n div WAL_CAPACITY := db (n div WAL_CAPACITY) @ logged done xs)) \<and>
    disk_next (db(n div WAL_CAPACITY := db (n div WAL_CAPACITY) @ logged done xs)) (n + length xs) \<and>
    durable_rel (db(n div WAL_CAPACITY := db (n div WAL_CAPACITY) @ logged done xs))
      (D @ xs) (M \<union> (done \<inter> fst ` set xs)) (n + length xs)"
proof -
  let ?c = WAL_CAPACITY and ?q = "n div WAL_CAPACITY"
  have dn: "length (db ?q) = n mod ?c" using d by (simp add: disk_next_def)
  have f: "case dget files ?q of None \<Rightarrow> db ?q = [] | Some f \<Rightarrow> file_rel ?q (db ?q) f"
    using r by (auto simp: files_rel_def)
  have "?q * ?c + ?c \<le> 2 ^ 63" using lim div_mult_mod_eq [of n ?c] by linarith
  moreover have "?q * ?c + length (db ?q) = n" using dn by simp
  moreover have "length (db ?q) + length xs \<le> ?c" using dn k by simp
  ultimately obtain f' where f': "write_batch stamp done xs files = (Inr (), dset files ?q f')"
      "file_rel ?q (db ?q @ logged done xs) f'"
    using write_batch_ok [OF f xs(1,3) _ _ _ u, of stamp] xs(2) by auto
  with files_rel_set [OF r f'(2)] disk_next_extend [OF d k, of "done"] durable_rel_extend [OF l d k xs(2), of "done"]
  show ?thesis by blast
qed

lemma first_fits:
  assumes r: "files_rel files db" and xs: "xs \<noteq> []" "map fst xs = [n ..< n + length xs]" and n: "n < 2 ^ 63"
    and w: "write_batch stamp done xs files = (Inr (), files1)"
  shows "space_used (db (n div WAL_CAPACITY)) + space_used (logged done xs) \<le> PAYLOAD_AREA_SIZE"
proof -
  have "case dget files (n div WAL_CAPACITY) of None \<Rightarrow> db (n div WAL_CAPACITY) = []
      | Some f \<Rightarrow> file_rel (n div WAL_CAPACITY) (db (n div WAL_CAPACITY)) f"
    using r by (auto simp: files_rel_def)
  moreover have "file_id_of (fst (hd xs)) = Inr (n div WAL_CAPACITY)"
    using validate_tx_id_nat [OF n] hd_next [OF xs(2,1)] by (simp add: file_id_of_def)
  ultimately show ?thesis using write_batch_Inr w by blast
qed

lemma write_batches_ok:
  assumes "files_rel files db" and "disk_next db n" and "durable_rel db D M n"
    and "map fst buf = [n ..< n + length buf]" and "\<forall>(tx, p) \<in> set buf. p \<noteq> []"
    and "n + length buf + WAL_CAPACITY \<le> 2 ^ 63"
    and "write_batches stamp done (split_batches buf) files = (Inr (), files')"
  shows "\<exists>db'. files_rel files' db' \<and> disk_next db' (n + length buf) \<and>
    durable_rel db' (D @ buf) (M \<union> (done \<inter> fst ` set buf)) (n + length buf)"
  using assms
proof (induction "length buf" arbitrary: buf files db n D M stamp rule: less_induct)
  case less
  show ?case
  proof (cases "buf = []")
    case True
    with less.prems show ?thesis by (auto simp: split_batches_def)
  next
    case False
    obtain xs ys where s: "buf = xs @ ys" "xs \<noteq> []" "map fst xs = [n ..< n + length xs]"
        "map fst ys = [n + length xs ..< n + length xs + length ys]" "n mod WAL_CAPACITY + length xs \<le> WAL_CAPACITY"
        "split_batches buf = (n div WAL_CAPACITY, xs) # split_batches ys"
      by (rule split_next [OF less.prems(4) False])
    obtain files1 where w1: "write_batch stamp done xs files = (Inr (), files1)"
      and w2: "write_batches (\<lambda>i. stamp (i + length xs)) done (split_batches ys) files1 = (Inr (), files')"
      using less.prems(7) by (auto simp: s(6))
    have n: "n + WAL_CAPACITY \<le> 2 ^ 63" "n < 2 ^ 63" using less.prems(6) sizes(5) by linarith+
    have px: "\<forall>(tx, p) \<in> set xs. p \<noteq> []" "\<forall>(tx, p) \<in> set ys. p \<noteq> []"
      using less.prems(5) unfolding s(1) by auto
    from write_next [OF less.prems(1-3) s(2,3) px(1) s(5) n(1)
        first_fits [OF less.prems(1) s(2,3) n(2) w1], of stamp] w1
    obtain db1 where 1: "files_rel files1 db1" "disk_next db1 (n + length xs)"
        "durable_rel db1 (D @ xs) (M \<union> (done \<inter> fst ` set xs)) (n + length xs)"
      by auto
    have "length ys < length buf" "n + length xs + length ys + WAL_CAPACITY \<le> 2 ^ 63"
      using s(1,2) less.prems(6) by simp_all
    from less.hyps [OF this(1) 1 s(4) px(2) this(2) w2] obtain db' where
      "files_rel files' db'" "disk_next db' (n + length buf)"
        "durable_rel db' ((D @ xs) @ ys) ((M \<union> (done \<inter> fst ` set xs)) \<union> (done \<inter> fst ` set ys)) (n + length buf)"
      by (auto simp: s(1) add.assoc)
    moreover have "(M \<union> (done \<inter> fst ` set xs)) \<union> (done \<inter> fst ` set ys) = M \<union> (done \<inter> fst ` set buf)"
      unfolding s(1) by auto
    ultimately show ?thesis unfolding s(1) by auto
  qed
qed

text \<open>The bytes that the records of a file take in its payload area.\<close>

fun bytes_in :: "nat \<Rightarrow> tx_record list \<Rightarrow> nat" where
  "bytes_in fid [] = 0"
| "bytes_in fid ((tx, p) # rs) = (if tx div WAL_CAPACITY = fid then length p + 4 else 0) + bytes_in fid rs"

lemma bytes_in_append [simp]: "bytes_in fid (xs @ ys) = bytes_in fid xs + bytes_in fid ys"
  by (induction fid xs rule: bytes_in.induct) auto

lemma bytes_in_other: "\<forall>r \<in> set xs. fst r div WAL_CAPACITY \<noteq> fid \<Longrightarrow> bytes_in fid xs = 0"
  by (induction fid xs rule: bytes_in.induct) auto

lemma bytes_in_same: "\<forall>r \<in> set xs. fst r div WAL_CAPACITY = fid \<Longrightarrow> bytes_in fid xs = space_used (logged done xs)"
  by (induction fid xs rule: bytes_in.induct) auto

text \<open>Conversely, writing succeeds whenever the records fit the payload areas.\<close>

lemma write_batches_succeeds:
  assumes "files_rel files db" and "disk_next db n" and "durable_rel db D M n"
    and "map fst buf = [n ..< n + length buf]" and "\<forall>(tx, p) \<in> set buf. p \<noteq> []"
    and "n + length buf + WAL_CAPACITY \<le> 2 ^ 63"
    and "\<forall>fid. space_used (db fid) + bytes_in fid buf \<le> PAYLOAD_AREA_SIZE"
  shows "\<exists>files'. write_batches stamp done (split_batches buf) files = (Inr (), files')"
  using assms
proof (induction "length buf" arbitrary: buf files db n D M stamp rule: less_induct)
  case less
  show ?case
  proof (cases "buf = []")
    case True
    then show ?thesis by (simp add: split_batches_def)
  next
    case False
    obtain xs ys where s: "buf = xs @ ys" "xs \<noteq> []" "map fst xs = [n ..< n + length xs]"
        "map fst ys = [n + length xs ..< n + length xs + length ys]" "n mod WAL_CAPACITY + length xs \<le> WAL_CAPACITY"
        "\<forall>r \<in> set xs. fst r div WAL_CAPACITY = n div WAL_CAPACITY"
        "\<forall>r \<in> set ys. fst r div WAL_CAPACITY \<noteq> n div WAL_CAPACITY"
        "split_batches buf = (n div WAL_CAPACITY, xs) # split_batches ys"
      by (rule split_next [OF less.prems(4) False])
    have n: "n + WAL_CAPACITY \<le> 2 ^ 63" using less.prems(6) by linarith
    have px: "\<forall>(tx, p) \<in> set xs. p \<noteq> []" "\<forall>(tx, p) \<in> set ys. p \<noteq> []"
      using less.prems(5) unfolding s(1) by auto
    let ?q = "n div WAL_CAPACITY"
    let ?db = "db(?q := db ?q @ logged done xs)"
    note bx = bytes_in_same [OF s(6), of "done"]
    have u: "space_used (db ?q) + space_used (logged done xs) \<le> PAYLOAD_AREA_SIZE"
      using less.prems(7) bx unfolding s(1) by (auto dest!: spec [of _ ?q])
    from write_next [OF less.prems(1-3) s(2,3) px(1) s(5) n u, of stamp] obtain files1 where
      w: "write_batch stamp done xs files = (Inr (), files1)" and
      1: "files_rel files1 ?db" "disk_next ?db (n + length xs)"
        "durable_rel ?db (D @ xs) (M \<union> (done \<inter> fst ` set xs)) (n + length xs)"
      by blast
    have "space_used (?db fid) + bytes_in fid ys \<le> PAYLOAD_AREA_SIZE" for fid
      using less.prems(7) bx bytes_in_other [OF s(7)] u unfolding s(1)
      by (cases "fid = ?q") (auto dest!: spec [of _ fid])
    moreover have "length ys < length buf" "n + length xs + length ys + WAL_CAPACITY \<le> 2 ^ 63"
      using s(1,2) less.prems(6) by simp_all
    ultimately obtain files' where
      "write_batches (\<lambda>i. stamp (i + length xs)) done (split_batches ys) files1 = (Inr (), files')"
      using less.hyps [OF _ 1 s(4) px(2)] by blast
    with w show ?thesis by (simp add: s(8))
  qed
qed

subsubsection \<open>Marking in the files\<close>

lemma mark_one:
  assumes r: "files_rel files db" and l: "durable_rel db D M n" and d: "disk_next db n" and f: "dget files (tx div WAL_CAPACITY) = Some f"
  shows "\<exists>db'. files_rel (dset files (tx div WAL_CAPACITY) (mark_entry tx f)) db' \<and> disk_next db' n \<and>
    durable_rel db' D (M \<union> ({tx} \<inter> fst ` set D)) n"
proof -
  let ?c = WAL_CAPACITY and ?q = "tx div WAL_CAPACITY" and ?i = "tx mod WAL_CAPACITY"
  have fr: "file_rel ?q (db ?q) f" by (rule files_rel_get [OF r f])
  have D: "\<And>t. rec_at db t = map_option (\<lambda>p. (p, t \<in> M)) (map_of D t)" "M \<subseteq> fst ` set D"
    using l by (auto simp: durable_rel_def)
  have mem: "t \<in> fst ` set D \<longleftrightarrow> rec_at db t \<noteq> None" for t
    using D(1) [of t] by (auto simp: map_of_eq_None_iff)
  show ?thesis
  proof (cases "?i < length (db ?q)")
    case True
    let ?db = "db(?q := (db ?q)[?i := (fst (db ?q ! ?i), True)])"
    have "files_rel (dset files ?q (mark_entry tx f)) ?db"
      by (rule files_rel_set [OF r mark_entry_rel [OF fr True refl]])
    moreover have "disk_next ?db n" using d by (auto simp: disk_next_def)
    moreover have "rec_at ?db t = map_option (\<lambda>p. (p, t \<in> M \<union> ({tx} \<inter> fst ` set D))) (map_of D t)" for t
    proof (cases "t = tx")
      case eq: True
      have "rec_at db tx = Some (db ?q ! ?i)" using True by (simp add: rec_at_def)
      then have "map_of D tx = Some (fst (db ?q ! ?i))" using D(1) [of tx] by (cases "map_of D tx") (auto simp: prod_eq_iff)
      moreover from this have "tx \<in> fst ` set D" by (force dest: map_of_SomeD)
      ultimately show ?thesis using eq True by (simp add: rec_at_def)
    next
      case False
      have "rec_at ?db t = rec_at db t"
      proof (cases "t div ?c = ?q")
        case same: True
        have "t mod ?c \<noteq> ?i" using same False by (metis div_mult_mod_eq)
        with same show ?thesis by (simp add: rec_at_def)
      qed (simp add: rec_at_def)
      with False D(1) [of t] show ?thesis by simp
    qed
    ultimately show ?thesis using l by (auto simp: durable_rel_def intro!: exI [of _ ?db])
  next
    case False
    then have "rec_at db tx = None" by (simp add: rec_at_def)
    then have "{tx} \<inter> fst ` set D = {}" using mem by auto
    moreover have "db(?q := db ?q) = db" by simp
    ultimately show ?thesis
      using files_rel_set [OF r mark_entry_unused [OF fr, of tx]] False d l by (intro exI [of _ db]) simp
  qed
qed

lemma mark_in_files_ok:
  assumes "files_rel files db" and "durable_rel db D M n" and "disk_next db n" and "n \<le> 2 ^ 63"
  shows "\<exists>db'. files_rel (mark_in_files txs files) db' \<and> disk_next db' n \<and>
    durable_rel db' D (M \<union> (set txs \<inter> fst ` set D)) n"
  using assms
proof (induction txs arbitrary: files db M)
  case (Cons tx txs)
  have D: "\<And>t. rec_at db t = map_option (\<lambda>p. (p, t \<in> M)) (map_of D t)" "\<forall>t \<in> fst ` set D. t < n"
    using Cons.prems(2) by (auto simp: durable_rel_def)
  have skip: ?case if s: "mark_in_files (tx # txs) files = mark_in_files txs files" "tx \<notin> fst ` set D"
  proof -
    have "set (tx # txs) \<inter> fst ` set D = set txs \<inter> fst ` set D" using s(2) by auto
    then show ?thesis unfolding s(1) using Cons.IH [OF Cons.prems] by (simp only:)
  qed
  show ?case
  proof (cases "file_id_of tx")
    case (Inl e)
    then have "\<not> tx < 2 ^ 63" using validate_tx_id_nat [of tx] by (auto simp: file_id_of_def)
    with D(2) Cons.prems(4) have "tx \<notin> fst ` set D" by auto
    with skip Inl show ?thesis by simp
  next
    case (Inr fid)
    then have fid: "fid = tx div WAL_CAPACITY" by (auto simp: file_id_of_def)
    show ?thesis
    proof (cases "dget files fid")
      case None
      then have "db fid = []" using Cons.prems(1) by (auto simp: files_rel_def split: option.splits dest!: spec [of _ fid])
      then have "map_of D tx = None" using D(1) [of tx] fid by (simp add: rec_at_def)
      then have "tx \<notin> fst ` set D" by (simp add: map_of_eq_None_iff)
      with skip None Inr show ?thesis by simp
    next
      case (Some f)
      with mark_one [OF Cons.prems(1-3), of tx f] fid obtain db1 where
        1: "files_rel (dset files fid (mark_entry tx f)) db1" "disk_next db1 n"
          "durable_rel db1 D (M \<union> ({tx} \<inter> fst ` set D)) n" by auto
      have "M \<union> ({tx} \<inter> fst ` set D) \<union> (set txs \<inter> fst ` set D) = M \<union> (set (tx # txs) \<inter> fst ` set D)" by auto
      with Cons.IH [OF 1(1,3,2) Cons.prems(4)] Some Inr show ?thesis by simp
    qed
  qed
qed auto

subsubsection \<open>Reading the log back\<close>

lemma pending_from_mem:
  "(t, p) \<in> set (pending_from tx rs) \<longleftrightarrow> (\<exists>i < length rs. t = tx + i \<and> rs ! i = (p, False))"
proof
  assume "(t, p) \<in> set (pending_from tx rs)"
  then show "\<exists>i < length rs. t = tx + i \<and> rs ! i = (p, False)"
    unfolding pending_from_index by (auto simp: prod_eq_iff split: if_splits)
next
  assume "\<exists>i < length rs. t = tx + i \<and> rs ! i = (p, False)"
  then obtain i where "i < length rs" "t = tx + i" "rs ! i = (p, False)" by blast
  then show "(t, p) \<in> set (pending_from tx rs)"
    unfolding pending_from_index by (auto intro!: bexI [of _ i])
qed

lemma pending_from_sorted:
  "sorted_wrt (<) (map fst (pending_from tx rs))"
  "\<forall>t \<in> fst ` set (pending_from tx rs). tx \<le> t \<and> t < tx + length rs"
proof -
  show b: "\<forall>t \<in> fst ` set (pending_from tx rs). tx \<le> t \<and> t < tx + length rs"
    by (auto simp: pending_from_mem)
  show "sorted_wrt (<) (map fst (pending_from tx rs))"
  proof (induction tx rs rule: pending_from.induct)
    case (2 tx p d rs)
    then show ?case by (auto simp: pending_from_mem)
  qed simp
qed

lemma read_wal_file_db:
  assumes "files_rel files db" and "dget files fid = Some f"
    and "db fid \<noteq> [] \<Longrightarrow> fid * WAL_CAPACITY + WAL_CAPACITY \<le> 2 ^ 63"
  shows "read_wal_file f = (pending_from (fid * WAL_CAPACITY) (db fid), None)"
proof (cases "db fid = []")
  case True
  then show ?thesis
    using file_rel_header [OF files_rel_get [OF assms(1,2)]] by (simp add: read_wal_file_def)
next
  case False
  then show ?thesis
    using read_wal_file_rel [OF files_rel_get [OF assms(1,2)] assms(3)] by simp
qed

lemma read_files_db:
  assumes "files_rel files db" and "\<forall>fid \<in> set fids. dget files fid \<noteq> None"
    and "\<forall>fid. db fid \<noteq> [] \<longrightarrow> fid * WAL_CAPACITY + WAL_CAPACITY \<le> 2 ^ 63"
  shows "read_files (map (\<lambda>i. the (dget files i)) fids) =
    (concat (map (\<lambda>fid. pending_from (fid * WAL_CAPACITY) (db fid)) fids), None)"
  using assms(2)
proof (induction fids)
  case (Cons fid fids)
  then obtain f where f: "dget files fid = Some f" by auto
  have "read_wal_file f = (pending_from (fid * WAL_CAPACITY) (db fid), None)"
    using read_wal_file_db [OF assms(1) f] assms(3) by blast
  with f Cons show ?case by simp
qed simp

lemma sorted_blocks:
  assumes "sorted_wrt (<) fids" and "\<forall>fid. length (db fid) \<le> WAL_CAPACITY"
  shows "sorted_wrt (<) (map fst (concat (map (\<lambda>fid. pending_from (fid * WAL_CAPACITY) (db fid)) fids)))"
  using assms(1)
proof (induction fids)
  case (Cons fid fids)
  have "t < t'" if t: "t \<in> fst ` set (pending_from (fid * WAL_CAPACITY) (db fid))"
      and t': "t' \<in> fst ` set (pending_from (fid' * WAL_CAPACITY) (db fid'))" and l: "fid' \<in> set fids" for t t' fid'
  proof -
    have "t < fid * WAL_CAPACITY + WAL_CAPACITY"
      using pending_from_sorted(2) t assms(2) by (meson add_left_mono order.strict_trans2)
    also have "\<dots> = Suc fid * WAL_CAPACITY" by simp
    also have "\<dots> \<le> fid' * WAL_CAPACITY" using Cons.prems l by (intro mult_le_mono1) (auto simp: Suc_le_eq)
    also have "\<dots> \<le> t'" using pending_from_sorted(2) t' by blast
    finally show ?thesis .
  qed
  then show ?case
    using Cons pending_from_sorted(1) by (fastforce simp: sorted_wrt_append)
qed simp

lemma strict_sorted_unique:
  fixes xs ys :: "('k::linorder \<times> 'v) list"
  assumes "sorted_wrt (<) (map fst xs)" and "sorted_wrt (<) (map fst ys)" and "set xs = set ys"
  shows "xs = ys"
proof -
  have d: "distinct (map fst xs)" "sorted (map fst xs)" "distinct (map fst ys)" "sorted (map fst ys)"
    using assms(1,2) by (simp_all add: strict_sorted_iff)
  have "inj_on fst (set xs \<union> set ys)" using d(1) assms(3) by (simp add: distinct_map)
  with d assms(3) show ?thesis by (intro map_sorted_distinct_set_unique [of fst xs ys]) auto
qed

lemma read_wal_db:
  assumes r: "files_rel files db" and l: "durable_rel db D M n" and n: "n + WAL_CAPACITY \<le> 2 ^ 63"
  shows "read_wal files = (filter (\<lambda>(tx, p). tx \<notin> M) D, None)"
proof -
  let ?c = WAL_CAPACITY
  have D: "sorted_wrt (<) (map fst D)" "\<forall>t \<in> fst ` set D. t < n"
    "\<And>t. rec_at db t = map_option (\<lambda>p. (p, t \<in> M)) (map_of D t)"
    using l by (auto simp: durable_rel_def)
  have dist: "distinct (map fst D)" using D(1) by (simp add: strict_sorted_iff)
  have len: "\<forall>fid. length (db fid) \<le> ?c" using files_rel_length [OF r] by blast
  have db_rec: "rec_at db (fid * ?c + i) = Some (db fid ! i)" if "i < length (db fid)" for fid i
  proof -
    have "i < ?c" using that len order.strict_trans2 by blast
    from block_div_mod [OF this refl] that show ?thesis by (simp add: rec_at_def)
  qed
  have lim: "fid * ?c + ?c \<le> 2 ^ 63" if "db fid \<noteq> []" for fid
  proof -
    have "rec_at db (fid * ?c + 0) = Some (db fid ! 0)" using that by (intro db_rec) simp
    then have "map_of D (fid * ?c) \<noteq> None" using D(3) [of "fid * ?c"] by auto
    then have "fid * ?c \<in> fst ` set D" by (simp add: map_of_eq_None_iff)
    with D(2) n show ?thesis by fastforce
  qed
  let ?ids = "sorted_ids files"
  have ids: "set ?ids = fst ` set files" "sorted_wrt (<) ?ids"
    using r by (auto simp: sorted_ids_def dkeys_def files_rel_def dict_ok_def strict_sorted_iff)
  let ?R = "concat (map (\<lambda>fid. pending_from (fid * ?c) (db fid)) ?ids)"
  have "\<forall>fid \<in> set ?ids. dget files fid \<noteq> None" using ids(1) by (simp add: dget_None_iff)
  then have rd: "read_wal files = (?R, None)"
    using read_files_db [OF r, of ?ids] lim by (simp add: read_wal_def)
  have "(t, p) \<in> set ?R \<longleftrightarrow> (t, p) \<in> set D \<and> t \<notin> M" for t p
  proof
    assume "(t, p) \<in> set ?R"
    then obtain fid i where i: "i < length (db fid)" "t = fid * ?c + i" "db fid ! i = (p, False)"
      by (auto simp: pending_from_mem)
    with db_rec [OF i(1)] D(3) [of t] have "map_of D t = Some p" "t \<notin> M" by (cases "map_of D t"; auto)+
    then show "(t, p) \<in> set D \<and> t \<notin> M" by (auto dest: map_of_SomeD)
  next
    assume tp: "(t, p) \<in> set D \<and> t \<notin> M"
    then have "rec_at db t = Some (p, False)" using D(3) [of t] dist by simp
    then have i: "t mod ?c < length (db (t div ?c))" "db (t div ?c) ! (t mod ?c) = (p, False)"
      by (auto simp: rec_at_def split: if_splits)
    then have "dget files (t div ?c) \<noteq> None" using r by (auto simp: files_rel_def split: option.splits dest!: spec [of _ "t div ?c"])
    then have "t div ?c \<in> set ?ids" using ids(1) by (simp add: dget_None_iff)
    moreover have "(t, p) \<in> set (pending_from (t div ?c * ?c) (db (t div ?c)))"
      unfolding pending_from_mem using i by (intro exI [of _ "t mod ?c"]) simp
    ultimately show "(t, p) \<in> set ?R" by auto
  qed
  then have "set ?R = set (filter (\<lambda>(tx, p). tx \<notin> M) D)" by auto
  moreover have "sorted_wrt (<) (map fst (filter (\<lambda>(tx, p). tx \<notin> M) D))"
    using D(1) by (induction D) auto
  ultimately have "?R = filter (\<lambda>(tx, p). tx \<notin> M) D"
    using strict_sorted_unique [OF sorted_blocks [OF ids(2) len]] by blast
  with rd show ?thesis by simp
qed

lemma sorted_le_last: "sorted xs \<Longrightarrow> x \<in> set xs \<Longrightarrow> x \<le> last xs"
  by (induction xs) auto

lemma restore_db:
  assumes r: "files_rel files db" and l: "durable_rel db D M n" and d: "disk_next db n"
  shows "\<exists>n'. restore_global_tx_id files = Inr n' \<and> disk_next db n' \<and> durable_rel db D M n' \<and>
    (files \<noteq> [] \<longrightarrow> n' = last (sorted_ids files) * WAL_CAPACITY + length (db (last (sorted_ids files))))"
proof -
  let ?c = WAL_CAPACITY
  have D: "\<And>t. rec_at db t = map_option (\<lambda>p. (p, t \<in> M)) (map_of D t)" using l by (auto simp: durable_rel_def)
  have dn: "disk_next db n' \<and> durable_rel db D M n'" if n': "n' = q * ?c + length (db q)" "length (db q) \<le> ?c"
      "\<forall>fid > q. db fid = []" for n' q
  proof -
    have "disk_next db n'"
    proof (cases "length (db q) < ?c")
      case True
      from block_div_mod [OF True n'(1)] n'(3) show ?thesis by (simp add: disk_next_def)
    next
      case False
      with n'(1,2) have "n' = Suc q * ?c + 0" by simp
      from block_div_mod [OF sizes(5) this] n'(3) show ?thesis by (simp add: disk_next_def)
    qed
    moreover have "t < n'" if "t \<in> fst ` set D" for t
    proof -
      have "rec_at db t \<noteq> None" using that D [of t] by (auto simp: map_of_eq_None_iff)
      then have t: "t mod ?c < length (db (t div ?c))" by (auto simp: rec_at_def split: if_splits)
      then have "t div ?c \<le> q" using n'(3) by (metis less_zeroE list.size(3) not_le)
      then consider "t div ?c = q" | "Suc (t div ?c) \<le> q" by linarith
      then show ?thesis
      proof cases
        case 1
        then show ?thesis using t n'(1) div_mult_mod_eq [of t ?c] by (metis add_less_cancel_left)
      next
        case 2
        have "t < Suc (t div ?c) * ?c" using dividend_less_div_times [OF sizes(5)] by simp
        also have "\<dots> \<le> q * ?c" using 2 by (intro mult_le_mono1)
        finally show ?thesis using n'(1) by simp
      qed
    qed
    ultimately show ?thesis using l by (auto simp: durable_rel_def)
  qed
  show ?thesis
  proof (cases "files = []")
    case True
    then have "db fid = []" for fid using r by (simp add: files_rel_def)
    then show ?thesis using dn [of 0 0] True by (simp add: restore_global_tx_id_def)
  next
    case False
    let ?q = "last (sorted_ids files)"
    have ids: "set (sorted_ids files) = fst ` set files" "sorted (sorted_ids files)" "sorted_ids files \<noteq> []"
      using False by (auto simp: sorted_ids_def dkeys_def) (metis False length_0_conv length_map length_sort)
    then have "?q \<in> fst ` set files" using last_in_set by blast
    then obtain f where f: "dget files ?q = Some f" by (cases "dget files ?q") (auto simp: dget_None_iff)
    have fr: "file_rel ?q (db ?q) f" by (rule files_rel_get [OF r f])
    have "db fid = []" if "fid > ?q" for fid
    proof -
      have "fid \<notin> set (sorted_ids files)"
        using that sorted_le_last [OF ids(2)] by fastforce
      then have "dget files fid = None" using ids(1) by (simp add: dget_None_iff)
      then show ?thesis using r by (auto simp: files_rel_def split: option.splits dest!: spec [of _ fid])
    qed
    with dn [OF refl, of ?q] files_rel_length [OF r] file_rel_header [OF fr] f False
    show ?thesis by (auto simp: restore_global_tx_id_def Let_def)
  qed
qed

end
