(* ===== verification/Router.thy ===== *)
theory Router
  imports Router_Format Lfu_Cache BTree_Memtable Table_Handler Wal
begin

text \<open>
  \<open>storage/router.py\<close>: the engine. Every table has an active and an immutable memtable, a file handler
  and an index from keys to page slots; the router adds the write-ahead log and the read cache. A
  client call is one transition (the code holds the table's lock where it changes the table). A flush
  that runs in the background is a job with three stages, \<open>flush_step\<close> makes one of them, so client
  calls may fall between: the pages are written, the index is updated, the log is told and the
  immutable memtable is dropped. A client that waits for a flush lets its remaining stages run.
\<close>

subsection \<open>State\<close>

type_synonym meta = "(pystr \<times> pyval) option"
type_synonym page_index = "(pystr, nat \<times> nat) dict"

datatype flush_job = Submitted | Written page_index "pystr list" "nat list" | Indexed "nat list"

text \<open>
  \<open>handler_of = None\<close> is a table whose file could not be opened: its memtables exist, its handler does
  not. \<open>job = None\<close> means that there is no future of the table or that it is done.
\<close>

record table =
  active_memtable :: "(pystr, bytes) memtable"
  immutable_memtable :: "(pystr, bytes) memtable option"
  active_tx_ids :: "nat list"
  immutable_tx_ids :: "nat list option"
  handler_of :: "meta handler option"
  disk_index :: page_index
  job :: "flush_job option"

record router =
  tables :: "(pystr, table) dict"
  rwal :: wal
  rcache :: "(pystr \<times> pystr, pyval) lfu"
  max_memtable_size :: int
  table_files :: "pystr \<Rightarrow> pyfile option"

text \<open>
  What comes from outside: \<open>zlib\<close>, the outcome of the system calls that open a table file, and the
  timestamps of log entries. \<open>table_files\<close> are the files that an earlier run left.
\<close>

record env =
  compress :: "bytes \<Rightarrow> bytes"
  decompress :: "bytes \<Rightarrow> bytes result"
  mkdir_ok :: "pystr \<Rightarrow> bool"
  touch_ok :: "pystr \<Rightarrow> bool"
  open_ok :: "pystr \<Rightarrow> bool"
  stamps :: "nat \<Rightarrow> 64 word"

definition router_init :: "wal \<Rightarrow> int \<Rightarrow> int \<Rightarrow> (pystr \<Rightarrow> pyfile option) \<Rightarrow> router result" where
  "router_init w mx cap files =
     (if mx < 1 then Inl ValueError else if cap < 1 then Inl ValueError
      else Inr \<lparr>tables = [], rwal = w, rcache = lfu_init cap, max_memtable_size = mx, table_files = files\<rparr>)"

definition put_table :: "pystr \<Rightarrow> table \<Rightarrow> router \<Rightarrow> router" where
  "put_table t tb r = r\<lparr>tables := dset (tables r) t tb\<rparr>"

text \<open>\<open>self.active_memtables[table_name]\<close> and its sisters: \<open>KeyError\<close> if there is no such table.\<close>

definition on_table :: "pystr \<Rightarrow> router \<Rightarrow> (table \<Rightarrow> (router, 'a) step_result) \<Rightarrow> (router, 'a) step_result" where
  "on_table t r f = (case dget (tables r) t of None \<Rightarrow> (Inl KeyError, r) | Some tb \<Rightarrow> f tb)"

definition on_handler ::
  "pystr \<Rightarrow> router \<Rightarrow> (table \<Rightarrow> meta handler \<Rightarrow> (meta handler, 'a) step_result) \<Rightarrow> (router, 'a) step_result" where
  "on_handler t r f =
     on_table t r (\<lambda>tb. case handler_of tb of
       None \<Rightarrow> (Inl KeyError, r)
     | Some h \<Rightarrow> (case f tb h of (x, h') \<Rightarrow> (x, put_table t (tb\<lparr>handler_of := Some h'\<rparr>) r)))"

definition cache_put :: "pystr \<times> pystr \<Rightarrow> pyval \<Rightarrow> router \<Rightarrow> (router, unit) step_result" where
  "cache_put k v r = (case lfu_put k v (rcache r) of (x, c) \<Rightarrow> (x, r\<lparr>rcache := c\<rparr>))"

text \<open>\<open>cache.get\<close> answers \<open>None\<close> both for an absent key and for a stored \<open>None\<close>.\<close>

definition cache_get :: "pystr \<times> pystr \<Rightarrow> router \<Rightarrow> (router, pyval) step_result" where
  "cache_get k r =
     (case lfu_get k (rcache r) of
        (Inl e, c) \<Rightarrow> (Inl e, r\<lparr>rcache := c\<rparr>)
      | (Inr v, c) \<Rightarrow> (Inr (case v of None \<Rightarrow> PyNone | Some x \<Rightarrow> x), r\<lparr>rcache := c\<rparr>))"

subsection \<open>The disk index and reading from disk\<close>

text \<open>One payload of \<open>_init_disk_index\<close>; whatever its decoding raises skips it.\<close>

definition index_payload :: "nat \<Rightarrow> nat \<Rightarrow> bytes \<Rightarrow> page_index \<Rightarrow> page_index" where
  "index_payload pid sid payload ix =
     (if length payload < 2 then ix
      else let klen = be_val (slice payload 0 2)
           in case utf8_decode (slice payload 2 (2 + klen)) of
                Inl _ \<Rightarrow> ix
              | Inr k \<Rightarrow> if is_deletion klen payload then ddel ix k else dset ix k (pid, sid))"

definition index_slot :: "nat \<Rightarrow> meta page \<Rightarrow> nat \<Rightarrow> page_index \<Rightarrow> page_index" where
  "index_slot pid p sid ix =
     (case get_record (int sid) p of Inr (Some payload) \<Rightarrow> index_payload pid sid payload ix | _ \<Rightarrow> ix)"

definition index_page :: "nat \<Rightarrow> meta handler \<times> page_index \<Rightarrow> meta handler \<times> page_index" where
  "index_page pid s =
     (case read_page (int pid) (fst s) of
        (Inl _, h) \<Rightarrow> (h, snd s)
      | (Inr p, h) \<Rightarrow> (h, fold (index_slot pid p) [0 ..< length (slots p)] (snd s)))"

definition init_disk_index :: "meta handler \<Rightarrow> (meta handler, page_index) step_result" where
  "init_disk_index h =
     (case total_pages h of
        Inl e \<Rightarrow> (Inl e, h)
      | Inr n \<Rightarrow> (case fold index_page [0 ..< n] (h, []) of (h', ix) \<Rightarrow> (Inr ix, h')))"

definition new_table :: table where
  "new_table = \<lparr>active_memtable = new_memtable, immutable_memtable = None, active_tx_ids = [],
     immutable_tx_ids = None, handler_of = None, disk_index = [], job = None\<rparr>"

definition get_table_state :: "env \<Rightarrow> pystr \<Rightarrow> router \<Rightarrow> (router, unit) step_result" where
  "get_table_state e t r =
     (case dget (tables r) t of
        Some tb \<Rightarrow> ((if handler_of tb = None then Inl KeyError else Inr ()), r)
      | None \<Rightarrow>
          (case handler_init (mkdir_ok e t) (touch_ok e t) (open_ok e t) t (table_files r t) of
             Inl err \<Rightarrow> (Inl err, put_table t new_table r)
           | Inr h \<Rightarrow>
               (case init_disk_index h of
                  (Inl err, h') \<Rightarrow> (Inl err, put_table t (new_table\<lparr>handler_of := Some h'\<rparr>) r)
                | (Inr ix, h') \<Rightarrow>
                    (Inr (), put_table t (new_table\<lparr>handler_of := Some h', disk_index := ix\<rparr>) r))))"

text \<open>\<open>_get_page_slot_record\<close>: the unpacked record of a slot, kept in the page's metadata.\<close>

definition page_slot_record :: "nat \<Rightarrow> meta page \<Rightarrow> (meta page, meta) step_result" where
  "page_slot_record sid p =
     (case dget (cached_metadata p) sid of
        Some m \<Rightarrow> (Inr m, p)
      | None \<Rightarrow>
          (case get_record (int sid) p of
             Inl e \<Rightarrow> (Inl e, p)
           | Inr payload \<Rightarrow>
               let m = (case payload of
                          None \<Rightarrow> None
                        | Some b \<Rightarrow> (case unpack_kv b of Inl _ \<Rightarrow> None | Inr kv \<Rightarrow> Some kv))
               in (Inr m, p\<lparr>cached_metadata := dset (cached_metadata p) sid m\<rparr>)))"

definition lookup_slot :: "nat \<Rightarrow> nat \<Rightarrow> meta handler \<Rightarrow> (meta handler, meta) step_result" where
  "lookup_slot pid sid h =
     bind_step (read_page (int pid) h) (\<lambda>p h1.
       case page_slot_record sid p of (m, p') \<Rightarrow> (m, page_changed (int pid) p' h1))"

text \<open>The fallback: all slots of all pages, newest first.\<close>

fun scan_slots :: "pystr \<Rightarrow> nat list \<Rightarrow> meta page \<Rightarrow> (meta page, pyval option) step_result" where
  "scan_slots key [] p = (Inr None, p)"
| "scan_slots key (sid # sids) p =
     bind_step (page_slot_record sid p) (\<lambda>m p1.
       case m of
         Some (k, v) \<Rightarrow> if k = key then (Inr (Some v), p1) else scan_slots key sids p1
       | None \<Rightarrow> scan_slots key sids p1)"

fun scan_pages :: "pystr \<Rightarrow> nat list \<Rightarrow> meta handler \<Rightarrow> (meta handler, pyval) step_result" where
  "scan_pages key [] h = (Inr PyNone, h)"
| "scan_pages key (pid # pids) h =
     (case read_page (int pid) h of
        (Inl _, h1) \<Rightarrow> scan_pages key pids h1
      | (Inr p, h1) \<Rightarrow>
          (case scan_slots key (rev [0 ..< length (slots p)]) p of
             (Inl e, p') \<Rightarrow> (Inl e, page_changed (int pid) p' h1)
           | (Inr (Some v), p') \<Rightarrow> (Inr v, page_changed (int pid) p' h1)
           | (Inr None, p') \<Rightarrow> scan_pages key pids (page_changed (int pid) p' h1)))"

definition read_disk :: "pystr \<Rightarrow> page_index \<Rightarrow> meta handler \<Rightarrow> (meta handler, pyval) step_result" where
  "read_disk key ix h =
     (let scan = (\<lambda>h1. case total_pages h1 of Inl e \<Rightarrow> (Inl e, h1) | Inr n \<Rightarrow> scan_pages key (rev [0 ..< n]) h1)
      in case dget ix key of
           None \<Rightarrow> (Inr PyNone, h)
         | Some (pid, sid) \<Rightarrow>
             (case lookup_slot pid sid h of
                (Inr (Some (_, v)), h') \<Rightarrow> (Inr v, h')
              | (_, h') \<Rightarrow> scan h'))"

definition read_from_disk :: "env \<Rightarrow> pystr \<Rightarrow> pystr \<Rightarrow> router \<Rightarrow> (router, pyval) step_result" where
  "read_from_disk e t key r =
     bind_step (get_table_state e t r) (\<lambda>_ r1. on_handler t r1 (\<lambda>tb h. read_disk key (disk_index tb) h))"

subsection \<open>Flushing\<close>

text \<open>The local variables of the loop of \<open>flush_memtable_to_disk\<close>.\<close>

record flush_state =
  fl_handler :: "meta handler"
  fl_pid :: nat
  fl_page :: "meta page"
  fl_dirty :: bool
  fl_updates :: page_index
  fl_deletions :: "pystr list"

definition flush_write :: "flush_state \<Rightarrow> (flush_state, unit) step_result" where
  "flush_write s =
     (if fl_dirty s
      then (case write_page (fl_page s) (fl_handler s) of (x, h) \<Rightarrow> (x, s\<lparr>fl_handler := h\<rparr>))
      else (Inr (), s))"

definition next_page :: "flush_state \<Rightarrow> (flush_state, unit) step_result" where
  "next_page s =
     bind_step (flush_write s) (\<lambda>_ s1.
       case allocate_page (fl_handler s1) of
         (Inl e, h) \<Rightarrow> (Inl e, s1\<lparr>fl_handler := h\<rparr>)
       | (Inr pid, h) \<Rightarrow>
           (case read_page (int pid) h of
              (Inl e, h') \<Rightarrow> (Inl e, s1\<lparr>fl_handler := h', fl_pid := pid\<rparr>)
            | (Inr p, h') \<Rightarrow> (Inr (), s1\<lparr>fl_handler := h', fl_pid := pid, fl_page := p, fl_dirty := False\<rparr>)))"

text \<open>\<open>insert_record\<close> changes the page object, which is the one in the handler's page cache.\<close>

definition flush_insert :: "pystr \<Rightarrow> bytes \<Rightarrow> flush_state \<Rightarrow> (flush_state, unit) step_result" where
  "flush_insert key packed s =
     (case insert_record packed (fl_page s) of
        (Inl e, _) \<Rightarrow> (Inl e, s)
      | (Inr sid, p) \<Rightarrow>
          let s1 = s\<lparr>fl_page := p, fl_handler := page_changed (int (fl_pid s)) p (fl_handler s)\<rparr>
          in case utf8_encode key of
               Inl e \<Rightarrow> (Inl e, s1)
             | Inr kb \<Rightarrow>
                 (Inr (), if is_deletion (length kb) packed
                          then s1\<lparr>fl_deletions := fl_deletions s1 @ [key], fl_dirty := True\<rparr>
                          else s1\<lparr>fl_updates := dset (fl_updates s1) key (fl_pid s1, sid), fl_dirty := True\<rparr>))"

definition flush_record :: "pystr \<Rightarrow> bytes \<Rightarrow> flush_state \<Rightarrow> (flush_state, unit) step_result" where
  "flush_record key packed s =
     (case has_space_for (int (length packed)) (fl_page s) of
        Inl e \<Rightarrow> (Inl e, s)
      | Inr room \<Rightarrow> bind_step (if room then (Inr (), s) else next_page s) (\<lambda>_ s1. flush_insert key packed s1))"

fun flush_loop :: "(pystr \<times> bytes) list \<Rightarrow> flush_state \<Rightarrow> (flush_state, unit) step_result" where
  "flush_loop [] s = (Inr (), s)"
| "flush_loop ((key, packed) # rs) s = bind_step (flush_record key packed s) (\<lambda>_ s1. flush_loop rs s1)"

definition flush_begin :: "meta handler \<Rightarrow> (meta handler, nat) step_result" where
  "flush_begin h =
     (case total_pages h of
        Inl e \<Rightarrow> (Inl e, h)
      | Inr n \<Rightarrow> if n = 0 then allocate_page h else (Inr (n - 1), h))"

definition flush_records ::
  "(pystr \<times> bytes) list \<Rightarrow> meta handler \<Rightarrow> (meta handler, page_index \<times> pystr list) step_result" where
  "flush_records rs h =
     bind_step (flush_begin h) (\<lambda>pid h1.
     bind_step (read_page (int pid) h1) (\<lambda>p h2.
       case bind_step (flush_loop rs \<lparr>fl_handler = h2, fl_pid = pid, fl_page = p, fl_dirty = False,
                                     fl_updates = [], fl_deletions = []\<rparr>)
              (\<lambda>_ s. flush_write s) of
         (Inl e, s) \<Rightarrow> (Inl e, fl_handler s)
       | (Inr _, s) \<Rightarrow> (Inr (fl_updates s, fl_deletions s), fl_handler s)))"

definition count_flush :: "int \<Rightarrow> router \<Rightarrow> router" where
  "count_flush d r = r\<lparr>rwal := (rwal r)\<lparr>active_flushes := active_flushes (rwal r) + d\<rparr>\<rparr>"

text \<open>The end of a flush, also of one that raised or had nothing to do: the \<open>finally\<close> clause.\<close>

definition flush_end :: "pystr \<Rightarrow> router \<Rightarrow> router" where
  "flush_end t r =
     count_flush (- 1) (case dget (tables r) t of None \<Rightarrow> r | Some tb \<Rightarrow> put_table t (tb\<lparr>job := None\<rparr>) r)"

definition flush_pages :: "env \<Rightarrow> pystr \<Rightarrow> router \<Rightarrow> (router, unit) step_result" where
  "flush_pages e t r =
     (case get_table_state e t r of
        (Inl err, r1) \<Rightarrow>
          (Inl err, case dget (tables r1) t of None \<Rightarrow> r1 | Some tb \<Rightarrow> put_table t (tb\<lparr>job := None\<rparr>) r1)
      | (Inr _, r1) \<Rightarrow> on_table t r1 (\<lambda>tb.
          case immutable_memtable tb of
            None \<Rightarrow> (Inr (), flush_end t r1)
          | Some m \<Rightarrow>
              if entries m = 0 then (Inr (), flush_end t r1)
              else let txs = (case immutable_tx_ids tb of None \<Rightarrow> [] | Some l \<Rightarrow> l)
                   in (case on_handler t (count_flush 1 r1) (\<lambda>_. flush_records (in_order_traversal m)) of
                         (Inl err, r2) \<Rightarrow> (Inl err, flush_end t r2)
                       | (Inr (ups, dels), r2) \<Rightarrow>
                           on_table t r2 (\<lambda>tb2. (Inr (), put_table t (tb2\<lparr>job := Some (Written ups dels txs)\<rparr>) r2)))))"

definition flush_index :: "pystr \<Rightarrow> page_index \<Rightarrow> pystr list \<Rightarrow> nat list \<Rightarrow> router \<Rightarrow> (router, unit) step_result" where
  "flush_index t ups dels txs r =
     on_table t r (\<lambda>tb.
       let ix = dupdate (fold (\<lambda>k d. ddel d k) dels (disk_index tb)) ups;
           r1 = put_table t (tb\<lparr>disk_index := ix, job := Some (Indexed txs)\<rparr>) r
       in case on_handler t r1 (\<lambda>_ h. (sync_table h, h)) of
            (Inl err, r2) \<Rightarrow> (Inl err, flush_end t r2)
          | (Inr _, r2) \<Rightarrow> (Inr (), r2))"

definition flush_finish :: "pystr \<Rightarrow> nat list \<Rightarrow> router \<Rightarrow> (router, unit) step_result" where
  "flush_finish t txs r =
     (let r1 = r\<lparr>rwal := mark_many_jobs_complete txs (rwal r)\<rparr>
      in on_table t r1 (\<lambda>tb.
           (Inr (), flush_end t (put_table t (tb\<lparr>immutable_memtable := None, immutable_tx_ids := None\<rparr>) r1))))"

text \<open>One stage of the table's running flush.\<close>

definition flush_step :: "env \<Rightarrow> pystr \<Rightarrow> router \<Rightarrow> (router, unit) step_result" where
  "flush_step e t r =
     (case dget (tables r) t of
        None \<Rightarrow> (Inr (), r)
      | Some tb \<Rightarrow>
          (case job tb of
             None \<Rightarrow> (Inr (), r)
           | Some Submitted \<Rightarrow> flush_pages e t r
           | Some (Written ups dels txs) \<Rightarrow> flush_index t ups dels txs r
           | Some (Indexed txs) \<Rightarrow> flush_finish t txs r))"

text \<open>\<open>future.result()\<close>: all remaining stages, at most three; what one raises is raised to the waiting thread.\<close>

definition flush_wait :: "env \<Rightarrow> pystr \<Rightarrow> router \<Rightarrow> (router, unit) step_result" where
  "flush_wait e t r =
     bind_step (flush_step e t r) (\<lambda>_ r1. bind_step (flush_step e t r1) (\<lambda>_ r2. flush_step e t r2))"

definition submit_flush :: "pystr \<Rightarrow> router \<Rightarrow> router" where
  "submit_flush t r =
     (case dget (tables r) t of None \<Rightarrow> r | Some tb \<Rightarrow> put_table t (tb\<lparr>job := Some Submitted\<rparr>) r)"

text \<open>The whole flush in the calling thread, as \<open>shutdown\<close> makes it.\<close>

definition flush_memtable_to_disk :: "env \<Rightarrow> pystr \<Rightarrow> router \<Rightarrow> (router, unit) step_result" where
  "flush_memtable_to_disk e t r =
     bind_step (get_table_state e t r) (\<lambda>_ r1. flush_wait e t (submit_flush t r1))"

subsection \<open>Writing\<close>

definition trigger_flush :: "env \<Rightarrow> pystr \<Rightarrow> router \<Rightarrow> (router, unit) step_result" where
  "trigger_flush e t r =
     bind_step (flush_wait e t r) (\<lambda>_ r1. on_table t r1 (\<lambda>tb.
       (Inr (), if int (entries (active_memtable tb)) \<ge> max_memtable_size r1
                then put_table t (tb\<lparr>immutable_memtable := Some (active_memtable tb),
                                     immutable_tx_ids := Some (active_tx_ids tb),
                                     active_memtable := new_memtable, active_tx_ids := [],
                                     job := Some Submitted\<rparr>) r1
                else r1)))"

text \<open>
  An append that finds the buffer full waits until the writer thread has emptied it; neither append
  raises, so the \<open>except\<close> clauses around them are never entered.
\<close>

definition append_wait :: "env \<Rightarrow> bytes \<Rightarrow> wal \<Rightarrow> nat \<times> wal" where
  "append_wait e b w =
     (case append_to_buffer b w of
        Some x \<Rightarrow> x
      | None \<Rightarrow> (case append_loop [b] (writer_round (stamps e) w) of (txs, w') \<Rightarrow> (hd txs, w')))"

definition append_many_wait :: "env \<Rightarrow> bytes list \<Rightarrow> wal \<Rightarrow> nat list \<times> wal" where
  "append_many_wait e bs w =
     (case append_many_to_buffer bs w of
        Some x \<Rightarrow> x
      | None \<Rightarrow> append_loop bs (writer_round (stamps e) w))"

definition set_internal :: "env \<Rightarrow> pystr \<Rightarrow> pystr \<Rightarrow> pyval \<Rightarrow> router \<Rightarrow> (router, unit) step_result" where
  "set_internal e t key v r =
     (if t = [] \<or> key = [] then (Inl ValueError, r)
      else case pack_kv key v of
        Inl err \<Rightarrow> (Inl err, r)
      | Inr packed \<Rightarrow>
          bind_step (get_table_state e t r) (\<lambda>_ r1. on_table t r1 (\<lambda>tb.
            case append_wait e packed (rwal r1) of
              (tx, w) \<Rightarrow>
                let r2 = r1\<lparr>rwal := w\<rparr>
                in case memtable_insert key packed (active_memtable tb) of
                     (Inl _, m) \<Rightarrow> (Inl RouterError, put_table t (tb\<lparr>active_memtable := m\<rparr>) r2)
                   | (Inr _, m) \<Rightarrow>
                       bind_step (cache_put (t, key) v
                           (put_table t (tb\<lparr>active_memtable := m, active_tx_ids := active_tx_ids tb @ [tx]\<rparr>) r2))
                         (\<lambda>_ r3. if int (entries m) \<ge> max_memtable_size r3 then trigger_flush e t r3 else (Inr (), r3)))))"

fun pack_all :: "(pystr \<times> pyval) list \<Rightarrow> (pystr \<times> bytes) list result" where
  "pack_all [] = Inr []"
| "pack_all ((key, v) # kvs) =
     bind_result (pack_kv key v) (\<lambda>b. bind_result (pack_all kvs) (\<lambda>bs. Inr ((key, b) # bs)))"

text \<open>The insert loop of \<open>_set_many_internal\<close>; any exception becomes a \<open>RouterError\<close>.\<close>

fun insert_many :: "pystr \<Rightarrow> (pystr \<times> bytes) list \<Rightarrow> (pystr \<times> pyval) list \<Rightarrow> router \<Rightarrow> (router, unit) step_result" where
  "insert_many t [] kvs r = (Inr (), r)"
| "insert_many t ((key, packed) # ps) kvs r =
     on_table t r (\<lambda>tb.
       case memtable_insert key packed (active_memtable tb) of
         (Inl _, m) \<Rightarrow> (Inl RouterError, put_table t (tb\<lparr>active_memtable := m\<rparr>) r)
       | (Inr _, m) \<Rightarrow>
           (case dget kvs key of
              None \<Rightarrow> (Inl RouterError, put_table t (tb\<lparr>active_memtable := m\<rparr>) r)
            | Some v \<Rightarrow>
                (case cache_put (t, key) v (put_table t (tb\<lparr>active_memtable := m\<rparr>) r) of
                   (Inl _, r1) \<Rightarrow> (Inl RouterError, r1)
                 | (Inr _, r1) \<Rightarrow> insert_many t ps kvs r1)))"

definition set_many_internal :: "env \<Rightarrow> pystr \<Rightarrow> (pystr \<times> pyval) list \<Rightarrow> router \<Rightarrow> (router, unit) step_result" where
  "set_many_internal e t kvs r =
     (case pack_all kvs of
        Inl err \<Rightarrow> (Inl err, r)
      | Inr ps \<Rightarrow>
          (case append_many_wait e (map snd ps) (rwal r) of
             (txs, w) \<Rightarrow>
               bind_step (get_table_state e t (r\<lparr>rwal := w\<rparr>)) (\<lambda>_ r1.
               bind_step (insert_many t ps kvs r1) (\<lambda>_ r2. on_table t r2 (\<lambda>tb.
                 let r3 = put_table t (tb\<lparr>active_tx_ids := active_tx_ids tb @ txs\<rparr>) r2
                 in if int (entries (active_memtable tb)) \<ge> max_memtable_size r3
                    then trigger_flush e t r3 else (Inr (), r3))))))"

definition set_many :: "env \<Rightarrow> pystr \<Rightarrow> (pystr \<times> pyval) list \<Rightarrow> router \<Rightarrow> (router, unit) step_result" where
  "set_many e t kvs r = (if t = [] \<or> kvs = [] then (Inl ValueError, r) else set_many_internal e t kvs r)"

subsection \<open>Reading\<close>

definition memtable_value :: "pystr \<Rightarrow> (pystr, bytes) memtable \<Rightarrow> pyval result" where
  "memtable_value key m =
     bind_result (memtable_search key m) (\<lambda>b. case b of
       None \<Rightarrow> Inr PyNone
     | Some packed \<Rightarrow> bind_result (unpack_kv packed) (\<lambda>(_, v). Inr v))"

definition immutable_contains :: "pystr \<Rightarrow> table \<Rightarrow> bool result" where
  "immutable_contains key tb =
     (case immutable_memtable tb of None \<Rightarrow> Inr False | Some m \<Rightarrow> memtable_contains key m)"

definition cache_found :: "pystr \<times> pystr \<Rightarrow> pyval \<Rightarrow> router \<Rightarrow> (router, pyval) step_result" where
  "cache_found k v r =
     (if v = PyNone then (Inr v, r) else bind_step (cache_put k v r) (\<lambda>_ r1. (Inr v, r1)))"

definition get_internal :: "env \<Rightarrow> pystr \<Rightarrow> pystr \<Rightarrow> router \<Rightarrow> (router, pyval) step_result" where
  "get_internal e t key r =
     (if t = [] \<or> key = [] then (Inl ValueError, r)
      else bind_step (cache_get (t, key) r) (\<lambda>c r1.
        if c \<noteq> PyNone then (Inr c, r1)
        else bind_step (get_table_state e t r1) (\<lambda>_ r2. on_table t r2 (\<lambda>tb.
          case memtable_contains key (active_memtable tb) of
            Inl err \<Rightarrow> (Inl err, r2)
          | Inr True \<Rightarrow>
              (case memtable_value key (active_memtable tb) of
                 Inl err \<Rightarrow> (Inl err, r2)
               | Inr v \<Rightarrow> bind_step (cache_put (t, key) v r2) (\<lambda>_ r3. (Inr v, r3)))
          | Inr False \<Rightarrow>
              (case immutable_contains key tb of
                 Inl err \<Rightarrow> (Inl err, r2)
               | Inr True \<Rightarrow>
                   (case memtable_value key (the (immutable_memtable tb)) of
                      Inl err \<Rightarrow> (Inl err, r2)
                    | Inr v \<Rightarrow> cache_found (t, key) v r2)
               | Inr False \<Rightarrow>
                   bind_step (read_from_disk e t key r2) (\<lambda>v r3. cache_found (t, key) v r3))))))"

definition get_raw_manifest :: "env \<Rightarrow> pystr \<Rightarrow> pystr \<Rightarrow> router \<Rightarrow> (router, pyval) step_result" where
  "get_raw_manifest e t key r =
     bind_step (get_table_state e t r) (\<lambda>_ r1. on_table t r1 (\<lambda>tb.
       let unpacked = (\<lambda>m. case memtable_search key m of
             Inl err \<Rightarrow> (Inl err, r1)
           | Inr None \<Rightarrow> (Inr PyNone, r1)
           | Inr (Some b) \<Rightarrow> (case unpack_kv b of Inl _ \<Rightarrow> (Inr PyNone, r1) | Inr (_, v) \<Rightarrow> (Inr v, r1)))
       in case memtable_contains key (active_memtable tb) of
            Inl err \<Rightarrow> (Inl err, r1)
          | Inr True \<Rightarrow> unpacked (active_memtable tb)
          | Inr False \<Rightarrow>
              (case immutable_contains key tb of
                 Inl err \<Rightarrow> (Inl err, r1)
               | Inr True \<Rightarrow> unpacked (the (immutable_memtable tb))
               | Inr False \<Rightarrow> read_from_disk e t key r1)))"

subsection \<open>Values larger than a page\<close>

text \<open>\<open>chunk_vals\<close> to the keys of the chunks from \<open>i\<close> on, stopping at the first exception.\<close>

fun set_chunks :: "env \<Rightarrow> pystr \<Rightarrow> pystr \<Rightarrow> nat \<Rightarrow> pyval list \<Rightarrow> router \<Rightarrow> (router, unit) step_result" where
  "set_chunks e t key i [] r = (Inr (), r)"
| "set_chunks e t key i (v # vs) r =
     bind_step (set_internal e t (chunk_key key i) v r) (\<lambda>_ r1. set_chunks e t key (Suc i) vs r1)"

text \<open>Overwriting the chunks of an old large value with \<open>None\<close>; every exception ends it silently.\<close>

definition cleanup_chunks :: "env \<Rightarrow> pystr \<Rightarrow> pystr \<Rightarrow> router \<Rightarrow> router" where
  "cleanup_chunks e t key r =
     (case get_raw_manifest e t key r of
        (Inl _, r1) \<Rightarrow> r1
      | (Inr old, r1) \<Rightarrow>
          if is_manifest old
          then (case num_chunks old of
                  Inl _ \<Rightarrow> r1
                | Inr n \<Rightarrow> snd (set_chunks e t key 0 (replicate n PyNone) r1))
          else r1)"

definition set_large :: "env \<Rightarrow> pystr \<Rightarrow> pystr \<Rightarrow> pyval \<Rightarrow> bytes \<Rightarrow> router \<Rightarrow> (router, unit) step_result" where
  "set_large e t key v vb r =
     (let chunks = split_chunks (compress e vb)
      in bind_step (set_chunks e t key 0 (map chunk_text chunks) (cleanup_chunks e t key r)) (\<lambda>_ r1.
         bind_step (set_internal e t key (make_manifest (length chunks) (length vb)) r1) (\<lambda>_ r2.
           cache_put (t, key) v r2)))"

text \<open>A large value whose chunking raises is written as it is, without the cleanup.\<close>

definition router_set :: "env \<Rightarrow> pystr \<Rightarrow> pystr \<Rightarrow> pyval \<Rightarrow> router \<Rightarrow> (router, unit) step_result" where
  "router_set e t key v r =
     (if t = [] \<or> key = [] then (Inl ValueError, r)
      else if is_chunk_key key then set_internal e t key v r
      else if v = PyNone then set_internal e t key v (cleanup_chunks e t key r)
      else case bind_result (dumps v) utf8_encode of
             Inl _ \<Rightarrow> set_internal e t key v (cleanup_chunks e t key r)
           | Inr vb \<Rightarrow>
               if length vb > 2000
               then (case set_large e t key v vb r of
                       (Inr _, r1) \<Rightarrow> (Inr (), r1)
                     | (Inl _, r1) \<Rightarrow> set_internal e t key v r1)
               else set_internal e t key v (cleanup_chunks e t key r))"

text \<open>The joined chunks, \<open>None\<close> if one is missing.\<close>

fun read_chunks :: "env \<Rightarrow> pystr \<Rightarrow> pystr \<Rightarrow> nat \<Rightarrow> nat \<Rightarrow> router \<Rightarrow> (router, bytes option) step_result" where
  "read_chunks e t key i 0 r = (Inr (Some []), r)"
| "read_chunks e t key i (Suc n) r =
     bind_step (get_internal e t (chunk_key key i) r) (\<lambda>v r1.
       if v = PyNone then (Inr None, r1)
       else case chunk_bytes v of
              Inl err \<Rightarrow> (Inl err, r1)
            | Inr b \<Rightarrow> bind_step (read_chunks e t key (Suc i) n r1) (\<lambda>rest r2.
                (Inr (map_option (\<lambda>bs. b @ bs) rest), r2)))"

definition rebuild :: "env \<Rightarrow> pystr \<Rightarrow> pystr \<Rightarrow> pyval \<Rightarrow> router \<Rightarrow> (router, pyval) step_result" where
  "rebuild e t key v r =
     (case num_chunks v of
        Inl err \<Rightarrow> (Inl err, r)
      | Inr n \<Rightarrow> bind_step (read_chunks e t key 0 n r) (\<lambda>d r1.
          case d of
            None \<Rightarrow> (Inr PyNone, r1)
          | Some cb \<Rightarrow>
              (case bind_result (if is_compressed v then decompress e cb else Inr cb) (\<lambda>ob.
                      bind_result (utf8_decode ob) loads) of
                 Inl err \<Rightarrow> (Inl err, r1)
               | Inr x \<Rightarrow> bind_step (cache_put (t, key) x r1) (\<lambda>_ r2. (Inr x, r2)))))"

definition router_get :: "env \<Rightarrow> pystr \<Rightarrow> pystr \<Rightarrow> router \<Rightarrow> (router, pyval) step_result" where
  "router_get e t key r =
     (if t = [] \<or> key = [] then (Inl ValueError, r)
      else bind_step (get_internal e t key r) (\<lambda>v r1.
        if is_manifest v
        then (case rebuild e t key v r1 of (Inl _, r2) \<Rightarrow> (Inr PyNone, r2) | (Inr x, r2) \<Rightarrow> (Inr x, r2))
        else (Inr v, r1)))"

subsection \<open>Shutdown\<close>

definition close_handler :: "pystr \<Rightarrow> router \<Rightarrow> router" where
  "close_handler t r =
     (case dget (tables r) t of
        None \<Rightarrow> r
      | Some tb \<Rightarrow> put_table t (tb\<lparr>handler_of := map_option close_table (handler_of tb)\<rparr>) r)"

definition shutdown_table :: "env \<Rightarrow> pystr \<Rightarrow> router \<Rightarrow> router" where
  "shutdown_table e t r = close_handler t (snd (flush_memtable_to_disk e t r))"

text \<open>\<open>waiting\<close> is where the log's writer thread stands; \<open>None\<close> is a shutdown that never returns.\<close>

definition router_shutdown :: "env \<Rightarrow> bool \<Rightarrow> router \<Rightarrow> router option" where
  "router_shutdown e waiting r =
     (let r1 = fold (\<lambda>t s. snd (flush_wait e t s)) (dkeys (tables r)) r;
          r2 = fold (shutdown_table e) (dkeys (tables r1)) r1
      in case wal_shutdown waiting (stamps e) (rwal r2) of
           None \<Rightarrow> None
         | Some w \<Rightarrow> Some (r2\<lparr>rwal := w, rcache := lfu_clear (rcache r2)\<rparr>))"

end
