(* ===== verification/Router_Disk.thy ===== *)
theory Router_Disk
  imports Router
begin

text \<open>
  The router on one table file: what its index and its page metadata mean. The pages are seen as one
  list of slots in scan order (\<open>slot_list\<close>); the index is the scan of that list. Reading a key through
  the index gives the last record written for it, a flush appends its records to the list, and the
  index that a restart computes from the pages is the one the flushes maintained.
\<close>

subsection \<open>Page metadata\<close>

definition slot_meta :: "bytes option \<Rightarrow> meta" where
  "slot_meta payload =
     (case payload of None \<Rightarrow> None | Some b \<Rightarrow> (case unpack_kv b of Inl _ \<Rightarrow> None | Inr kv \<Rightarrow> Some kv))"

definition page_meta_ok :: "meta page \<Rightarrow> bool" where
  "page_meta_ok p \<longleftrightarrow> (\<forall>sid m. dget (cached_metadata p) sid = Some m \<longrightarrow>
     sid < length (slots p) \<and> m = slot_meta (contents p ! sid))"

definition disk_inv :: "meta handler \<Rightarrow> bool" where
  "disk_inv h \<longleftrightarrow> handler_inv h \<and> (\<forall>pid p. dget (page_cache h) pid = Some p \<longrightarrow> page_meta_ok p)"

lemma disk_inv_handler [dest]: "disk_inv h \<Longrightarrow> handler_inv h"
  by (simp add: disk_inv_def)

lemma page_meta_ok_Nil [simp]: "cached_metadata p = [] \<Longrightarrow> page_meta_ok p"
  by (simp add: page_meta_ok_def)

lemma same_file:
  "tbl_file h' = tbl_file h \<Longrightarrow> page_count h' = page_count h"
  "tbl_file h' = tbl_file h \<Longrightarrow> table_view h' = table_view h"
  by (simp_all add: page_count_def table_view_def block_at_def)

lemma from_bytes_metadata: "from_bytes raw = Inr p \<Longrightarrow> cached_metadata p = []"
  by (auto simp: from_bytes_def pager_init_def Let_def split: if_splits)

lemma read_page_disk:
  assumes inv: "disk_inv h" and i: "i < page_count h"
  obtains p h' where "read_page (int i) h = (Inr p, h')" "page_wf p" "page_id p = int i"
    "contents p = fst (table_view h ! i)" "free_space p = snd (table_view h ! i)" "page_meta_ok p"
    "disk_inv h'" "tbl_file h' = tbl_file h" "dget (page_cache h') (int i) = Some p"
proof -
  have hi: "handler_inv h" using inv by blast
  obtain p h' where p: "read_page (int i) h = (Inr p, h')" "page_wf p" "page_id p = int i"
    "(contents p, free_space p) = table_view h ! i" "handler_inv h'" "tbl_file h' = tbl_file h"
    "dget (page_cache h') (int i) = Some p"
    "\<forall>j. j \<noteq> int i \<longrightarrow> dget (page_cache h') j = dget (page_cache h) j"
    using read_page_ok [OF hi i] by blast
  have meta: "page_meta_ok p"
  proof (cases "dget (page_cache h) (int i)")
    case (Some q)
    then have "q = p" using p(1) hi by (auto simp: read_page_def handler_inv_def split: if_splits)
    then show ?thesis using Some inv by (auto simp: disk_inv_def)
  next
    case None
    then obtain raw where "from_bytes raw = Inr p"
      using p(1) by (auto simp: read_page_def Let_def split: if_splits sum.splits)
    then show ?thesis by (simp add: from_bytes_metadata)
  qed
  have "disk_inv h'"
    unfolding disk_inv_def
  proof (intro conjI allI impI)
    fix j q assume "dget (page_cache h') j = Some q"
    then show "page_meta_ok q" using p(7,8) meta inv by (cases "j = int i") (auto simp: disk_inv_def)
  qed (rule p(5))
  moreover have "contents p = fst (table_view h ! i)" "free_space p = snd (table_view h ! i)"
    using p(4) by (metis fst_conv snd_conv)+
  ultimately show thesis using that p meta by blast
qed

lemma page_metadata_irrelevant:
  "page_image (p\<lparr>cached_metadata := M\<rparr>) = page_image p" "page_wf (p\<lparr>cached_metadata := M\<rparr>) = page_wf p"
  "contents (p\<lparr>cached_metadata := M\<rparr>) = contents p"
  by (simp_all add: page_image_def header_bytes_def page_body_def page_checksum_def page_wf_def contents_def)

lemma disk_inv_meta:
  assumes inv: "disk_inv h" and p: "dget (page_cache h) (int i) = Some p"
    and m: "page_meta_ok (p\<lparr>cached_metadata := M\<rparr>)"
  shows "disk_inv (page_changed (int i) (p\<lparr>cached_metadata := M\<rparr>) h)"
proof -
  have hi: "handler_inv h" using inv by blast
  note c = cached_page [OF hi p]
  have "handler_inv (page_changed (int i) (p\<lparr>cached_metadata := M\<rparr>) h)"
    using hi c by (auto simp: handler_inv_def cache_ok_def page_metadata_irrelevant)
  then show ?thesis using inv m by (auto simp: disk_inv_def)
qed

lemma page_slot_record_ok:
  assumes m: "page_meta_ok p" and s: "sid < length (slots p)"
  obtains M where "page_slot_record sid p = (Inr (slot_meta (contents p ! sid)), p\<lparr>cached_metadata := M\<rparr>)"
    "page_meta_ok (p\<lparr>cached_metadata := M\<rparr>)"
proof (cases "dget (cached_metadata p) sid")
  case None
  let ?M = "dset (cached_metadata p) sid (slot_meta (contents p ! sid))"
  have "get_record (int sid) p = Inr (contents p ! sid)" using s by (simp add: get_record_contents)
  then have "page_slot_record sid p = (Inr (slot_meta (contents p ! sid)), p\<lparr>cached_metadata := ?M\<rparr>)"
    using None by (simp add: page_slot_record_def slot_meta_def Let_def)
  moreover have "page_meta_ok (p\<lparr>cached_metadata := ?M\<rparr>)"
    using m s by (auto simp: page_meta_ok_def page_metadata_irrelevant)
  ultimately show thesis by (rule that)
next
  case (Some x)
  then have "x = slot_meta (contents p ! sid)" using m by (simp add: page_meta_ok_def)
  then show thesis using Some m by (intro that [of "cached_metadata p"]) (simp_all add: page_slot_record_def)
qed

lemma lookup_slot_ok:
  assumes inv: "disk_inv h" and i: "i < page_count h" and s: "sid < length (fst (table_view h ! i))"
  shows "\<exists>h'. lookup_slot i sid h = (Inr (slot_meta (fst (table_view h ! i) ! sid)), h') \<and> disk_inv h' \<and>
    tbl_file h' = tbl_file h"
proof -
  obtain p h' where p: "read_page (int i) h = (Inr p, h')" "page_wf p" "page_id p = int i"
    "contents p = fst (table_view h ! i)" "free_space p = snd (table_view h ! i)" "page_meta_ok p"
    "disk_inv h'" "tbl_file h' = tbl_file h" "dget (page_cache h') (int i) = Some p"
    by (rule read_page_disk [OF inv i])
  have "sid < length (slots p)" using s p(4) by (metis length_contents)
  then obtain M where M: "page_slot_record sid p = (Inr (slot_meta (contents p ! sid)), p\<lparr>cached_metadata := M\<rparr>)"
    "page_meta_ok (p\<lparr>cached_metadata := M\<rparr>)" by (rule page_slot_record_ok [OF p(6)])
  from disk_inv_meta [OF p(7,9) M(2)] p M(1) show ?thesis by (simp add: lookup_slot_def)
qed

subsection \<open>The slots of a table in scan order\<close>

type_synonym page_view = "(bytes option list \<times> int) list"

definition page_slots :: "nat \<Rightarrow> bytes option list \<Rightarrow> (nat \<times> nat \<times> bytes option) list" where
  "page_slots pid rs = map (\<lambda>sid. (pid, sid, rs ! sid)) [0 ..< length rs]"

definition slot_list :: "page_view \<Rightarrow> (nat \<times> nat \<times> bytes option) list" where
  "slot_list view = concat (map (\<lambda>pid. page_slots pid (fst (view ! pid))) [0 ..< length view])"

fun index_entry :: "nat \<times> nat \<times> bytes option \<Rightarrow> page_index \<Rightarrow> page_index" where
  "index_entry (pid, sid, None) ix = ix"
| "index_entry (pid, sid, Some b) ix = index_payload pid sid b ix"

definition scan_index :: "page_view \<Rightarrow> page_index" where
  "scan_index view = fold index_entry (slot_list view) []"

lemma page_slots_snoc: "page_slots pid (rs @ [x]) = page_slots pid rs @ [(pid, length rs, x)]"
  by (auto simp: page_slots_def nth_append)

lemma slot_list_new_page: "slot_list (view @ [([], n)]) = slot_list view"
  by (auto simp: slot_list_def nth_append page_slots_def intro!: arg_cong [of _ _ concat])

lemma slot_list_append:
  assumes "view \<noteq> []" and "length view = Suc n"
  shows "slot_list (view[n := (fst (view ! n) @ [x], m)]) = slot_list view @ [(n, length (fst (view ! n)), x)]"
proof -
  have "map (\<lambda>pid. page_slots pid (fst (view[n := (fst (view ! n) @ [x], m)] ! pid))) [0 ..< n] =
      map (\<lambda>pid. page_slots pid (fst (view ! pid))) [0 ..< n]" by simp
  from arg_cong [OF this, of concat] show ?thesis using assms(2) by (simp add: slot_list_def page_slots_snoc del: map_eq_conv)
qed

lemma mem_slot_list:
  "(pid, sid, x) \<in> set (slot_list view) \<longleftrightarrow>
     pid < length view \<and> sid < length (fst (view ! pid)) \<and> x = fst (view ! pid) ! sid"
  by (force simp: slot_list_def page_slots_def)

lemma scan_index_append: "slot_list v' = slot_list v @ es \<Longrightarrow> scan_index v' = fold index_entry es (scan_index v)"
  by (simp add: scan_index_def)

lemma fold_index_slot:
  assumes "contents p = rs"
  shows "fold (index_slot pid p) [0 ..< length (slots p)] ix = fold index_entry (page_slots pid rs) ix"
proof -
  have n: "length (slots p) = length rs" using assms by (metis length_contents)
  have "fold (index_slot pid p) is ix = fold index_entry (map (\<lambda>sid. (pid, sid, rs ! sid)) is) ix"
    if "\<forall>i \<in> set is. i < length rs" for "is"
    using that
  proof (induction "is" arbitrary: ix)
    case (Cons i "is")
    have "get_record (int i) p = Inr (rs ! i)" using Cons.prems assms by (simp add: get_record_contents)
    then have "index_slot pid p i ix = index_entry (pid, i, rs ! i) ix"
      by (cases "rs ! i") (simp_all add: index_slot_def)
    then show ?case using Cons by simp
  qed simp
  from this [of "[0 ..< length rs]"] show ?thesis by (simp add: n page_slots_def)
qed

lemma fold_index_pages:
  assumes "disk_inv h" and "\<forall>pid \<in> set pids. pid < page_count h"
  shows "\<exists>h'. fold index_page pids (h, ix) =
      (h', fold index_entry (concat (map (\<lambda>pid. page_slots pid (fst (table_view h ! pid))) pids)) ix) \<and>
    disk_inv h' \<and> tbl_file h' = tbl_file h"
  using assms
proof (induction pids arbitrary: h ix)
  case (Cons pid pids)
  have "pid < page_count h" using Cons.prems(2) by simp
  then obtain p h1 where p: "read_page (int pid) h = (Inr p, h1)" "page_wf p" "page_id p = int pid"
    "contents p = fst (table_view h ! pid)" "free_space p = snd (table_view h ! pid)" "page_meta_ok p"
    "disk_inv h1" "tbl_file h1 = tbl_file h" "dget (page_cache h1) (int pid) = Some p"
    by (rule read_page_disk [OF Cons.prems(1)])
  let ?ix = "fold index_entry (page_slots pid (fst (table_view h ! pid))) ix"
  have "index_page pid (h, ix) = (h1, ?ix)"
    using p(1) fold_index_slot [OF p(4)] by (simp add: index_page_def)
  moreover obtain h' where "fold index_page pids (h1, ?ix) =
      (h', fold index_entry (concat (map (\<lambda>pid. page_slots pid (fst (table_view h1 ! pid))) pids)) ?ix)"
      "disk_inv h'" "tbl_file h' = tbl_file h1"
    using Cons.IH [OF p(7), of ?ix] Cons.prems(2) same_file(1) [OF p(8)] by auto
  ultimately show ?case using p(8) same_file(2) [OF p(8)] by simp
qed simp

lemma init_disk_index_ok:
  assumes "disk_inv h"
  shows "\<exists>h'. init_disk_index h = (Inr (scan_index (table_view h)), h') \<and> disk_inv h' \<and> tbl_file h' = tbl_file h"
proof -
  have "total_pages h = Inr (page_count h)"
    using assms by (auto simp: total_pages_def require_open_def disk_inv_def handler_inv_def)
  with fold_index_pages [OF assms, of "[0 ..< page_count h]" "[]"] show ?thesis
    by (auto simp: init_disk_index_def scan_index_def slot_list_def)
qed

subsection \<open>What the index finds\<close>

definition all_packed :: "(nat \<times> nat \<times> bytes option) list \<Rightarrow> bool" where
  "all_packed es \<longleftrightarrow> (\<forall>(pid, sid, x) \<in> set es. \<exists>k v b. x = Some b \<and> packs k v b)"

fun write_value :: "nat \<times> nat \<times> bytes option \<Rightarrow> (pystr \<Rightarrow> pyval) \<Rightarrow> pystr \<Rightarrow> pyval" where
  "write_value (pid, sid, None) D = D"
| "write_value (pid, sid, Some b) D = (case unpack_kv b of Inl _ \<Rightarrow> D | Inr (k, v) \<Rightarrow> D(k := v))"

text \<open>The value that the slots hold for every key: the last one written, \<open>None\<close> if there is none.\<close>

definition disk_value :: "(nat \<times> nat \<times> bytes option) list \<Rightarrow> pystr \<Rightarrow> pyval" where
  "disk_value es = fold write_value es (\<lambda>_. PyNone)"

lemma index_payload_packed:
  assumes p: "packs k v b"
  shows "index_payload pid sid b ix = (if v = PyNone then ddel ix k else dset ix k (pid, sid))"
proof -
  obtain kb where k: "utf8_encode k = Inr kb" by (rule packsE [OF p])
  have "length b \<ge> 2" "be_val (slice b 0 2) = length kb" "slice b 2 (2 + length kb) = kb"
    using packed_fields [OF p k] by simp_all
  with deletion_packed [OF p k] utf8_roundtrip [OF k] show ?thesis by (simp add: index_payload_def)
qed

lemma index_entry_packed:
  "packs k v b \<Longrightarrow> index_entry (pid, sid, Some b) ix = (if v = PyNone then ddel ix k else dset ix k (pid, sid))"
  "packs k v b \<Longrightarrow> write_value (pid, sid, Some b) D = D(k := v)"
  by (simp_all add: index_payload_packed unpack_packed)

lemma index_entry_cong: "dget ix = dget ix' \<Longrightarrow> dget (index_entry e ix) = dget (index_entry e ix')"
  by (cases "(e, ix)" rule: index_entry.cases) (auto simp: index_payload_def Let_def fun_eq_iff split: sum.splits)

lemma fold_index_cong: "dget ix = dget ix' \<Longrightarrow> dget (fold index_entry es ix) = dget (fold index_entry es ix')"
proof (induction es arbitrary: ix ix')
  case (Cons e es)
  show ?case using Cons.IH [OF index_entry_cong [OF Cons.prems, of e]] by simp
qed simp

lemma index_finds:
  assumes "all_packed es"
  shows "case dget (fold index_entry es []) k of
      None \<Rightarrow> disk_value es k = PyNone
    | Some (pid, sid) \<Rightarrow> disk_value es k \<noteq> PyNone \<and> (\<exists>b. (pid, sid, Some b) \<in> set es \<and> packs k (disk_value es k) b)"
  using assms
proof (induction es rule: rev_induct)
  case Nil
  then show ?case by (simp add: disk_value_def)
next
  case (snoc e es)
  obtain pid sid k' v b where e: "e = (pid, sid, Some b)" "packs k' v b"
    using snoc.prems by (cases e) (auto simp: all_packed_def)
  have "all_packed es" using snoc.prems by (simp add: all_packed_def)
  note IH = snoc.IH [OF this]
  have i: "fold index_entry (es @ [e]) [] =
      (if v = PyNone then ddel (fold index_entry es []) k' else dset (fold index_entry es []) k' (pid, sid))"
    using e by (simp add: index_entry_packed del: index_entry.simps)
  have d: "disk_value (es @ [e]) = (disk_value es)(k' := v)"
    using e by (simp add: disk_value_def index_entry_packed(2) del: write_value.simps)
  show ?case
  proof (cases "k = k'")
    case True
    then show ?thesis using i d e by (cases "v = PyNone") auto
  next
    case False
    then have "dget (fold index_entry (es @ [e]) []) k = dget (fold index_entry es []) k" using i by simp
    with IH False d show ?thesis by (cases "dget (fold index_entry es []) k") auto
  qed
qed

text \<open>Reading through the index of a prefix of the slots: while a flush is running, the index lags.\<close>

lemma read_disk_ok:
  assumes inv: "disk_inv h" and es: "slot_list (table_view h) = es0 @ es1" and pk: "all_packed es0"
    and ix: "dget ix = dget (fold index_entry es0 [])"
  obtains h' where "read_disk key ix h = (Inr (disk_value es0 key), h')" "disk_inv h'" "tbl_file h' = tbl_file h"
proof -
  note f = index_finds [OF pk, of key, folded ix]
  show thesis
  proof (cases "dget ix key")
    case None
    with f show thesis using that inv by (simp add: read_disk_def)
  next
    case (Some loc)
    obtain pid sid where l: "loc = (pid, sid)" by fastforce
    with f Some obtain b where b: "(pid, sid, Some b) \<in> set es0" "packs key (disk_value es0 key) b" by auto
    then have "(pid, sid, Some b) \<in> set (slot_list (table_view h))" by (simp add: es)
    then have i: "pid < page_count h" "sid < length (fst (table_view h ! pid))"
      "fst (table_view h ! pid) ! sid = Some b"
      unfolding mem_slot_list by (simp_all add: eq_commute)
    have "slot_meta (fst (table_view h ! pid) ! sid) = Some (key, disk_value es0 key)"
      using i(3) unpack_packed [OF b(2)] by (simp add: slot_meta_def)
    with lookup_slot_ok [OF inv i(1,2)] obtain h' where
      "lookup_slot pid sid h = (Inr (Some (key, disk_value es0 key)), h')" "disk_inv h'" "tbl_file h' = tbl_file h"
      by auto
    then show thesis using that Some l by (simp add: read_disk_def)
  qed
qed

subsection \<open>The flush loop\<close>

text \<open>
  \<open>fl_inv s V\<close>: \<open>V\<close> are the pages as they will be once the current page is written; the handler is a
  good one of which at most the cached current page is ahead of the file.
\<close>

definition fl_inv :: "flush_state \<Rightarrow> page_view \<Rightarrow> bool" where
  "fl_inv s V \<longleftrightarrow> (\<exists>h. disk_inv h \<and> page_count h = Suc (fl_pid s) \<and>
     fl_handler s = (if fl_dirty s then page_changed (int (fl_pid s)) (fl_page s) h else h) \<and>
     page_wf (fl_page s) \<and> page_id (fl_page s) = int (fl_pid s) \<and> page_meta_ok (fl_page s) \<and>
     V = (table_view h)[fl_pid s := (contents (fl_page s), free_space (fl_page s))] \<and>
     (\<not> fl_dirty s \<longrightarrow> V = table_view h))"

declare dset_dset [simp]

lemma page_changed_twice [simp]: "page_changed i q (page_changed i p h) = page_changed i q h"
  by (simp add: page_changed_def)

lemma to_bytes_metadata: "to_bytes p = (x, p') \<Longrightarrow> cached_metadata p' = cached_metadata p"
  by (auto simp: to_bytes_def Let_def split: sum.splits)

lemma write_image_cache:
  assumes "write_image p pid h = (x, h')"
  shows "j \<noteq> pid \<Longrightarrow> dget (page_cache h') j = dget (page_cache h) j"
    and "\<exists>q. dget (page_cache h') pid = Some q \<and> cached_metadata q = cached_metadata p"
  using assms to_bytes_metadata [of p] by (auto simp: write_image_def Let_def split: prod.splits sum.splits)

lemma write_page_disk:
  assumes inv: "disk_inv h" and wf: "page_wf p" and pid: "page_id p = int i" and m: "page_meta_ok p"
    and i: "i < page_count h" and h2: "h2 = page_changed (int i) q h"
  obtains h' where "write_page p h2 = (Inr (), h')" "disk_inv h'"
    "table_view h' = (table_view h)[i := (contents p, free_space p)]" "page_count h' = page_count h"
proof -
  have hi: "handler_inv h" using inv by blast
  obtain h' where h': "write_page p h2 = (Inr (), h')" "handler_inv h'" "page_count h' = page_count h"
    "table_view h' = (table_view h)[i := (contents p, free_space p)]"
    "dget (page_cache h') (int i) = Some (p\<lparr>page_data := page_image p\<rparr>)"
    using write_page_ok [OF hi wf pid i, of h2 q] h2 by blast
  have "is_open h2" "int (page_count h2) > page_id p" using hi h2 pid i by (auto simp: handler_inv_def)
  then have w: "write_image p (int i) h2 = (Inr (), h')" using h'(1) pid by (simp add: write_page_def)
  have "page_meta_ok (p\<lparr>page_data := page_image p\<rparr>)"
    using m contents_image [OF wf] by (simp add: page_meta_ok_def)
  then have "disk_inv h'"
    using h'(2,5) inv write_image_cache(1) [OF w] h2 unfolding disk_inv_def
    by (metis dget_dset option.inject page_changed_simps(7))
  with that h' show thesis by blast
qed

lemma flush_write_ok:
  assumes "fl_inv s V"
  obtains h' where "flush_write s = (Inr (), s\<lparr>fl_handler := h'\<rparr>)" "disk_inv h'" "table_view h' = V"
    "page_count h' = Suc (fl_pid s)"
proof -
  obtain h where h: "disk_inv h" "page_count h = Suc (fl_pid s)"
    "fl_handler s = (if fl_dirty s then page_changed (int (fl_pid s)) (fl_page s) h else h)"
    "page_wf (fl_page s)" "page_id (fl_page s) = int (fl_pid s)" "page_meta_ok (fl_page s)"
    "V = (table_view h)[fl_pid s := (contents (fl_page s), free_space (fl_page s))]"
    "\<not> fl_dirty s \<longrightarrow> V = table_view h"
    using assms unfolding fl_inv_def by blast
  show thesis
  proof (cases "fl_dirty s")
    case True
    have "fl_pid s < page_count h" using h(2) by simp
    then obtain h' where "write_page (fl_page s) (fl_handler s) = (Inr (), h')" "disk_inv h'"
      "table_view h' = (table_view h)[fl_pid s := (contents (fl_page s), free_space (fl_page s))]"
      "page_count h' = page_count h"
      using write_page_disk [OF h(1,4,5,6), of "fl_handler s" "fl_page s"] True h(3) by auto
    then show thesis using that [of h'] True h(2,7) by (simp add: flush_write_def)
  next
    case False
    then show thesis using that [of h] h by (simp add: flush_write_def)
  qed
qed

lemma allocate_page_disk:
  assumes inv: "disk_inv h" and n: "page_count h < 2 ^ 32"
  obtains h' where "allocate_page h = (Inr (page_count h), h')" "disk_inv h'"
    "page_count h' = Suc (page_count h)" "table_view h' = table_view h @ [([], 4076)]"
proof -
  have hi: "handler_inv h" using inv by blast
  obtain h' where h': "allocate_page h = (Inr (page_count h), h')" "handler_inv h'"
    "page_count h' = Suc (page_count h)" "table_view h' = table_view h @ [([], 4076)]"
    using allocate_page_ok [OF hi n] by blast
  have "total_pages h = Inr (page_count h)"
    using hi by (simp add: total_pages_def require_open_def handler_inv_def)
  then obtain p where p: "pager_init (int (page_count h)) 0 = Inr p"
      "write_image p (int (page_count h)) h = (Inr (), h')"
    using h'(1) by (auto simp: allocate_page_def split: sum.splits)
  have "cached_metadata p = []" using p(1) by (auto simp: pager_init_def)
  then obtain q where q: "dget (page_cache h') (int (page_count h)) = Some q" "cached_metadata q = []"
    using write_image_cache(2) [OF p(2)] by auto
  have "disk_inv h'"
    unfolding disk_inv_def
  proof (intro conjI allI impI)
    fix j p' assume "dget (page_cache h') j = Some p'"
    then show "page_meta_ok p'"
      using q inv write_image_cache(1) [OF p(2), of j] by (cases "j = int (page_count h)") (auto simp: disk_inv_def)
  qed (rule h'(2))
  with that h' show thesis by blast
qed

lemma fl_inv_fresh:
  assumes inv: "disk_inv h" and n: "page_count h = Suc pid" and h': "read_page (int pid) h = (Inr p, h')"
    and s: "fl_handler s = h'" "fl_pid s = pid" "fl_page s = p" "\<not> fl_dirty s"
  shows "fl_inv s (table_view h)" and "free_space p = snd (table_view h ! pid)"
proof -
  have "pid < page_count h" using n by simp
  then obtain q h2 where q: "read_page (int pid) h = (Inr q, h2)" "page_wf q" "page_id q = int pid"
    "contents q = fst (table_view h ! pid)" "free_space q = snd (table_view h ! pid)" "page_meta_ok q"
    "disk_inv h2" "tbl_file h2 = tbl_file h" "dget (page_cache h2) (int pid) = Some q"
    by (rule read_page_disk [OF inv])
  have eq: "q = p" "h2 = h'" using q(1) h' by simp_all
  show "free_space p = snd (table_view h ! pid)" using q(5) eq by simp
  have "page_count h' = Suc pid" "table_view h' = table_view h" using same_file [OF q(8)] eq n by simp_all
  then show "fl_inv s (table_view h)"
    unfolding fl_inv_def using q(2-7) s eq by (intro exI [of _ h']) simp
qed

lemma next_page_ok:
  assumes inv: "fl_inv s V" and n: "length V < 2 ^ 32"
  obtains s' where "next_page s = (Inr (), s')" "fl_inv s' (V @ [([], 4076)])" "free_space (fl_page s') = 4076"
    "fl_updates s' = fl_updates s" "fl_deletions s' = fl_deletions s"
proof -
  obtain h1 where h1: "flush_write s = (Inr (), s\<lparr>fl_handler := h1\<rparr>)" "disk_inv h1" "table_view h1 = V"
    "page_count h1 = Suc (fl_pid s)" by (rule flush_write_ok [OF inv])
  have len: "length V = page_count h1" using h1(3) by auto
  then have "page_count h1 < 2 ^ 32" using n by simp
  then obtain h2 where h2: "allocate_page h1 = (Inr (page_count h1), h2)" "disk_inv h2"
    "page_count h2 = Suc (page_count h1)" "table_view h2 = V @ [([], 4076)]"
    using allocate_page_disk [OF h1(2)] h1(3) by metis
  have "page_count h1 < page_count h2" using h2(3) by simp
  then obtain p h3 where r: "read_page (int (page_count h1)) h2 = (Inr p, h3)"
    using read_page_disk [OF h2(2)] by metis
  let ?s = "s\<lparr>fl_handler := h3, fl_pid := page_count h1, fl_page := p, fl_dirty := False\<rparr>"
  have "next_page s = (Inr (), ?s)" using h1(1) h2(1) r by (simp add: next_page_def)
  moreover have "fl_inv ?s (V @ [([], 4076)])"
    using fl_inv_fresh(1) [OF h2(2,3) r, of ?s] h2(4) by simp
  moreover have "free_space (fl_page ?s) = 4076"
    using fl_inv_fresh(2) [OF h2(2,3) r, of ?s] h2(4) len by (simp add: nth_append)
  ultimately show thesis using that by simp
qed

lemma fl_invD:
  assumes "fl_inv s V"
  shows "length V = Suc (fl_pid s)" and "V ! fl_pid s = (contents (fl_page s), free_space (fl_page s))"
  using assms by (auto simp: fl_inv_def) (metis length_table_view lessI nth_list_update_eq)

text \<open>How one record changes the two local dictionaries.\<close>

definition note_record :: "pystr \<times> bytes \<Rightarrow> nat \<times> nat \<times> bytes option \<Rightarrow> page_index \<times> pystr list \<Rightarrow> page_index \<times> pystr list"
  where
  "note_record kb loc ud =
     (case (kb, loc, ud) of ((key, b), (pid, sid, _), (u, d)) \<Rightarrow>
        if \<exists>v. packs key v b \<and> v = PyNone then (u, d @ [key]) else (dset u key (pid, sid), d))"

lemma flush_insert_ok:
  assumes inv: "fl_inv s V" and p: "packs key v b" and room: "4 + int (length b) \<le> free_space (fl_page s)"
  obtains s' V' loc where "flush_insert key b s = (Inr (), s')" "fl_inv s' V'" "slot_list V' = slot_list V @ [loc]"
    "snd (snd loc) = Some b" "length V' = length V"
    "(fl_updates s', fl_deletions s') = note_record (key, b) loc (fl_updates s, fl_deletions s)"
proof -
  obtain h where h: "disk_inv h" "page_count h = Suc (fl_pid s)"
    "fl_handler s = (if fl_dirty s then page_changed (int (fl_pid s)) (fl_page s) h else h)"
    "page_wf (fl_page s)" "page_id (fl_page s) = int (fl_pid s)" "page_meta_ok (fl_page s)"
    "V = (table_view h)[fl_pid s := (contents (fl_page s), free_space (fl_page s))]"
    using inv unfolding fl_inv_def by blast
  have ne: "b \<noteq> []" using packed_not_Nil [OF p] .
  obtain q where q: "insert_record b (fl_page s) = (Inr (length (slots (fl_page s))), q)" "page_wf q"
    "contents q = contents (fl_page s) @ [Some b]" "free_space q = free_space (fl_page s) - 4 - int (length b)"
    "cached_metadata q = []" "page_id q = page_id (fl_page s)"
    using insert_record_ok [OF h(4) ne room] by blast
  obtain kb where kb: "utf8_encode key = Inr kb" by (rule packsE [OF p])
  have isdel: "is_deletion (length kb) b \<longleftrightarrow> v = PyNone" by (rule deletion_packed [OF p kb])
  have uniq: "(\<exists>v'. packs key v' b \<and> v' = PyNone) \<longleftrightarrow> v = PyNone" using packed_key p by blast
  let ?V = "V[fl_pid s := (contents q, free_space q)]" and ?loc = "(fl_pid s, length (slots (fl_page s)), Some b)"
  let ?s1 = "s\<lparr>fl_page := q, fl_handler := page_changed (int (fl_pid s)) q (fl_handler s), fl_dirty := True\<rparr>"
  let ?s = "if v = PyNone then ?s1\<lparr>fl_deletions := fl_deletions s @ [key]\<rparr>
      else ?s1\<lparr>fl_updates := dset (fl_updates s) key (fl_pid s, length (slots (fl_page s)))\<rparr>"
  have "flush_insert key b s = (Inr (), ?s)"
    using q(1) kb isdel by (simp add: flush_insert_def)
  moreover have "fl_inv ?s ?V"
    unfolding fl_inv_def using h q by (intro exI [of _ h]) auto
  moreover have "slot_list ?V = slot_list V @ [?loc]"
  proof -
    have "V \<noteq> []" using fl_invD(1) [OF inv] by auto
    from slot_list_append [OF this fl_invD(1) [OF inv], of "Some b" "free_space q"]
    show ?thesis by (simp add: fl_invD(2) [OF inv] q(3))
  qed
  moreover have "(fl_updates ?s, fl_deletions ?s) = note_record (key, b) ?loc (fl_updates s, fl_deletions s)"
    using uniq by (simp add: note_record_def)
  ultimately show thesis using that [of ?s ?V ?loc] by simp
qed

lemma flush_record_ok:
  assumes inv: "fl_inv s V" and p: "packs key v b" and len: "length b \<le> 4072" and n: "length V < 2 ^ 32"
  obtains s' V' loc where "flush_record key b s = (Inr (), s')" "fl_inv s' V'" "slot_list V' = slot_list V @ [loc]"
    "snd (snd loc) = Some b" "length V' \<le> Suc (length V)"
    "(fl_updates s', fl_deletions s') = note_record (key, b) loc (fl_updates s, fl_deletions s)"
proof (cases "4 + int (length b) \<le> free_space (fl_page s)")
  case True
  obtain s' V' loc where "flush_insert key b s = (Inr (), s')" "fl_inv s' V'" "slot_list V' = slot_list V @ [loc]"
    "snd (snd loc) = Some b" "length V' = length V"
    "(fl_updates s', fl_deletions s') = note_record (key, b) loc (fl_updates s, fl_deletions s)"
    by (rule flush_insert_ok [OF inv p True])
  then show thesis using that True by (simp add: flush_record_def has_space_for_def)
next
  case False
  obtain s1 where s1: "next_page s = (Inr (), s1)" "fl_inv s1 (V @ [([], 4076)])" "free_space (fl_page s1) = 4076"
    "fl_updates s1 = fl_updates s" "fl_deletions s1 = fl_deletions s"
    by (rule next_page_ok [OF inv n])
  have "4 + int (length b) \<le> free_space (fl_page s1)" using len s1(3) by simp
  then obtain s' V' loc where "flush_insert key b s1 = (Inr (), s')" "fl_inv s' V'"
    "slot_list V' = slot_list (V @ [([], 4076)]) @ [loc]" "snd (snd loc) = Some b"
    "length V' = length (V @ [([], 4076 :: int)])"
    "(fl_updates s', fl_deletions s') = note_record (key, b) loc (fl_updates s1, fl_deletions s1)"
    by (rule flush_insert_ok [OF s1(2) p])
  then show thesis using that False s1 by (simp add: flush_record_def has_space_for_def slot_list_new_page)
qed

definition flushable :: "(pystr \<times> bytes) list \<Rightarrow> bool" where
  "flushable rs \<longleftrightarrow> (\<forall>(key, b) \<in> set rs. (\<exists>v. packs key v b) \<and> length b \<le> 4072)"

lemma flush_loop_ok:
  assumes "fl_inv s V" and "flushable rs" and "length V + length rs < 2 ^ 32"
  shows "\<exists>s' V' es. flush_loop rs s = (Inr (), s') \<and> fl_inv s' V' \<and> slot_list V' = slot_list V @ es \<and>
    map (\<lambda>e. snd (snd e)) es = map (\<lambda>r. Some (snd r)) rs \<and> length V' \<le> length V + length rs \<and>
    (fl_updates s', fl_deletions s') = fold (\<lambda>(kb, loc). note_record kb loc) (zip rs es) (fl_updates s, fl_deletions s)"
  using assms
proof (induction rs arbitrary: s V)
  case Nil
  then show ?case by auto
next
  case (Cons kb rs)
  obtain key b where kb: "kb = (key, b)" by fastforce
  obtain v where p: "packs key v b" "length b \<le> 4072" using Cons.prems(2) kb by (auto simp: flushable_def)
  have n: "length V < 2 ^ 32" using Cons.prems(3) by simp
  obtain s1 V1 loc where s1: "flush_record key b s = (Inr (), s1)" "fl_inv s1 V1" "slot_list V1 = slot_list V @ [loc]"
    "snd (snd loc) = Some b" "length V1 \<le> Suc (length V)"
    "(fl_updates s1, fl_deletions s1) = note_record (key, b) loc (fl_updates s, fl_deletions s)"
    by (rule flush_record_ok [OF Cons.prems(1) p n])
  have "flushable rs" "length V1 + length rs < 2 ^ 32"
    using Cons.prems(2,3) s1(5) by (auto simp: flushable_def)
  then obtain s' V' es where s': "flush_loop rs s1 = (Inr (), s')" "fl_inv s' V'" "slot_list V' = slot_list V1 @ es"
    "map (\<lambda>e. snd (snd e)) es = map (\<lambda>r. Some (snd r)) rs" "length V' \<le> length V1 + length rs"
    "(fl_updates s', fl_deletions s') = fold (\<lambda>(kb, loc). note_record kb loc) (zip rs es) (fl_updates s1, fl_deletions s1)"
    using Cons.IH [OF s1(2)] by blast
  then show ?case
    using s1 kb by (intro exI [of _ s'] exI [of _ V'] exI [of _ "loc # es"]) simp
qed

text \<open>The dictionaries applied to an index are the scan of the appended slots.\<close>

definition apply_notes :: "page_index \<times> pystr list \<Rightarrow> page_index \<Rightarrow> page_index" where
  "apply_notes ud ix = dupdate (fold (\<lambda>k d. ddel d k) (snd ud) ix) (fst ud)"

lemma dget_dupdate: "dict_ok u \<Longrightarrow> dget (dupdate ix u) k = (case dget u k of Some l \<Rightarrow> Some l | None \<Rightarrow> dget ix k)"
proof (induction u arbitrary: ix)
  case (Cons e u)
  obtain k' l where e: "e = (k', l)" by fastforce
  have "dget u k' = None" using Cons.prems e by (auto simp: dict_ok_def map_of_eq_None_iff)
  with Cons e show ?case by (auto simp: dict_ok_def split: option.splits)
qed simp

lemma dget_fold_ddel: "dget (fold (\<lambda>k d. ddel d k) ks ix) k = (if k \<in> set ks then None else dget ix k)"
  by (induction ks arbitrary: ix) auto

lemma apply_notes_get:
  "dict_ok u \<Longrightarrow> dget (apply_notes (u, d) ix) k =
     (case dget u k of Some l \<Rightarrow> Some l | None \<Rightarrow> if k \<in> set d then None else dget ix k)"
  by (simp add: apply_notes_def dget_dupdate dget_fold_ddel split: option.split)

lemma notes_are_scan:
  assumes "flushable rs" and "map (\<lambda>e. snd (snd e)) es = map (\<lambda>r. Some (snd r)) rs" and "distinct (map fst rs)"
    and "dict_ok u" and "\<forall>k \<in> fst ` set rs. dget u k = None \<and> k \<notin> set d"
  shows "dget (apply_notes (fold (\<lambda>(kb, loc). note_record kb loc) (zip rs es) (u, d)) ix) =
    dget (fold index_entry es (apply_notes (u, d) ix))"
  using assms
proof (induction rs arbitrary: es u d)
  case (Cons kb rs)
  obtain key b where kb: "kb = (key, b)" by fastforce
  obtain v where p: "packs key v b" using Cons.prems(1) kb by (auto simp: flushable_def)
  obtain pid sid es' where es: "es = (pid, sid, Some b) # es'" "map (\<lambda>e. snd (snd e)) es' = map (\<lambda>r. Some (snd r)) rs"
    using Cons.prems(2) kb by (cases es) auto
  define ud where "ud = note_record kb (pid, sid, Some b) (u, d)"
  have uniq: "(\<exists>v'. packs key v' b \<and> v' = PyNone) \<longleftrightarrow> v = PyNone" using packed_key p by blast
  have ud': "ud = (if v = PyNone then (u, d @ [key]) else (dset u key (pid, sid), d))"
    using uniq by (simp add: ud_def note_record_def kb)
  obtain u' d' where ud: "ud = (u', d')" by fastforce
  have ok: "dict_ok u'" using ud ud' Cons.prems(4) by (auto split: if_splits)
  have fresh: "\<forall>k \<in> fst ` set rs. dget u' k = None \<and> k \<notin> set d'"
  proof
    fix k assume k: "k \<in> fst ` set rs"
    then have "k \<noteq> key" "dget u k = None" "k \<notin> set d" using Cons.prems(3,5) kb by auto
    then show "dget u' k = None \<and> k \<notin> set d'" using ud ud' by (auto split: if_splits)
  qed
  have new: "dget u key = None" "key \<notin> set d" using Cons.prems(5) kb by auto
  have step: "dget (apply_notes (u', d') ix) = dget (index_entry (pid, sid, Some b) (apply_notes (u, d) ix))"
    using ud ud' new Cons.prems(4) ok
    by (auto simp: index_entry_packed(1) [OF p] apply_notes_get fun_eq_iff simp del: index_entry.simps
        split: if_splits option.splits)
  have "flushable rs" "distinct (map fst rs)" using Cons.prems(1,3) by (auto simp: flushable_def)
  from Cons.IH [OF this(1) es(2) this(2) ok fresh]
  have "dget (apply_notes (fold (\<lambda>(kb, loc). note_record kb loc) (zip rs es') (u', d')) ix) =
      dget (fold index_entry es' (apply_notes (u', d') ix))" .
  also have "\<dots> = dget (fold index_entry es' (index_entry (pid, sid, Some b) (apply_notes (u, d) ix)))"
    by (rule fold_index_cong [OF step])
  finally show ?case using es(1) ud by (simp add: ud_def del: index_entry.simps)
qed simp

lemma flush_begin_ok:
  assumes inv: "disk_inv h"
  obtains h' where "flush_begin h = (Inr (page_count h' - 1), h')" "disk_inv h'" "0 < page_count h'"
    "slot_list (table_view h') = slot_list (table_view h)" "page_count h' \<le> Suc (page_count h)"
proof -
  have t: "total_pages h = Inr (page_count h)"
    using inv by (auto simp: total_pages_def require_open_def disk_inv_def handler_inv_def)
  show thesis
  proof (cases "page_count h")
    case 0
    then have "page_count h < 2 ^ 32" by simp
    then obtain h' where "allocate_page h = (Inr (page_count h), h')" "disk_inv h'"
      "page_count h' = Suc (page_count h)" "table_view h' = table_view h @ [([], 4076)]"
      by (rule allocate_page_disk [OF inv])
    then show thesis using that 0 t by (simp add: flush_begin_def slot_list_new_page)
  next
    case (Suc n)
    then show thesis using that [of h] t inv by (simp add: flush_begin_def)
  qed
qed

lemma flush_records_ok:
  assumes inv: "disk_inv h" and fl: "flushable rs" and d: "distinct (map fst rs)"
    and n: "page_count h + length rs + 1 < 2 ^ 32"
  obtains ups dels h' es where "flush_records rs h = (Inr (ups, dels), h')" "disk_inv h'"
    "slot_list (table_view h') = slot_list (table_view h) @ es" "map (\<lambda>e. snd (snd e)) es = map (\<lambda>r. Some (snd r)) rs"
    "\<And>ix. dget (apply_notes (ups, dels) ix) = dget (fold index_entry es ix)"
    "page_count h' \<le> page_count h + length rs + 1"
proof -
  obtain h1 where h1: "flush_begin h = (Inr (page_count h1 - 1), h1)" "disk_inv h1" "0 < page_count h1"
    "slot_list (table_view h1) = slot_list (table_view h)" "page_count h1 \<le> Suc (page_count h)"
    by (rule flush_begin_ok [OF inv])
  let ?pid = "page_count h1 - 1"
  have c: "page_count h1 = Suc ?pid" "?pid < page_count h1" using h1(3) by simp_all
  obtain p h2 where r: "read_page (int ?pid) h1 = (Inr p, h2)" using read_page_disk [OF h1(2) c(2)] by blast
  let ?s = "\<lparr>fl_handler = h2, fl_pid = ?pid, fl_page = p, fl_dirty = False, fl_updates = [], fl_deletions = []\<rparr>"
  have s: "fl_inv ?s (table_view h1)" by (rule fl_inv_fresh(1) [OF h1(2) c(1) r]) simp_all
  have "length (table_view h1) + length rs < 2 ^ 32" using h1(5) n by simp
  from flush_loop_ok [OF s fl this] obtain s' V' es where s': "flush_loop rs ?s = (Inr (), s')" "fl_inv s' V'"
    "slot_list V' = slot_list (table_view h1) @ es" "map (\<lambda>e. snd (snd e)) es = map (\<lambda>r. Some (snd r)) rs"
    "length V' \<le> length (table_view h1) + length rs"
    "(fl_updates s', fl_deletions s') = fold (\<lambda>(kb, loc). note_record kb loc) (zip rs es) ([], [])"
    by auto
  obtain h' where h': "flush_write s' = (Inr (), s'\<lparr>fl_handler := h'\<rparr>)" "disk_inv h'" "table_view h' = V'"
    "page_count h' = Suc (fl_pid s')" by (rule flush_write_ok [OF s'(2)])
  have "flush_records rs h = (Inr (fl_updates s', fl_deletions s'), h')"
    using h1(1) r s'(1) h'(1) by (simp add: flush_records_def)
  moreover have "dget (apply_notes (fl_updates s', fl_deletions s') ix) = dget (fold index_entry es ix)" for ix
    unfolding s'(6) using notes_are_scan [OF fl s'(4) d, of "[]" "[]" ix] by (simp add: apply_notes_def)
  moreover have "page_count h' \<le> page_count h + length rs + 1"
    using s'(5) h1(5) by (simp flip: h'(3))
  moreover have "slot_list (table_view h') = slot_list (table_view h) @ es" using s'(3) h'(3) h1(4) by simp
  ultimately show thesis using that s'(4) h'(2) by blast
qed

end
