(* ===== verification/Router_Map.thy ===== *)
theory Router_Map
  imports Router_Disk
begin

text \<open>
  The router as a map: whatever the memtables, the index, the pages, the cache and a running flush hold
  between them, every key of every table has one value, \<open>set_internal\<close> changes the value of its key and
  nothing else, the stages of a flush change no value, and \<open>get_internal\<close> returns it.
\<close>

subsection \<open>Memtables\<close>

definition mem_ok :: "(pystr, bytes) memtable \<Rightarrow> bool" where
  "mem_ok m \<longleftrightarrow> memtable_inv m \<and> flushable (in_order_traversal m)"

definition mem_value :: "(pystr, bytes) memtable \<Rightarrow> pystr \<Rightarrow> pyval option" where
  "mem_value m k =
     (case mt_lookup m k of None \<Rightarrow> None | Some b \<Rightarrow> (case unpack_kv b of Inl _ \<Rightarrow> None | Inr (_, v) \<Rightarrow> Some v))"

lemma mem_ok_new [simp]: "mem_ok new_memtable"
  by (simp add: mem_ok_def flushable_def)

lemma mem_value_new [simp]: "mem_value new_memtable k = None"
  by (simp add: mem_value_def)

lemma mem_lookup:
  assumes "mem_ok m" and "mt_lookup m k = Some b"
  obtains v where "packs k v b" "mem_value m k = Some v" "length b \<le> 4072"
proof -
  have "(k, b) \<in> set (in_order_traversal m)" using assms(2) by (rule map_of_SomeD)
  then obtain v where v: "packs k v b" "length b \<le> 4072" using assms(1) by (auto simp: mem_ok_def flushable_def)
  with that assms(2) unpack_packed [OF v(1)] show thesis by (simp add: mem_value_def)
qed

lemma mem_value_None_iff: "mem_ok m \<Longrightarrow> mem_value m k = None \<longleftrightarrow> mt_lookup m k = None"
  by (cases "mt_lookup m k") (auto elim: mem_lookup simp: mem_value_def)

lemma mem_insert:
  assumes ok: "mem_ok m" and p: "packs key v b" and b: "length b \<le> 4072" and key: "key \<noteq> []"
  obtains m' where "memtable_insert key b m = (Inr (), m')" "mem_ok m'"
    "\<And>k. mem_value m' k = (if k = key then Some v else mem_value m k)" "entries m' \<le> Suc (entries m)" "0 < entries m'"
proof -
  have inv: "memtable_inv m" using ok by (simp add: mem_ok_def)
  let ?m = "upsert_ok key b m"
  note u = upsert_lookup [OF inv, of key b]
  have ins: "memtable_insert key b m = (Inr (), ?m)" by (rule memtable_insert_correct [OF inv key])
  have "flushable (in_order_traversal ?m)"
    unfolding flushable_def
  proof (rule ballI)
    fix e assume e: "e \<in> set (in_order_traversal ?m)"
    obtain k c where kc: "e = (k, c)" by fastforce
    have "mt_lookup ?m k = Some c"
      using e kc traversal_distinct [OF u(1)] by (simp add: map_of_eq_Some_iff)
    then have "(k = key \<and> c = b) \<or> mt_lookup m k = Some c" using u(2) by (auto split: if_splits)
    then show "case e of (k, c) \<Rightarrow> (\<exists>v. packs k v c) \<and> length c \<le> 4072"
      using kc p b mem_lookup [OF ok] by (auto elim!: mem_lookup [OF ok])
  qed
  then have "mem_ok ?m" using u(1) by (simp add: mem_ok_def)
  moreover have "mem_value ?m k = (if k = key then Some v else mem_value m k)" for k
    using unpack_packed [OF p] by (simp add: mem_value_def u(2))
  moreover have "entries ?m \<le> Suc (entries m)"
    using length_ins_sorted [of key "in_order_traversal m" b] length_ins_present [OF traversal_sorted [OF inv], of key b]
    by (cases "key \<in> fst ` set (in_order_traversal m)") (simp_all add: entries_traversal u(1,5) inv)
  moreover have "0 < entries ?m"
    using u(2) [of key] by (auto simp: entries_traversal u(1))
  ultimately show thesis using that ins by blast
qed

subsection \<open>The value of a key\<close>

definition table_value ::
  "(pystr, bytes) memtable \<Rightarrow> (pystr, bytes) memtable option \<Rightarrow> (pystr \<Rightarrow> pyval) \<Rightarrow> pystr \<Rightarrow> pyval" where
  "table_value m im D k =
     (case mem_value m k of Some v \<Rightarrow> v
      | None \<Rightarrow> (case im of None \<Rightarrow> D k | Some m' \<Rightarrow> (case mem_value m' k of Some v \<Rightarrow> v | None \<Rightarrow> D k)))"

text \<open>
  How far a running flush is: \<open>es0\<close> are the slots that the index covers, \<open>es1\<close> those that only the
  flush knows of.
\<close>

definition stage_ok ::
  "flush_job option \<Rightarrow> (pystr, bytes) memtable option \<Rightarrow> (nat \<times> nat \<times> bytes option) list \<Rightarrow>
   (nat \<times> nat \<times> bytes option) list \<Rightarrow> bool" where
  "stage_ok j im es0 es1 =
     (case j of
        None \<Rightarrow> im = None \<and> es1 = []
      | Some Submitted \<Rightarrow> (\<exists>m. im = Some m \<and> 0 < entries m) \<and> es1 = []
      | Some (Written ups dels txs) \<Rightarrow>
          (\<forall>ix. dget (apply_notes (ups, dels) ix) = dget (fold index_entry es1 ix)) \<and>
          (\<exists>m. im = Some m \<and> map (\<lambda>e. snd (snd e)) es1 = map (\<lambda>r. Some (snd r)) (in_order_traversal m))
      | Some (Indexed txs) \<Rightarrow>
          es1 = [] \<and> (\<exists>m. im = Some m \<and> (\<forall>k v. mem_value m k = Some v \<longrightarrow> disk_value es0 k = v)))"

text \<open>Each write is one entry and an entry takes at most two pages: the page it is on and a first page.\<close>

definition weight :: "meta handler \<Rightarrow> table \<Rightarrow> nat" where
  "weight h tb = page_count h + 2 * entries (active_memtable tb) +
     (case (job tb, immutable_memtable tb) of (Some Submitted, Some m) \<Rightarrow> 2 * entries m | _ \<Rightarrow> 0)"

definition table_inv :: "nat \<Rightarrow> (pystr \<Rightarrow> pyval) \<Rightarrow> table \<Rightarrow> bool" where
  "table_inv n S tb \<longleftrightarrow> (\<exists>h es0 es1. handler_of tb = Some h \<and> disk_inv h \<and>
     slot_list (table_view h) = es0 @ es1 \<and> all_packed (es0 @ es1) \<and>
     dget (disk_index tb) = dget (fold index_entry es0 []) \<and>
     mem_ok (active_memtable tb) \<and> (\<forall>m. immutable_memtable tb = Some m \<longrightarrow> mem_ok m) \<and>
     stage_ok (job tb) (immutable_memtable tb) es0 es1 \<and> weight h tb \<le> 2 * n \<and>
     S = table_value (active_memtable tb) (immutable_memtable tb) (disk_value es0))"

text \<open>A table that has not been opened is the file an earlier run left, or nothing.\<close>

definition file_holds :: "nat \<Rightarrow> (pystr \<Rightarrow> pyval) \<Rightarrow> pystr \<Rightarrow> pyfile option \<Rightarrow> bool" where
  "file_holds n S t fo =
     (case fo of
        None \<Rightarrow> S = (\<lambda>_. PyNone)
      | Some f \<Rightarrow>
          let h = \<lparr>table_name = t, tbl_file = f, is_open = True, page_cache = []\<rparr>; es = slot_list (table_view h)
          in disk_inv h \<and> all_packed es \<and> S = disk_value es \<and> page_count h \<le> 2 * n)"

definition env_ok :: "env \<Rightarrow> bool" where
  "env_ok e \<longleftrightarrow> (\<forall>t. mkdir_ok e t \<and> touch_ok e t \<and> open_ok e t)"

text \<open>\<open>S\<close> is the value of every key of every table, \<open>C\<close> what the cache may answer for it.\<close>

definition router_inv :: "nat \<Rightarrow> (pystr \<times> pystr \<Rightarrow> pyval) \<Rightarrow> (pystr \<times> pystr \<Rightarrow> pyval set) \<Rightarrow> router \<Rightarrow> bool" where
  "router_inv n S C r \<longleftrightarrow>
     (\<forall>t. t \<noteq> [] \<longrightarrow> (case dget (tables r) t of
        Some tb \<Rightarrow> table_inv n (\<lambda>k. S (t, k)) tb
      | None \<Rightarrow> file_holds n (\<lambda>k. S (t, k)) t (table_files r t))) \<and>
     1 \<le> max_memtable_size r \<and> (\<exists>s. lfu_rel (rcache r) s) \<and>
     (\<forall>x v. dget (cache (rcache r)) x = Some v \<longrightarrow> v = PyNone \<or> v \<in> C x) \<and> (\<forall>x. S x \<in> C x)"

lemma table_invE:
  assumes "table_inv n S tb"
  obtains h es0 es1 where "handler_of tb = Some h" "disk_inv h" "slot_list (table_view h) = es0 @ es1"
    "all_packed (es0 @ es1)" "dget (disk_index tb) = dget (fold index_entry es0 [])" "mem_ok (active_memtable tb)"
    "\<forall>m. immutable_memtable tb = Some m \<longrightarrow> mem_ok m" "stage_ok (job tb) (immutable_memtable tb) es0 es1"
    "weight h tb \<le> 2 * n" "S = table_value (active_memtable tb) (immutable_memtable tb) (disk_value es0)"
  using assms unfolding table_inv_def by blast

lemma table_inv_mono: "table_inv n S tb \<Longrightarrow> n \<le> n' \<Longrightarrow> table_inv n' S tb"
proof (erule table_invE)
  fix h es0 es1
  assume "weight h tb \<le> 2 * n" "n \<le> n'"
  then have w: "weight h tb \<le> 2 * n'" by simp
  assume "handler_of tb = Some h" "disk_inv h" "slot_list (table_view h) = es0 @ es1"
    "all_packed (es0 @ es1)" "dget (disk_index tb) = dget (fold index_entry es0 [])" "mem_ok (active_memtable tb)"
    "\<forall>m. immutable_memtable tb = Some m \<longrightarrow> mem_ok m" "stage_ok (job tb) (immutable_memtable tb) es0 es1"
    "S = table_value (active_memtable tb) (immutable_memtable tb) (disk_value es0)"
  then show "table_inv n' S tb" using w unfolding table_inv_def by blast
qed

lemma file_holds_mono: "file_holds n S t fo \<Longrightarrow> n \<le> n' \<Longrightarrow> file_holds n' S t fo"
  by (cases fo) (auto simp: file_holds_def Let_def)

lemma router_table:
  "router_inv n S C r \<Longrightarrow> t \<noteq> [] \<Longrightarrow> dget (tables r) t = Some tb \<Longrightarrow> table_inv n (\<lambda>k. S (t, k)) tb"
  unfolding router_inv_def by fastforce

text \<open>Replacing one table by a good one, with new values for its keys.\<close>

lemma router_put:
  assumes inv: "router_inv n S C r" and tb: "table_inv n' (\<lambda>k. S' (t, k)) tb" and n: "n \<le> n'"
    and S': "\<And>t' k. t' \<noteq> t \<Longrightarrow> S' (t', k) = S (t', k)"
    and r': "tables r' = dset (tables r) t tb" "table_files r' = table_files r" "max_memtable_size r' = max_memtable_size r"
    and c: "\<exists>s. lfu_rel (rcache r') s" "\<And>x v. dget (cache (rcache r')) x = Some v \<Longrightarrow> v = PyNone \<or> v \<in> C' x"
    and C': "\<And>x. S' x \<in> C' x"
  shows "router_inv n' S' C' r'"
  unfolding router_inv_def
proof (intro conjI allI impI)
  fix t' :: pystr assume t': "t' \<noteq> []"
  show "case dget (tables r') t' of Some tb \<Rightarrow> table_inv n' (\<lambda>k. S' (t', k)) tb
      | None \<Rightarrow> file_holds n' (\<lambda>k. S' (t', k)) t' (table_files r' t')"
  proof (cases "t' = t")
    case False
    then have "(\<lambda>k. S' (t', k)) = (\<lambda>k. S (t', k))" using S' by auto
    moreover have "case dget (tables r) t' of Some tb \<Rightarrow> table_inv n (\<lambda>k. S (t', k)) tb
      | None \<Rightarrow> file_holds n (\<lambda>k. S (t', k)) t' (table_files r t')"
      using inv t' unfolding router_inv_def by blast
    ultimately show ?thesis
      using False r' n by (auto intro: table_inv_mono file_holds_mono split: option.splits)
  qed (use tb r' in simp)
qed (use inv r' c C' in \<open>auto simp: router_inv_def\<close>)

lemma router_inv_wal:
  "router_inv n S C r \<Longrightarrow> router_inv n S C (r\<lparr>rwal := w\<rparr>)"
  by (simp add: router_inv_def cong: option.case_cong)

lemma router_put_same:
  assumes "router_inv n S C r" and "table_inv n (\<lambda>k. S (t, k)) tb"
    and "tables r' = dset (tables r) t tb" "table_files r' = table_files r" "max_memtable_size r' = max_memtable_size r"
      "rcache r' = rcache r"
  shows "router_inv n S C r'"
  by (rule router_put [OF assms(1,2)]) (use assms in \<open>auto simp: router_inv_def\<close>)

subsection \<open>Opening a table\<close>

lemma index_of_view: "fold index_entry (slot_list (table_view h)) [] = scan_index (table_view h)"
  by (simp add: scan_index_def)

lemma table_inv_opened:
  assumes f: "file_holds n S t (table_files r t)" and e: "env_ok e" and t: "t \<noteq> []" and new: "dget (tables r) t = None"
  obtains tb where "get_table_state e t r = (Inr (), put_table t tb r)" "table_inv n S tb"
proof -
  let ?f = "case table_files r t of None \<Rightarrow> empty_file | Some f \<Rightarrow> f"
  let ?h = "\<lparr>table_name = t, tbl_file = ?f, is_open = True, page_cache = []\<rparr> :: meta handler"
  have init: "handler_init (mkdir_ok e t) (touch_ok e t) (open_ok e t) t (table_files r t) = Inr ?h"
    using e t by (simp add: env_ok_def handler_init_def create_table_def split: option.splits)
  have h: "disk_inv ?h \<and> all_packed (slot_list (table_view ?h)) \<and> S = disk_value (slot_list (table_view ?h)) \<and>
      page_count ?h \<le> 2 * n"
  proof (cases "table_files r t")
    case None
    then have n0: "page_count ?h = 0" by (simp add: page_count_def empty_file_def)
    then have "table_view ?h = []" by (simp add: table_view_def)
    then show ?thesis
      using None f n0 by (simp add: file_holds_def disk_inv_def handler_inv_def file_ok_def cache_ok_def
          slot_list_def all_packed_def disk_value_def)
  next
    case (Some g)
    then show ?thesis using f by (simp add: file_holds_def Let_def)
  qed
  then obtain h' where h': "init_disk_index ?h = (Inr (scan_index (table_view ?h)), h')" "disk_inv h'"
    "tbl_file h' = tbl_file ?h" using init_disk_index_ok [of ?h] by blast
  let ?tb = "new_table\<lparr>handler_of := Some h', disk_index := scan_index (table_view ?h)\<rparr>"
  note same = same_file [OF h'(3)]
  have "weight h' ?tb \<le> 2 * n" using h same by (simp add: weight_def new_table_def new_memtable_def)
  then have "table_inv n S ?tb"
    unfolding table_inv_def using h h' same
    by (intro exI [of _ h'] exI [of _ "slot_list (table_view ?h)"] exI [of _ "[]"])
      (simp add: new_table_def stage_ok_def index_of_view table_value_def fun_eq_iff)
  with that [of ?tb] h'(1) init new show thesis by (simp add: get_table_state_def)
qed

lemma get_table_state_ok:
  assumes inv: "router_inv n S C r" and e: "env_ok e" and t: "t \<noteq> []"
  obtains r' tb where "get_table_state e t r = (Inr (), r')" "router_inv n S C r'" "dget (tables r') t = Some tb"
    "rcache r' = rcache r" "max_memtable_size r' = max_memtable_size r" "rwal r' = rwal r"
    "\<And>t'. t' \<noteq> t \<Longrightarrow> dget (tables r') t' = dget (tables r) t'" "table_files r' = table_files r"
    "dget (tables r) t \<noteq> None \<Longrightarrow> r' = r"
proof (cases "dget (tables r) t")
  case None
  then have "file_holds n (\<lambda>k. S (t, k)) t (table_files r t)"
    using inv t unfolding router_inv_def by (metis option.simps(4))
  then obtain tb where tb: "get_table_state e t r = (Inr (), put_table t tb r)" "table_inv n (\<lambda>k. S (t, k)) tb"
    by (rule table_inv_opened [OF _ e t None])
  have "router_inv n S C (put_table t tb r)"
    by (rule router_put_same [OF inv tb(2)]) (simp_all add: put_table_def)
  with that [OF tb(1)] None show thesis by (simp add: put_table_def)
next
  case (Some tb)
  have "handler_of tb \<noteq> None" using router_table [OF inv t Some] by (auto simp: table_inv_def)
  with that [of r tb] Some inv show thesis by (simp add: get_table_state_def)
qed

subsection \<open>The stages of a flush\<close>

text \<open>What a step on one table leaves alone.\<close>

definition only_table :: "pystr \<Rightarrow> router \<Rightarrow> router \<Rightarrow> bool" where
  "only_table t r r' \<longleftrightarrow> (\<forall>t'. t' \<noteq> t \<longrightarrow> dget (tables r') t' = dget (tables r) t') \<and>
     max_memtable_size r' = max_memtable_size r \<and> table_files r' = table_files r \<and> rcache r' = rcache r"

lemma only_table_refl [simp]: "only_table t r r"
  by (simp add: only_table_def)

lemma only_table_trans: "only_table t r r1 \<Longrightarrow> only_table t r1 r2 \<Longrightarrow> only_table t r r2"
  by (simp add: only_table_def)

lemma put_table_simps [simp]:
  "tables (put_table t tb r) = dset (tables r) t tb" "table_files (put_table t tb r) = table_files r"
  "max_memtable_size (put_table t tb r) = max_memtable_size r" "rcache (put_table t tb r) = rcache r"
  "rwal (put_table t tb r) = rwal r"
  by (simp_all add: put_table_def)

lemma count_flush_simps [simp]:
  "tables (count_flush d r) = tables r" "table_files (count_flush d r) = table_files r"
  "max_memtable_size (count_flush d r) = max_memtable_size r" "rcache (count_flush d r) = rcache r"
  by (simp_all add: count_flush_def)

fun stages_left :: "flush_job option \<Rightarrow> nat" where
  "stages_left None = 0"
| "stages_left (Some Submitted) = 3"
| "stages_left (Some (Written ups dels txs)) = 2"
| "stages_left (Some (Indexed txs)) = 1"

lemma stages_left_0: "stages_left j = 0 \<longleftrightarrow> j = None"
  by (cases j rule: stages_left.cases) auto

lemma fold_write_values:
  assumes "flushable rs" and "map (\<lambda>e. snd (snd e)) es = map (\<lambda>r. Some (snd r)) rs" and "distinct (map fst rs)"
  shows "fold write_value es D k =
    (case map_of rs k of None \<Rightarrow> D k | Some b \<Rightarrow> (case unpack_kv b of Inl _ \<Rightarrow> D k | Inr (_, v) \<Rightarrow> v))"
  using assms
proof (induction rs arbitrary: es D)
  case (Cons kb rs)
  obtain key b where kb: "kb = (key, b)" by fastforce
  obtain v where p: "packs key v b" using Cons.prems(1) kb by (auto simp: flushable_def)
  obtain pid sid es' where es: "es = (pid, sid, Some b) # es'"
      "map (\<lambda>e. snd (snd e)) es' = map (\<lambda>r. Some (snd r)) rs"
    using Cons.prems(2) kb by (cases es) auto
  have "flushable rs" "distinct (map fst rs)" using Cons.prems(1,3) by (auto simp: flushable_def)
  define D' where "D' = D(key := v)"
  have IH: "fold write_value es' D' k =
      (case map_of rs k of None \<Rightarrow> D' k | Some b \<Rightarrow> (case unpack_kv b of Inl _ \<Rightarrow> D' k | Inr (_, v) \<Rightarrow> v))"
    using Cons.IH \<open>flushable rs\<close> es(2) \<open>distinct (map fst rs)\<close> by blast
  have "fold write_value es D = fold write_value es' D'"
    by (simp add: es(1) D'_def index_entry_packed(2) [OF p] del: write_value.simps)
  moreover have "map_of rs key = None" using Cons.prems(3) kb by (simp add: map_of_eq_None_iff)
  moreover have "D' k = (if k = key then v else D k)" by (simp add: D'_def)
  ultimately show ?case
    using IH kb unpack_packed [OF p] by (auto split: option.split sum.split)
qed simp

lemma disk_value_flushed:
  assumes "mem_ok m" and "map (\<lambda>e. snd (snd e)) es1 = map (\<lambda>r. Some (snd r)) (in_order_traversal m)"
  shows "disk_value (es0 @ es1) k = (case mem_value m k of Some v \<Rightarrow> v | None \<Rightarrow> disk_value es0 k)"
proof -
  have "flushable (in_order_traversal m)" "distinct (map fst (in_order_traversal m))"
    using assms(1) traversal_distinct by (auto simp: mem_ok_def)
  from fold_write_values [OF this(1) assms(2) this(2), of "disk_value es0" k]
  show ?thesis by (auto simp: disk_value_def mem_value_def split: option.split sum.split)
qed

lemma all_packed_flushed:
  assumes "flushable rs" and "map (\<lambda>e. snd (snd e)) es = map (\<lambda>r. Some (snd r)) rs"
  shows "all_packed es"
  unfolding all_packed_def
proof (rule ballI)
  fix e assume "e \<in> set es"
  then have "snd (snd e) \<in> set (map (\<lambda>e. snd (snd e)) es)" by simp
  then obtain key b where kb: "(key, b) \<in> set rs" "snd (snd e) = Some b" unfolding assms(2) by auto
  then obtain v where "packs key v b" using assms(1) by (auto simp: flushable_def)
  then show "case e of (pid, sid, x) \<Rightarrow> \<exists>k v b. x = Some b \<and> packs k v b"
    using kb(2) by (auto simp: split_beta)
qed

lemma flush_pages_ok:
  assumes inv: "router_inv n S C r" and t: "t \<noteq> []" and n: "n < 2 ^ 31"
    and tb: "dget (tables r) t = Some tb" and j: "job tb = Some Submitted"
  obtains r' tb' where "flush_pages e t r = (Inr (), r')" "router_inv n S C r'" "only_table t r r'"
    "dget (tables r') t = Some tb'" "stages_left (job tb') = 2" "active_memtable tb' = active_memtable tb"
proof -
  obtain h es0 es1 where a: "handler_of tb = Some h" "disk_inv h" "slot_list (table_view h) = es0 @ es1"
    "all_packed (es0 @ es1)" "dget (disk_index tb) = dget (fold index_entry es0 [])" "mem_ok (active_memtable tb)"
    "\<forall>m. immutable_memtable tb = Some m \<longrightarrow> mem_ok m" "stage_ok (job tb) (immutable_memtable tb) es0 es1"
    "weight h tb \<le> 2 * n" "(\<lambda>k. S (t, k)) = table_value (active_memtable tb) (immutable_memtable tb) (disk_value es0)"
    by (rule table_invE [OF router_table [OF inv t tb]])
  obtain m where m: "immutable_memtable tb = Some m" "0 < entries m" "es1 = []" using a(8) j by (auto simp: stage_ok_def)
  have ok: "mem_ok m" using a(7) m(1) by blast
  then have rs: "flushable (in_order_traversal m)" "distinct (map fst (in_order_traversal m))"
    "entries m = length (in_order_traversal m)"
    using traversal_distinct entries_traversal by (auto simp: mem_ok_def)
  have w: "page_count h + 2 * entries (active_memtable tb) + 2 * entries m \<le> 2 * n" using a(9) j m(1) by (simp add: weight_def)
  then have "page_count h + length (in_order_traversal m) + 1 < 2 ^ 32" using n m(2) rs(3) by simp
  then obtain ups dels h' es where f: "flush_records (in_order_traversal m) h = (Inr (ups, dels), h')" "disk_inv h'"
    "slot_list (table_view h') = slot_list (table_view h) @ es"
    "map (\<lambda>e. snd (snd e)) es = map (\<lambda>r. Some (snd r)) (in_order_traversal m)"
    "\<And>ix. dget (apply_notes (ups, dels) ix) = dget (fold index_entry es ix)"
    "page_count h' \<le> page_count h + length (in_order_traversal m) + 1"
    using flush_records_ok [OF a(2) rs(1,2)] by blast
  let ?txs = "case immutable_tx_ids tb of None \<Rightarrow> [] | Some l \<Rightarrow> l"
  let ?tb = "tb\<lparr>handler_of := Some h', job := Some (Written ups dels ?txs)\<rparr>"
  let ?r = "put_table t ?tb (put_table t (tb\<lparr>handler_of := Some h'\<rparr>) (count_flush 1 r))"
  have "get_table_state e t r = (Inr (), r)" using tb a(1) by (simp add: get_table_state_def)
  then have "flush_pages e t r = (Inr (), ?r)"
    using tb a(1) m(1,2) f(1) by (simp add: flush_pages_def on_table_def on_handler_def)
  moreover have "table_inv n (\<lambda>k. S (t, k)) ?tb"
    unfolding table_inv_def
  proof (intro exI conjI)
    show "stage_ok (job ?tb) (immutable_memtable ?tb) es0 es" using f(4,5) m(1) by (simp add: stage_ok_def)
    show "all_packed (es0 @ es)" using a(4) m(3) all_packed_flushed [OF rs(1) f(4)] by (auto simp: all_packed_def)
    have "1 \<le> length (in_order_traversal m)" using m(2) rs(3) by linarith
    then have "page_count h' + 2 * entries (active_memtable tb) \<le> 2 * n" using w f(6) rs(3) by linarith
    then show "weight h' ?tb \<le> 2 * n" by (simp add: weight_def)
    show "disk_inv h'" by (rule f(2))
    show "slot_list (table_view h') = es0 @ es" using f(3) a(3) m(3) by simp
  qed (use a in auto)
  then have "router_inv n S C ?r" by (rule router_put_same [OF inv]) simp_all
  ultimately show thesis using that [of ?r ?tb] by (simp add: only_table_def)
qed

lemma flush_index_ok:
  assumes inv: "router_inv n S C r" and t: "t \<noteq> []" and tb: "dget (tables r) t = Some tb"
    and j: "job tb = Some (Written ups dels txs)"
  obtains r' tb' where "flush_index t ups dels txs r = (Inr (), r')" "router_inv n S C r'" "only_table t r r'"
    "dget (tables r') t = Some tb'" "stages_left (job tb') = 1" "active_memtable tb' = active_memtable tb"
proof -
  obtain h es0 es1 where a: "handler_of tb = Some h" "disk_inv h" "slot_list (table_view h) = es0 @ es1"
    "all_packed (es0 @ es1)" "dget (disk_index tb) = dget (fold index_entry es0 [])" "mem_ok (active_memtable tb)"
    "\<forall>m. immutable_memtable tb = Some m \<longrightarrow> mem_ok m" "stage_ok (job tb) (immutable_memtable tb) es0 es1"
    "weight h tb \<le> 2 * n" "(\<lambda>k. S (t, k)) = table_value (active_memtable tb) (immutable_memtable tb) (disk_value es0)"
    by (rule table_invE [OF router_table [OF inv t tb]])
  obtain m where m: "immutable_memtable tb = Some m"
    "map (\<lambda>e. snd (snd e)) es1 = map (\<lambda>r. Some (snd r)) (in_order_traversal m)"
    "\<And>ix. dget (apply_notes (ups, dels) ix) = dget (fold index_entry es1 ix)"
    using a(8) j by (auto simp: stage_ok_def)
  have ok: "mem_ok m" using a(7) m(1) by blast
  note dv = disk_value_flushed [OF ok m(2), of es0]
  let ?tb = "tb\<lparr>disk_index := apply_notes (ups, dels) (disk_index tb), job := Some (Indexed txs), handler_of := Some h\<rparr>"
  let ?r = "put_table t ?tb (put_table t (tb\<lparr>disk_index := apply_notes (ups, dels) (disk_index tb), job := Some (Indexed txs)\<rparr>) r)"
  have "sync_table h = Inr ()" using a(2) by (auto simp: sync_table_def require_open_def disk_inv_def handler_inv_def)
  then have "flush_index t ups dels txs r = (Inr (), ?r)"
    using tb a(1) by (simp add: flush_index_def on_table_def on_handler_def apply_notes_def Let_def)
  moreover have "table_inv n (\<lambda>k. S (t, k)) ?tb"
    unfolding table_inv_def
  proof (intro exI conjI)
    show "stage_ok (job ?tb) (immutable_memtable ?tb) (es0 @ es1) []" using m(1) dv by (auto simp: stage_ok_def)
    show "dget (disk_index ?tb) = dget (fold index_entry (es0 @ es1) [])"
      using m(3) fold_index_cong [OF a(5), of es1] by simp
    show "(\<lambda>k. S (t, k)) = table_value (active_memtable ?tb) (immutable_memtable ?tb) (disk_value (es0 @ es1))"
      unfolding a(10) using m(1) dv by (auto simp: table_value_def fun_eq_iff split: option.split)
    show "weight h ?tb \<le> 2 * n" using a(9) j by (simp add: weight_def)
  qed (use a in auto)
  then have "router_inv n S C ?r" by (rule router_put_same [OF inv]) simp_all
  ultimately show thesis using that [of ?r ?tb] by (simp add: only_table_def)
qed

lemma flush_finish_ok:
  assumes inv: "router_inv n S C r" and t: "t \<noteq> []" and tb: "dget (tables r) t = Some tb"
    and j: "job tb = Some (Indexed txs)"
  obtains r' tb' where "flush_finish t txs r = (Inr (), r')" "router_inv n S C r'" "only_table t r r'"
    "dget (tables r') t = Some tb'" "stages_left (job tb') = 0" "active_memtable tb' = active_memtable tb"
proof -
  obtain h es0 es1 where a: "handler_of tb = Some h" "disk_inv h" "slot_list (table_view h) = es0 @ es1"
    "all_packed (es0 @ es1)" "dget (disk_index tb) = dget (fold index_entry es0 [])" "mem_ok (active_memtable tb)"
    "\<forall>m. immutable_memtable tb = Some m \<longrightarrow> mem_ok m" "stage_ok (job tb) (immutable_memtable tb) es0 es1"
    "weight h tb \<le> 2 * n" "(\<lambda>k. S (t, k)) = table_value (active_memtable tb) (immutable_memtable tb) (disk_value es0)"
    by (rule table_invE [OF router_table [OF inv t tb]])
  obtain m where m: "es1 = []" "immutable_memtable tb = Some m"
      "\<And>k v. mem_value m k = Some v \<Longrightarrow> disk_value es0 k = v"
    using a(8) j by (auto simp: stage_ok_def)
  let ?tb = "tb\<lparr>immutable_memtable := None, immutable_tx_ids := None, job := None\<rparr>"
  let ?r1 = "put_table t (tb\<lparr>immutable_memtable := None, immutable_tx_ids := None\<rparr>) (r\<lparr>rwal := mark_many_jobs_complete txs (rwal r)\<rparr>)"
  let ?r = "count_flush (- 1) (put_table t ?tb ?r1)"
  have "flush_finish t txs r = (Inr (), ?r)"
    using tb by (simp add: flush_finish_def on_table_def flush_end_def Let_def)
  moreover have "table_inv n (\<lambda>k. S (t, k)) ?tb"
    unfolding table_inv_def
  proof (intro exI conjI)
    show "stage_ok (job ?tb) (immutable_memtable ?tb) es0 []" by (simp add: stage_ok_def)
    show "(\<lambda>k. S (t, k)) = table_value (active_memtable ?tb) (immutable_memtable ?tb) (disk_value es0)"
      unfolding a(10) using m by (auto simp: table_value_def fun_eq_iff split: option.split)
    show "weight h ?tb \<le> 2 * n" using a(9) j by (simp add: weight_def)
    show "slot_list (table_view h) = es0 @ []" "all_packed (es0 @ [])" using a(3,4) m(1) by simp_all
  qed (use a in auto)
  then have "router_inv n S C ?r" by (rule router_put_same [OF inv]) simp_all
  ultimately show thesis using that [of ?r ?tb] by (simp add: only_table_def)
qed

lemma flush_step_ok:
  assumes inv: "router_inv n S C r" and t: "t \<noteq> []" and n: "n < 2 ^ 31"
    and tb: "dget (tables r) t = Some tb"
  obtains r' tb' where "flush_step e t r = (Inr (), r')" "router_inv n S C r'" "only_table t r r'"
    "dget (tables r') t = Some tb'" "stages_left (job tb') = stages_left (job tb) - 1"
    "active_memtable tb' = active_memtable tb"
proof (cases "job tb" rule: stages_left.cases)
  case 1
  then show thesis using that [of r tb] tb inv by (simp add: flush_step_def)
next
  case 2
  obtain r' tb' where "flush_pages e t r = (Inr (), r')" "router_inv n S C r'" "only_table t r r'"
    "dget (tables r') t = Some tb'" "stages_left (job tb') = 2" "active_memtable tb' = active_memtable tb"
    by (rule flush_pages_ok [OF inv t n tb 2])
  then show thesis using that [of r' tb'] tb 2 by (simp add: flush_step_def)
next
  case (3 ups dels txs)
  obtain r' tb' where "flush_index t ups dels txs r = (Inr (), r')" "router_inv n S C r'" "only_table t r r'"
    "dget (tables r') t = Some tb'" "stages_left (job tb') = 1" "active_memtable tb' = active_memtable tb"
    by (rule flush_index_ok [OF inv t tb 3])
  then show thesis using that [of r' tb'] tb 3 by (simp add: flush_step_def)
next
  case (4 txs)
  obtain r' tb' where "flush_finish t txs r = (Inr (), r')" "router_inv n S C r'" "only_table t r r'"
    "dget (tables r') t = Some tb'" "stages_left (job tb') = 0" "active_memtable tb' = active_memtable tb"
    by (rule flush_finish_ok [OF inv t tb 4])
  then show thesis using that [of r' tb'] tb 4 by (simp add: flush_step_def)
qed

lemma flush_wait_ok:
  assumes inv: "router_inv n S C r" and t: "t \<noteq> []" and n: "n < 2 ^ 31" and tb: "dget (tables r) t = Some tb"
  obtains r' tb' where "flush_wait e t r = (Inr (), r')" "router_inv n S C r'" "only_table t r r'"
    "dget (tables r') t = Some tb'" "job tb' = None" "active_memtable tb' = active_memtable tb"
proof -
  obtain r1 tb1 where 1: "flush_step e t r = (Inr (), r1)" "router_inv n S C r1" "only_table t r r1"
    "dget (tables r1) t = Some tb1" "stages_left (job tb1) = stages_left (job tb) - 1"
    "active_memtable tb1 = active_memtable tb" by (rule flush_step_ok [OF inv t n tb])
  obtain r2 tb2 where 2: "flush_step e t r1 = (Inr (), r2)" "router_inv n S C r2" "only_table t r1 r2"
    "dget (tables r2) t = Some tb2" "stages_left (job tb2) = stages_left (job tb1) - 1"
    "active_memtable tb2 = active_memtable tb1" by (rule flush_step_ok [OF 1(2) t n 1(4)])
  obtain r3 tb3 where 3: "flush_step e t r2 = (Inr (), r3)" "router_inv n S C r3" "only_table t r2 r3"
    "dget (tables r3) t = Some tb3" "stages_left (job tb3) = stages_left (job tb2) - 1"
    "active_memtable tb3 = active_memtable tb2" by (rule flush_step_ok [OF 2(2) t n 2(4)])
  have "stages_left (job tb) \<le> 3" by (cases "job tb" rule: stages_left.cases) auto
  then have "job tb3 = None" using 1(5) 2(5) 3(5) by (simp flip: stages_left_0)
  moreover have "only_table t r r3" using 1(3) 2(3) 3(3) by (blast intro: only_table_trans)
  ultimately show thesis using that [of r3 tb3] 1 2 3 by (simp add: flush_wait_def)
qed

subsection \<open>Writing and reading\<close>

definition fits :: "pystr \<Rightarrow> pyval \<Rightarrow> bool" where
  "fits key v \<longleftrightarrow> key \<noteq> [] \<and> (\<exists>b. packs key v b \<and> length b \<le> 4072)"

lemma router_cacheD: "router_inv n S C r \<Longrightarrow> dget (cache (rcache r)) x = Some v \<Longrightarrow> v = PyNone \<or> v \<in> C x"
  unfolding router_inv_def by blast

lemma router_reflD: "router_inv n S C r \<Longrightarrow> S x \<in> C x"
  unfolding router_inv_def by blast

lemma map_le_SomeD: "m \<subseteq>\<^sub>m m' \<Longrightarrow> m x = Some w \<Longrightarrow> m' x = Some w"
  by (metis domI map_le_def)

lemma cache_put_ok:
  assumes inv: "router_inv n S C r" and v: "v = PyNone \<or> v \<in> C x"
  obtains r' where "cache_put x v r = (Inr (), r')" "router_inv n S C r'" "tables r' = tables r"
    "max_memtable_size r' = max_memtable_size r" "table_files r' = table_files r" "rwal r' = rwal r"
    "dget (cache (rcache r')) \<subseteq>\<^sub>m (dget (cache (rcache r)))(x \<mapsto> v)"
proof -
  have c: "\<exists>s. lfu_rel (rcache r) s" using inv by (simp add: router_inv_def)
  obtain c' where c': "lfu_put x v (rcache r) = (Inr (), c')" "\<exists>s. lfu_rel c' s"
    "dget (cache c') \<subseteq>\<^sub>m (dget (cache (rcache r)))(x \<mapsto> v)" using lfu.cput_spec [OF c] by blast
  let ?r = "r\<lparr>rcache := c'\<rparr>"
  have "w = PyNone \<or> w \<in> C y" if "dget (cache c') y = Some w" for y w
  proof -
    have "((dget (cache (rcache r)))(x \<mapsto> v)) y = Some w" by (rule map_le_SomeD [OF c'(3) that])
    then show ?thesis using v router_cacheD [OF inv, of y w] by (cases "y = x") auto
  qed
  then have "router_inv n S C ?r" using inv c'(2) by (simp add: router_inv_def cong: option.case_cong)
  then show thesis using that [of ?r] c'(1,3) by (simp add: cache_put_def)
qed

lemma cache_get_ok:
  assumes inv: "router_inv n S C r"
  obtains v r' where "cache_get x r = (Inr v, r')" "router_inv n S C r'" "v = PyNone \<or> v \<in> C x"
    "tables r' = tables r" "table_files r' = table_files r" "max_memtable_size r' = max_memtable_size r"
    "rwal r' = rwal r" "dget (cache (rcache r')) = dget (cache (rcache r))"
proof -
  have c: "\<exists>s. lfu_rel (rcache r) s" using inv by (simp add: router_inv_def)
  obtain c' where c': "lfu_get x (rcache r) = (Inr (dget (cache (rcache r)) x), c')" "\<exists>s. lfu_rel c' s"
    "dget (cache c') = dget (cache (rcache r))" using lfu.cget_spec [OF c, of x] by auto
  let ?r = "r\<lparr>rcache := c'\<rparr>" and ?v = "case dget (cache (rcache r)) x of None \<Rightarrow> PyNone | Some v \<Rightarrow> v"
  have "router_inv n S C ?r" using inv c'(2,3) by (simp add: router_inv_def cong: option.case_cong)
  moreover have "?v = PyNone \<or> ?v \<in> C x" using router_cacheD [OF inv, of x] by (simp split: option.split)
  ultimately show thesis using that [of ?v ?r] c'(1,3) by (simp add: cache_get_def)
qed

lemma trigger_flush_ok:
  assumes inv: "router_inv n S C r" and t: "t \<noteq> []" and n: "n < 2 ^ 31" and tb: "dget (tables r) t = Some tb"
  obtains r' where "trigger_flush e t r = (Inr (), r')" "router_inv n S C r'" "only_table t r r'"
    "dget (tables r') t \<noteq> None"
proof -
  obtain r1 tb1 where 1: "flush_wait e t r = (Inr (), r1)" "router_inv n S C r1" "only_table t r r1"
    "dget (tables r1) t = Some tb1" "job tb1 = None" "active_memtable tb1 = active_memtable tb"
    by (rule flush_wait_ok [OF inv t n tb])
  show thesis
  proof (cases "int (entries (active_memtable tb1)) \<ge> max_memtable_size r1")
    case False
    then show thesis using that [of r1] 1 by (simp add: trigger_flush_def on_table_def)
  next
    case True
    obtain h es0 es1 where a: "handler_of tb1 = Some h" "disk_inv h" "slot_list (table_view h) = es0 @ es1"
      "all_packed (es0 @ es1)" "dget (disk_index tb1) = dget (fold index_entry es0 [])" "mem_ok (active_memtable tb1)"
      "\<forall>m. immutable_memtable tb1 = Some m \<longrightarrow> mem_ok m" "stage_ok (job tb1) (immutable_memtable tb1) es0 es1"
      "weight h tb1 \<le> 2 * n" "(\<lambda>k. S (t, k)) = table_value (active_memtable tb1) (immutable_memtable tb1) (disk_value es0)"
      by (rule table_invE [OF router_table [OF 1(2) t 1(4)]])
    have none: "immutable_memtable tb1 = None" "es1 = []" using a(8) 1(5) by (simp_all add: stage_ok_def)
    let ?tb = "tb1\<lparr>immutable_memtable := Some (active_memtable tb1), immutable_tx_ids := Some (active_tx_ids tb1),
        active_memtable := new_memtable, active_tx_ids := [], job := Some Submitted\<rparr>"
    have "0 < entries (active_memtable tb1)" using True 1(2) by (auto simp: router_inv_def)
    then have "table_inv n (\<lambda>k. S (t, k)) ?tb"
      unfolding table_inv_def
      using a(1-6) none
    proof (intro exI conjI)
      show "stage_ok (job ?tb) (immutable_memtable ?tb) es0 []"
        using \<open>0 < entries (active_memtable tb1)\<close> by (simp add: stage_ok_def)
      show "weight h ?tb \<le> 2 * n" using a(9) 1(5) by (simp add: weight_def new_memtable_def)
      show "(\<lambda>k. S (t, k)) = table_value (active_memtable ?tb) (immutable_memtable ?tb) (disk_value es0)"
        unfolding a(10) using none by (simp add: table_value_def fun_eq_iff split: option.split)
    qed simp_all
    then have "router_inv n S C (put_table t ?tb r1)" by (rule router_put_same [OF 1(2)]) simp_all
    then show thesis
      using that [of "put_table t ?tb r1"] 1 True by (simp add: trigger_flush_def on_table_def only_table_def)
  qed
qed

text \<open>Changing the value of one key, in the values and in what the cache may say.\<close>

lemma table_insert_inv:
  assumes inv: "router_inv n S C r" and t: "t \<noteq> []" and tb: "dget (tables r) t = Some tb"
    and b: "packs key v b" "length b \<le> 4072" and key: "key \<noteq> []"
  obtains m where "memtable_insert key b (active_memtable tb) = (Inr (), m)"
    "\<And>txs w. router_inv (Suc n) (S((t, key) := v)) (C((t, key) := insert v (C (t, key))))
        (put_table t (tb\<lparr>active_memtable := m, active_tx_ids := txs\<rparr>) (r\<lparr>rwal := w\<rparr>))"
proof -
  obtain h es0 es1 where a: "handler_of tb = Some h" "disk_inv h" "slot_list (table_view h) = es0 @ es1"
    "all_packed (es0 @ es1)" "dget (disk_index tb) = dget (fold index_entry es0 [])" "mem_ok (active_memtable tb)"
    "\<forall>m. immutable_memtable tb = Some m \<longrightarrow> mem_ok m" "stage_ok (job tb) (immutable_memtable tb) es0 es1"
    "weight h tb \<le> 2 * n" "(\<lambda>k. S (t, k)) = table_value (active_memtable tb) (immutable_memtable tb) (disk_value es0)"
    by (rule table_invE [OF router_table [OF inv t tb]])
  obtain m where m: "memtable_insert key b (active_memtable tb) = (Inr (), m)" "mem_ok m"
    "\<And>k. mem_value m k = (if k = key then Some v else mem_value (active_memtable tb) k)"
    "entries m \<le> Suc (entries (active_memtable tb))" "0 < entries m"
    using mem_insert [OF a(6) b key] by metis
  let ?S = "S((t, key) := v)" and ?C = "C((t, key) := insert v (C (t, key)))"
  have "router_inv (Suc n) ?S ?C (put_table t (tb\<lparr>active_memtable := m, active_tx_ids := txs\<rparr>) (r\<lparr>rwal := w\<rparr>))" for txs w
  proof -
    let ?tb = "tb\<lparr>active_memtable := m, active_tx_ids := txs\<rparr>"
    have "weight h ?tb \<le> 2 * Suc n" using a(9) m(4) by (auto simp: weight_def split: option.splits flush_job.splits)
    moreover have "(\<lambda>k. ?S (t, k)) = table_value m (immutable_memtable tb) (disk_value es0)"
      using a(10) by (auto simp: fun_eq_iff table_value_def m(3) split: if_splits)
    ultimately have "table_inv (Suc n) (\<lambda>k. ?S (t, k)) ?tb"
      unfolding table_inv_def using a m(2) by (intro exI [of _ h] exI [of _ es0] exI [of _ es1]) auto
    then show ?thesis by (rule router_put [OF inv]) (use inv in \<open>auto simp: router_inv_def\<close>)
  qed
  with m(1) show thesis by (rule that)
qed

text \<open>With an entry for the key that is right or absent, the cache can only say the new value.\<close>

lemma router_inv_narrow:
  assumes inv: "router_inv n S C r" and c: "\<And>u. dget (cache (rcache r)) x = Some u \<Longrightarrow> u = PyNone \<or> u = S x"
  shows "router_inv n S (C(x := {S x})) r"
proof -
  have "u = PyNone \<or> u \<in> (C(x := {S x})) y" if y: "dget (cache (rcache r)) y = Some u" for y u
    using c router_cacheD [OF inv y] y by (cases "y = x") auto
  moreover have "S y \<in> (C(x := {S x})) y" for y using router_reflD [OF inv, of y] by (cases "y = x") simp_all
  ultimately show ?thesis using inv unfolding router_inv_def by blast
qed

lemma table_insert_ok:
  assumes inv: "router_inv n S C r" and t: "t \<noteq> []" and tb: "dget (tables r) t = Some tb"
    and b: "packs key v b" "length b \<le> 4072" and key: "key \<noteq> []"
  obtains m where "memtable_insert key b (active_memtable tb) = (Inr (), m)"
    "\<And>txs w. \<exists>r'. cache_put (t, key) v (put_table t (tb\<lparr>active_memtable := m, active_tx_ids := txs\<rparr>) (r\<lparr>rwal := w\<rparr>)) =
        (Inr (), r') \<and> router_inv (Suc n) (S((t, key) := v)) (C((t, key) := {v})) r' \<and>
        dget (tables r') t = Some (tb\<lparr>active_memtable := m, active_tx_ids := txs\<rparr>)"
proof -
  let ?S = "S((t, key) := v)" and ?C = "C((t, key) := insert v (C (t, key)))"
  obtain m where m: "memtable_insert key b (active_memtable tb) = (Inr (), m)"
    "\<And>txs w. router_inv (Suc n) ?S ?C (put_table t (tb\<lparr>active_memtable := m, active_tx_ids := txs\<rparr>) (r\<lparr>rwal := w\<rparr>))"
    using table_insert_inv [OF inv t tb b key] by blast
  have "\<exists>r'. cache_put (t, key) v (put_table t (tb\<lparr>active_memtable := m, active_tx_ids := txs\<rparr>) (r\<lparr>rwal := w\<rparr>)) =
        (Inr (), r') \<and> router_inv (Suc n) ?S (C((t, key) := {v})) r' \<and>
        dget (tables r') t = Some (tb\<lparr>active_memtable := m, active_tx_ids := txs\<rparr>)" for txs w
  proof -
    let ?r2 = "put_table t (tb\<lparr>active_memtable := m, active_tx_ids := txs\<rparr>) (r\<lparr>rwal := w\<rparr>)"
    obtain r3 where 3: "cache_put (t, key) v ?r2 = (Inr (), r3)" "router_inv (Suc n) ?S ?C r3" "tables r3 = tables ?r2"
      "dget (cache (rcache r3)) \<subseteq>\<^sub>m (dget (cache (rcache ?r2)))((t, key) \<mapsto> v)"
      by (rule cache_put_ok [OF m(2), of v "(t, key)" txs w]) auto
    have "u = PyNone \<or> u = ?S (t, key)" if "dget (cache (rcache r3)) (t, key) = Some u" for u
      using map_le_SomeD [OF 3(4) that] by simp
    from router_inv_narrow [OF 3(2) this] have "router_inv (Suc n) ?S (?C((t, key) := {?S (t, key)})) r3" .
    moreover have "?C((t, key) := {?S (t, key)}) = C((t, key) := {v})" by simp
    ultimately have "router_inv (Suc n) ?S (C((t, key) := {v})) r3" by (simp only:)
    then show ?thesis using 3(1,3) by (intro exI [of _ r3] conjI) simp_all
  qed
  with m(1) show thesis by (rule that)
qed

lemma flush_if_full_ok:
  assumes inv: "router_inv n S C r" and t: "t \<noteq> []" and n: "n < 2 ^ 31" and tb: "dget (tables r) t = Some tb"
  obtains r' where "(if full then trigger_flush e t r else (Inr (), r)) = (Inr (), r')" "router_inv n S C r'"
proof (cases full)
  case True
  obtain r' where "trigger_flush e t r = (Inr (), r')" "router_inv n S C r'"
    by (rule trigger_flush_ok [OF inv t n tb])
  then show thesis using that True by simp
next
  case False
  then show thesis using that inv by simp
qed

lemma set_internal_ok:
  assumes inv: "router_inv n S C r" and e: "env_ok e" and t: "t \<noteq> []" and n: "Suc n < 2 ^ 31" and fit: "fits key v"
  obtains r' where "set_internal e t key v r = (Inr (), r')"
    "router_inv (Suc n) (S((t, key) := v)) (C((t, key) := {v})) r'"
proof -
  obtain b where b: "packs key v b" "length b \<le> 4072" and key: "key \<noteq> []" using fit by (auto simp: fits_def)
  obtain r1 tb where 1: "get_table_state e t r = (Inr (), r1)" "router_inv n S C r1" "dget (tables r1) t = Some tb"
    using get_table_state_ok [OF inv e t] by metis
  obtain m where m: "memtable_insert key b (active_memtable tb) = (Inr (), m)"
    "\<And>txs w. \<exists>r'. cache_put (t, key) v (put_table t (tb\<lparr>active_memtable := m, active_tx_ids := txs\<rparr>) (r1\<lparr>rwal := w\<rparr>)) =
        (Inr (), r') \<and> router_inv (Suc n) (S((t, key) := v)) (C((t, key) := {v})) r' \<and>
        dget (tables r') t = Some (tb\<lparr>active_memtable := m, active_tx_ids := txs\<rparr>)"
    using table_insert_ok [OF 1(2) t 1(3) b key] by blast
  obtain tx w where tx: "append_wait e b (rwal r1) = (tx, w)" by fastforce
  let ?tb = "tb\<lparr>active_memtable := m, active_tx_ids := active_tx_ids tb @ [tx]\<rparr>"
  obtain r3 where 3: "cache_put (t, key) v (put_table t ?tb (r1\<lparr>rwal := w\<rparr>)) = (Inr (), r3)"
    "router_inv (Suc n) (S((t, key) := v)) (C((t, key) := {v})) r3" "dget (tables r3) t = Some ?tb"
    using m(2) by blast
  have "pack_kv key v = Inr b" using b(1) by (simp add: packs_def)
  then have "set_internal e t key v r =
      (if int (entries m) \<ge> max_memtable_size r3 then trigger_flush e t r3 else (Inr (), r3))"
    using t key 1(1,3) tx m(1) 3(1) by (simp add: set_internal_def on_table_def Let_def)
  moreover obtain r' where "(if int (entries m) \<ge> max_memtable_size r3 then trigger_flush e t r3 else (Inr (), r3)) =
      (Inr (), r')" "router_inv (Suc n) (S((t, key) := v)) (C((t, key) := {v})) r'"
    by (rule flush_if_full_ok [OF 3(2) t n 3(3)])
  ultimately show thesis using that by simp
qed

text \<open>\<open>set_many\<close> is its assignments one after the other.\<close>

definition set_values :: "pystr \<Rightarrow> (pystr \<times> 'a) list \<Rightarrow> (pystr \<times> pystr \<Rightarrow> 'a) \<Rightarrow> pystr \<times> pystr \<Rightarrow> 'a" where
  "set_values t kvs S = fold (\<lambda>(k, v) S. S((t, k) := v)) kvs S"

lemma set_values_Cons: "set_values t ((k, v) # kvs) S = set_values t kvs (S((t, k) := v))"
  by (simp add: set_values_def)

lemma pack_all_ok:
  "\<forall>(k, v) \<in> set kvs. fits k v \<Longrightarrow>
   \<exists>ps. pack_all kvs = Inr ps \<and> list_all2 (\<lambda>(k, v) (k', b). k' = k \<and> packs k v b \<and> length b \<le> 4072) kvs ps"
proof (induction kvs)
  case (Cons kv kvs)
  obtain k v where kv: "kv = (k, v)" by fastforce
  obtain b where b: "packs k v b" "length b \<le> 4072" using Cons.prems kv by (auto simp: fits_def)
  then have "pack_kv k v = Inr b" by (simp add: packs_def)
  with Cons b kv show ?case by auto
qed simp

lemma insert_many_ok:
  assumes "router_inv n S C r" and "t \<noteq> []" and "dget (tables r) t = Some tb" and "distinct (map fst all)"
    and "set kvs \<subseteq> set all" and "[] \<notin> fst ` set kvs"
    and "list_all2 (\<lambda>(k, v) (k', b). k' = k \<and> packs k v b \<and> length b \<le> 4072) kvs ps"
  shows "\<exists>r' tb'. insert_many t ps all r = (Inr (), r') \<and> dget (tables r') t = Some tb' \<and>
    router_inv (n + length kvs) (set_values t kvs S) (set_values t (map (\<lambda>(k, v). (k, {v})) kvs) C) r'"
  using assms
proof (induction kvs arbitrary: ps n S C r tb)
  case Nil
  then show ?case by (simp add: set_values_def)
next
  case (Cons kv kvs)
  obtain k v where kv: "kv = (k, v)" by fastforce
  obtain b ps' where ps: "ps = (k, b) # ps'" "packs k v b" "length b \<le> 4072"
    "list_all2 (\<lambda>(k, v) (k', b). k' = k \<and> packs k v b \<and> length b \<le> 4072) kvs ps'"
    using Cons.prems(7) kv by (cases ps) auto
  have k: "k \<noteq> []" "dget all k = Some v"
    using Cons.prems(4-6) kv by (auto simp: map_of_eq_Some_iff)
  obtain m where m: "memtable_insert k b (active_memtable tb) = (Inr (), m)"
    "\<And>txs w. \<exists>r'. cache_put (t, k) v (put_table t (tb\<lparr>active_memtable := m, active_tx_ids := txs\<rparr>) (r\<lparr>rwal := w\<rparr>)) =
        (Inr (), r') \<and> router_inv (Suc n) (S((t, k) := v)) (C((t, k) := {v})) r' \<and>
        dget (tables r') t = Some (tb\<lparr>active_memtable := m, active_tx_ids := txs\<rparr>)"
    using table_insert_ok [OF Cons.prems(1-3) ps(2,3) k(1)] by blast
  obtain r1 where r1: "cache_put (t, k) v (put_table t (tb\<lparr>active_memtable := m\<rparr>) r) = (Inr (), r1)"
    "router_inv (Suc n) (S((t, k) := v)) (C((t, k) := {v})) r1" "\<exists>tb'. dget (tables r1) t = Some tb'"
    using m(2) [of "active_tx_ids tb" "rwal r"] by (cases tb; cases r) auto
  obtain tb1 where tb1: "dget (tables r1) t = Some tb1" using r1(3) by blast
  have "set kvs \<subseteq> set all" "[] \<notin> fst ` set kvs" using Cons.prems(5,6) by auto
  from Cons.IH [OF r1(2) Cons.prems(2) tb1 Cons.prems(4) this ps(4)] obtain r' tb' where
    "insert_many t ps' all r1 = (Inr (), r')" "dget (tables r') t = Some tb'"
    "router_inv (Suc n + length kvs) (set_values t kvs (S((t, k) := v)))
       (set_values t (map (\<lambda>(k, v). (k, {v})) kvs) (C((t, k) := {v}))) r'" by blast
  then show ?case
    using ps(1) Cons.prems(3) m(1) k(2) r1(1) kv by (simp add: on_table_def set_values_Cons)
qed

lemma table_inv_txs [simp]: "table_inv n S (tb\<lparr>active_tx_ids := txs\<rparr>) = table_inv n S tb"
  by (simp add: table_inv_def weight_def)

lemma set_many_ok:
  assumes inv: "router_inv n S C r" and e: "env_ok e" and t: "t \<noteq> []" and n: "n + length kvs < 2 ^ 31"
    and fit: "\<forall>(k, v) \<in> set kvs. fits k v" and d: "distinct (map fst kvs)" and ne: "kvs \<noteq> []"
  obtains r' where "set_many e t kvs r = (Inr (), r')"
    "router_inv (n + length kvs) (set_values t kvs S) (set_values t (map (\<lambda>(k, v). (k, {v})) kvs) C) r'"
proof -
  let ?S = "set_values t kvs S" and ?C = "set_values t (map (\<lambda>(k, v). (k, {v})) kvs) C"
  obtain ps where ps: "pack_all kvs = Inr ps"
    "list_all2 (\<lambda>(k, v) (k', b). k' = k \<and> packs k v b \<and> length b \<le> 4072) kvs ps"
    using pack_all_ok [OF fit] by blast
  obtain txs w where tx: "append_many_wait e (map snd ps) (rwal r) = (txs, w)" by fastforce
  obtain r1 tb where 1: "get_table_state e t (r\<lparr>rwal := w\<rparr>) = (Inr (), r1)" "router_inv n S C r1"
    "dget (tables r1) t = Some tb"
    using get_table_state_ok [OF router_inv_wal [OF inv] e t] by metis
  have "[] \<notin> fst ` set kvs" using fit by (auto simp: fits_def)
  then obtain r2 tb2 where 2: "insert_many t ps kvs r1 = (Inr (), r2)" "dget (tables r2) t = Some tb2"
    "router_inv (n + length kvs) ?S ?C r2"
    using insert_many_ok [OF 1(2) t 1(3) d _ _ ps(2)] by auto
  let ?tb = "tb2\<lparr>active_tx_ids := active_tx_ids tb2 @ txs\<rparr>"
  let ?r3 = "put_table t ?tb r2"
  have 3: "router_inv (n + length kvs) ?S ?C ?r3"
    by (rule router_put_same [OF 2(3)]) (use router_table [OF 2(3) t 2(2)] in simp_all)
  have "set_many e t kvs r =
      (if int (entries (active_memtable tb2)) \<ge> max_memtable_size ?r3 then trigger_flush e t ?r3 else (Inr (), ?r3))"
    using t ne ps(1) tx 1(1) 2(1,2) by (simp add: set_many_def set_many_internal_def on_table_def Let_def)
  moreover obtain r' where
    "(if int (entries (active_memtable tb2)) \<ge> max_memtable_size ?r3 then trigger_flush e t ?r3 else (Inr (), ?r3)) =
      (Inr (), r')" "router_inv (n + length kvs) ?S ?C r'"
    by (rule flush_if_full_ok [OF 3 t n]) simp
  ultimately show thesis using that by simp
qed

lemma mem_contains: "mem_ok m \<Longrightarrow> key \<noteq> [] \<Longrightarrow> memtable_contains key m = Inr (mem_value m key \<noteq> None)"
  using memtable_contains_correct [of m key] mem_value_None_iff [of m key] by (simp add: mem_ok_def)

lemma mem_search:
  assumes "mem_ok m" and "key \<noteq> []" and "mem_value m key = Some v"
  shows "memtable_value key m = Inr v" and "\<exists>b. memtable_search key m = Inr (Some b) \<and> unpack_kv b = Inr (key, v)"
proof -
  have "mt_lookup m key \<noteq> None" using assms(1,3) mem_value_None_iff [of m key] by auto
  then obtain b where b: "mt_lookup m key = Some b" by blast
  obtain v' where v': "packs key v' b" "mem_value m key = Some v'" by (rule mem_lookup [OF assms(1) b])
  have "memtable_search key m = Inr (Some b)"
    using memtable_search_correct [of m key] assms(1,2) b by (simp add: mem_ok_def)
  then show "memtable_value key m = Inr v" "\<exists>b. memtable_search key m = Inr (Some b) \<and> unpack_kv b = Inr (key, v)"
    using unpack_packed [OF v'(1)] v'(2) assms(3) by (simp_all add: memtable_value_def)
qed

lemma read_from_disk_ok:
  assumes inv: "router_inv n S C r" and t: "t \<noteq> []" and tb: "dget (tables r) t = Some tb"
    and "mem_value (active_memtable tb) key = None"
    and "\<forall>m. immutable_memtable tb = Some m \<longrightarrow> mem_value m key = None"
  obtains r' where "read_from_disk e t key r = (Inr (S (t, key)), r')" "router_inv n S C r'"
proof -
  obtain h es0 es1 where a: "handler_of tb = Some h" "disk_inv h" "slot_list (table_view h) = es0 @ es1"
    "all_packed (es0 @ es1)" "dget (disk_index tb) = dget (fold index_entry es0 [])" "mem_ok (active_memtable tb)"
    "\<forall>m. immutable_memtable tb = Some m \<longrightarrow> mem_ok m" "stage_ok (job tb) (immutable_memtable tb) es0 es1"
    "weight h tb \<le> 2 * n" "(\<lambda>k. S (t, k)) = table_value (active_memtable tb) (immutable_memtable tb) (disk_value es0)"
    by (rule table_invE [OF router_table [OF inv t tb]])
  have v: "S (t, key) = disk_value es0 key"
    using fun_cong [OF a(10), of key] assms(4,5) by (simp add: table_value_def split: option.split)
  have "all_packed es0" using a(4) by (simp add: all_packed_def)
  then obtain h' where h': "read_disk key (disk_index tb) h = (Inr (disk_value es0 key), h')" "disk_inv h'"
    "tbl_file h' = tbl_file h" using read_disk_ok [OF a(2,3) _ a(5)] by metis
  let ?tb = "tb\<lparr>handler_of := Some h'\<rparr>"
  have "get_table_state e t r = (Inr (), r)" using tb a(1) by (simp add: get_table_state_def)
  then have "read_from_disk e t key r = (Inr (S (t, key)), put_table t ?tb r)"
    using tb a(1) h'(1) v by (simp add: read_from_disk_def on_handler_def on_table_def)
  moreover have "weight h' ?tb = weight h tb" using same_file(1) [OF h'(3)] by (simp add: weight_def)
  then have "table_inv n (\<lambda>k. S (t, k)) ?tb"
    unfolding table_inv_def using a h'(2) same_file(2) [OF h'(3)]
    by (intro exI [of _ h'] exI [of _ es0] exI [of _ es1]) simp
  then have "router_inv n S C (put_table t ?tb r)" by (rule router_put_same [OF inv]) simp_all
  ultimately show thesis by (rule that)
qed

lemma router_memtables:
  assumes inv: "router_inv n S C r" and t: "t \<noteq> []" and tb: "dget (tables r) t = Some tb"
  shows "mem_ok (active_memtable tb)" and "immutable_memtable tb = Some m \<Longrightarrow> mem_ok m"
    and "mem_value (active_memtable tb) k = Some v \<Longrightarrow> S (t, k) = v"
    and "mem_value (active_memtable tb) k = None \<Longrightarrow> immutable_memtable tb = Some m \<Longrightarrow> mem_value m k = Some v \<Longrightarrow>
      S (t, k) = v"
proof -
  obtain h es0 es1 where a: "mem_ok (active_memtable tb)" "\<forall>m. immutable_memtable tb = Some m \<longrightarrow> mem_ok m"
    "(\<lambda>k. S (t, k)) = table_value (active_memtable tb) (immutable_memtable tb) (disk_value es0)"
    by (rule table_invE [OF router_table [OF inv t tb]])
  show "mem_ok (active_memtable tb)" "immutable_memtable tb = Some m \<Longrightarrow> mem_ok m" using a(1,2) by blast+
  note v = fun_cong [OF a(3), of k]
  show "mem_value (active_memtable tb) k = Some v \<Longrightarrow> S (t, k) = v" using v by (simp add: table_value_def)
  show "mem_value (active_memtable tb) k = None \<Longrightarrow> immutable_memtable tb = Some m \<Longrightarrow> mem_value m k = Some v \<Longrightarrow>
      S (t, k) = v" using v by (simp add: table_value_def)
qed

text \<open>Where a key is: in the active memtable, in the immutable one, or only on disk.\<close>

lemma where_is:
  assumes inv: "router_inv n S C r" and t: "t \<noteq> []" and tb: "dget (tables r) t = Some tb" and key: "key \<noteq> []"
  obtains (active) "memtable_contains key (active_memtable tb) = Inr True"
      "mem_value (active_memtable tb) key = Some (S (t, key))"
  | (immutable) m where "memtable_contains key (active_memtable tb) = Inr False" "immutable_contains key tb = Inr True"
      "immutable_memtable tb = Some m" "mem_ok m" "mem_value m key = Some (S (t, key))"
  | (disk) "memtable_contains key (active_memtable tb) = Inr False" "immutable_contains key tb = Inr False"
      "mem_value (active_memtable tb) key = None" "\<forall>m. immutable_memtable tb = Some m \<longrightarrow> mem_value m key = None"
proof -
  note m = router_memtables [OF inv t tb]
  note c = mem_contains [OF m(1) key]
  show thesis
  proof (cases "mem_value (active_memtable tb) key")
    case (Some v)
    then show thesis using active c m(3) [OF Some] by simp
  next
    case None
    show thesis
    proof (cases "immutable_memtable tb")
      case None': None
      then show thesis using disk c None by (simp add: immutable_contains_def)
    next
      case (Some im)
      note ok = m(2) [OF Some]
      show thesis
      proof (cases "mem_value im key")
        case None'': None
        then show thesis using disk c None Some mem_contains [OF ok key] by (simp add: immutable_contains_def)
      next
        case (Some v)
        then show thesis
          using immutable [of im] c None \<open>immutable_memtable tb = Some im\<close> ok mem_contains [OF ok key] m(4) [OF None _ Some]
          by (simp add: immutable_contains_def)
      qed
    qed
  qed
qed

lemma cache_found_ok:
  assumes inv: "router_inv n S C r" and v: "v \<in> C x"
  obtains r' where "cache_found x v r = (Inr v, r')" "router_inv n S C r'"
proof (cases "v = PyNone")
  case True
  then show thesis using that inv by (simp add: cache_found_def)
next
  case False
  obtain r' where "cache_put x v r = (Inr (), r')" "router_inv n S C r'"
    using cache_put_ok [OF inv, of v x] v by metis
  then show thesis using that False by (simp add: cache_found_def)
qed

lemma get_internal_ok:
  assumes inv: "router_inv n S C r" and e: "env_ok e" and t: "t \<noteq> []" and key: "key \<noteq> []"
  obtains v r' where "get_internal e t key r = (Inr v, r')" "router_inv n S C r'" "v \<in> C (t, key)"
proof -
  obtain c r1 where 1: "cache_get (t, key) r = (Inr c, r1)" "router_inv n S C r1" "c = PyNone \<or> c \<in> C (t, key)"
    using cache_get_ok [OF inv, of "(t, key)"] by metis
  have refl: "S (t, key) \<in> C (t, key)" by (rule router_reflD [OF inv])
  show thesis
  proof (cases "c = PyNone")
    case False
    then show thesis using that [of c r1] 1 t key by (simp add: get_internal_def)
  next
    case True
    obtain r2 tb where 2: "get_table_state e t r1 = (Inr (), r2)" "router_inv n S C r2" "dget (tables r2) t = Some tb"
      using get_table_state_ok [OF 1(2) e t] by metis
    note mo = router_memtables [OF 2(2) t 2(3)]
    show thesis
    proof (cases rule: where_is [OF 2(2) t 2(3) key])
      case active: 1
      note s = mem_search(1) [OF mo(1) key active(2)]
      obtain r3 where "cache_put (t, key) (S (t, key)) r2 = (Inr (), r3)" "router_inv n S C r3"
        using cache_put_ok [OF 2(2), of "S (t, key)" "(t, key)"] refl by metis
      then show thesis
        using that [of "S (t, key)" r3] refl 1(1) 2(1,3) True t key active s by (simp add: get_internal_def on_table_def)
    next
      case immutable: (2 m)
      note s = mem_search(1) [OF immutable(4) key immutable(5)]
      obtain r3 where "cache_found (t, key) (S (t, key)) r2 = (Inr (S (t, key)), r3)" "router_inv n S C r3"
        by (rule cache_found_ok [OF 2(2) refl])
      then show thesis
        using that [of "S (t, key)" r3] refl 1(1) 2(1,3) True t key immutable s by (simp add: get_internal_def on_table_def)
    next
      case disk: 3
      obtain r3 where 3: "read_from_disk e t key r2 = (Inr (S (t, key)), r3)" "router_inv n S C r3"
        by (rule read_from_disk_ok [OF 2(2) t 2(3) disk(3,4)])
      obtain r4 where "cache_found (t, key) (S (t, key)) r3 = (Inr (S (t, key)), r4)" "router_inv n S C r4"
        by (rule cache_found_ok [OF 3(2) refl])
      then show thesis
        using that [of "S (t, key)" r4] refl 1(1) 2(1,3) 3 True t key disk by (simp add: get_internal_def on_table_def)
    qed
  qed
qed

lemma get_raw_manifest_ok:
  assumes inv: "router_inv n S C r" and e: "env_ok e" and t: "t \<noteq> []" and key: "key \<noteq> []"
  obtains r' where "get_raw_manifest e t key r = (Inr (S (t, key)), r')" "router_inv n S C r'"
proof -
  obtain r1 tb where 1: "get_table_state e t r = (Inr (), r1)" "router_inv n S C r1" "dget (tables r1) t = Some tb"
    using get_table_state_ok [OF inv e t] by metis
  note mo = router_memtables [OF 1(2) t 1(3)]
  show thesis
  proof (cases rule: where_is [OF 1(2) t 1(3) key])
    case active: 1
    obtain b where "memtable_search key (active_memtable tb) = Inr (Some b)" "unpack_kv b = Inr (key, S (t, key))"
      using mem_search(2) [OF mo(1) key active(2)] by blast
    then show thesis using that [of r1] 1 active(1) by (simp add: get_raw_manifest_def on_table_def)
  next
    case immutable: (2 m)
    obtain b where "memtable_search key m = Inr (Some b)" "unpack_kv b = Inr (key, S (t, key))"
      using mem_search(2) [OF immutable(4) key immutable(5)] by blast
    then show thesis using that [of r1] 1 immutable by (simp add: get_raw_manifest_def on_table_def)
  next
    case disk: 3
    obtain r2 where "read_from_disk e t key r1 = (Inr (S (t, key)), r2)" "router_inv n S C r2"
      by (rule read_from_disk_ok [OF 1(2) t 1(3) disk(3,4)])
    then show thesis using that [of r2] 1 disk by (simp add: get_raw_manifest_def on_table_def)
  qed
qed

end
