(* ===== verification/Router_Chunks.thy ===== *)
theory Router_Chunks
  imports Router_Map Machines
begin

text \<open>
  The router as its clients see it: values of any size under the keys of any table. A large value is
  kept as a manifest under its key and compressed chunks under chunk keys; reading joins them. The
  property at the end is the router's contract: every history of calls, with flush stages and rounds of
  the log writer anywhere between them, answers as a map.
\<close>

subsection \<open>Sizes of the records that the router makes\<close>

lemma fitsI:
  assumes "json_value v" and "key \<noteq> []" and "utf8_encode key = Inr kb" and "dumps v = Inr t"
    and "length kb + length t \<le> 4070"
  shows "fits key v"
proof -
  have "length kb \<le> 0xFFFF" using assms(5) by simp
  then obtain b where b: "packs key v b" using pack_kv_ok [OF assms(1,3)] by blast
  obtain kb' t' where k: "utf8_encode key = Inr kb'" "dumps v = Inr t'"
      "b = be_bytes 2 (length kb') @ kb' @ map mk_byte t'"
    by (rule packsE [OF b])
  with assms(3-5) have "length b \<le> 4072" by simp
  with b assms(2) show ?thesis by (auto simp: fits_def)
qed

lemma length_dec_nat: "n < 10 ^ k \<Longrightarrow> 0 < k \<Longrightarrow> length (dec_nat n) \<le> k"
proof (induction n arbitrary: k rule: dec_nat.induct)
  case (1 n)
  show ?case
  proof (cases "n < 10")
    case True
    then show ?thesis using 1 by (simp add: dec_nat.simps [of n])
  next
    case False
    obtain j where k: "k = Suc j" using 1(3) by (cases k) auto
    have j: "0 < j" using False 1(2) k by (cases j) auto
    have "n div 10 < 10 ^ j" using 1(2) k by (simp add: less_mult_imp_div_less mult.commute)
    from 1(1) [OF False this j] False k show ?thesis by (simp add: dec_nat.simps [of n])
  qed
qed

definition plain_char :: "nat \<Rightarrow> bool" where
  "plain_char c \<longleftrightarrow> 32 \<le> c \<and> c < 127 \<and> c \<noteq> 34 \<and> c \<noteq> 92"

lemma plain_dumps_str: "\<forall>c \<in> set s. plain_char c \<Longrightarrow> dumps_str s = 34 # s @ [34]"
proof -
  assume p: "\<forall>c \<in> set s. plain_char c"
  then have "concat (map esc_char s) = s"
    by (induction s) (auto simp: esc_char_def plain_char_def)
  then show ?thesis by (simp add: dumps_str_def)
qed

lemma plain_json_text: "\<forall>c \<in> set s. plain_char c \<Longrightarrow> json_text s"
  by (induction s) (auto simp: plain_char_def code_point_def high_surrogate_def)

lemma b64_char_plain: "v < 64 \<Longrightarrow> plain_char (b64_char v)"
  by (auto simp: b64_char_def plain_char_def)

lemma b64_vals_plain: "\<forall>x \<in> set xs. x < 256 \<Longrightarrow> \<forall>y \<in> set (b64encode_vals xs). plain_char y"
proof (induction xs rule: b64encode_vals.induct)
  case (2 a)
  then show ?case using b64_bits [of a 0 0] by (simp add: b64_char_plain) (simp add: plain_char_def)
next
  case (3 a b)
  then show ?case using b64_bits [of a b 0] by (simp add: b64_char_plain) (simp add: plain_char_def)
next
  case (4 a b c xs)
  then show ?case using b64_bits [of a b c] by (simp add: b64_char_plain)
qed simp

lemma chunk_text_json:
  "json_value (chunk_text c)" "dumps (chunk_text c) = Inr (34 # map unat (b64encode c) @ [34])"
proof -
  have p: "\<forall>y \<in> set (map unat (b64encode c)). plain_char y"
    unfolding b64encode_unat by (rule b64_vals_plain [OF b64_vals_below])
  show "json_value (chunk_text c)" unfolding chunk_text_def json_value.simps by (rule plain_json_text [OF p])
  show "dumps (chunk_text c) = Inr (34 # map unat (b64encode c) @ [34])"
    unfolding chunk_text_def dumps.simps plain_dumps_str [OF p] ..
qed

definition key_ok :: "pystr \<Rightarrow> bool" where
  "key_ok key \<longleftrightarrow> key \<noteq> [] \<and> \<not> is_chunk_key key \<and> (\<exists>kb. utf8_encode key = Inr kb \<and> length kb \<le> 1000)"

lemma chunk_key_utf8:
  assumes "utf8_encode key = Inr kb"
  shows "\<exists>cb. utf8_encode (chunk_key key i) = Inr cb \<and> length cb = 11 + length kb + length (dec_nat i)"
proof -
  have "utf8_encode (lit ''__chunk__:'') = Inr (map mk_byte (lit ''__chunk__:''))"
    by (rule utf8_ascii) (simp add: lit_def)
  moreover have "c < 128" if "c \<in> set (dec_nat i)" for c using dec_nat_digits [OF that] by (simp add: digit_def)
  then have "utf8_encode (58 # dec_nat i) = Inr (map mk_byte (58 # dec_nat i))" by (intro utf8_ascii) auto
  ultimately show ?thesis
    using assms by (simp add: chunk_key_def utf8_encode_append del: utf8_encode.simps)
qed

lemma fits_chunk:
  assumes "key_ok key" and "length c \<le> 2000" and "i < 2 ^ 31"
  shows "fits (chunk_key key i) (chunk_text c)" and "fits (chunk_key key i) PyNone"
proof -
  obtain kb where kb: "utf8_encode key = Inr kb" "length kb \<le> 1000" using assms(1) by (auto simp: key_ok_def)
  obtain cb where cb: "utf8_encode (chunk_key key i) = Inr cb" "length cb = 11 + length kb + length (dec_nat i)"
    using chunk_key_utf8 [OF kb(1)] by blast
  have d: "length (dec_nat i) \<le> 10" by (rule length_dec_nat) (use assms(3) in simp_all)
  have ne: "chunk_key key i \<noteq> []" by (simp add: chunk_key_def)
  have "(length c + 2) div 3 \<le> 667" using assms(2) by simp
  then have "length (34 # map unat (b64encode c) @ [34]) \<le> 2670" by (simp add: length_b64encode)
  then have "length cb + length (34 # map unat (b64encode c) @ [34]) \<le> 4070" using cb(2) kb(2) d by linarith
  then show "fits (chunk_key key i) (chunk_text c)" by (rule fitsI [OF chunk_text_json(1) ne cb(1) chunk_text_json(2)])
  have null: "dumps PyNone = Inr (lit ''null'')" by simp
  show "fits (chunk_key key i) PyNone"
    by (rule fitsI [OF _ ne cb(1) null]) (use cb(2) kb(2) d in simp_all)
qed

lemma manifest_json:
  assumes "n < 2 ^ 31" and "sz < 2 ^ 64"
  shows "json_value (make_manifest n sz)" "\<exists>t. dumps (make_manifest n sz) = Inr t \<and> length t \<le> 200"
proof -
  have dn: "length (dec_nat n) \<le> 10" by (rule length_dec_nat) (use assms(1) in simp_all)
  have ds: "length (dec_nat sz) \<le> 20" by (rule length_dec_nat) (use assms(2) in simp_all)
  show "json_value (make_manifest n sz)"
    using dn ds by (simp add: make_manifest_def lit_def code_point_def high_surrogate_def)
  have i: "int_text (int k) = Inr (dec_nat k)" if "length (dec_nat k) \<le> 20" for k
    using that by (simp add: int_text_def dec_int_def)
  have q: "dumps_str (lit ''__cachy_overflow__'') = 34 # lit ''__cachy_overflow__'' @ [34]"
    "dumps_str (lit ''num_chunks'') = 34 # lit ''num_chunks'' @ [34]"
    "dumps_str (lit ''original_size'') = 34 # lit ''original_size'' @ [34]"
    "dumps_str (lit ''compressed'') = 34 # lit ''compressed'' @ [34]"
    by (rule plain_dumps_str, simp add: lit_def plain_char_def)+
  show "\<exists>t. dumps (make_manifest n sz) = Inr t \<and> length t \<le> 200"
    using i [of n] i [of sz] dn ds by (simp add: make_manifest_def q)
qed

lemma fits_manifest:
  assumes "key_ok key" and "n < 2 ^ 31" and "sz < 2 ^ 64"
  shows "fits key (make_manifest n sz)"
proof -
  obtain kb where kb: "utf8_encode key = Inr kb" "length kb \<le> 1000" using assms(1) by (auto simp: key_ok_def)
  obtain t where t: "dumps (make_manifest n sz) = Inr t" "length t \<le> 200" using manifest_json(2) [OF assms(2,3)] by blast
  have "key \<noteq> []" using assms(1) by (simp add: key_ok_def)
  from fitsI [OF manifest_json(1) [OF assms(2,3)] this kb(1) t(1)] kb(2) t(2) show ?thesis by simp
qed

definition value_bytes :: "pyval \<Rightarrow> bytes result" where
  "value_bytes v = bind_result (dumps v) utf8_encode"

lemma value_bytes_ok:
  assumes "json_value v"
  obtains t where "dumps v = Inr t" "value_bytes v = Inr (map mk_byte t)" "utf8_encode t = Inr (map mk_byte t)"
    "loads t = Inr v"
proof -
  obtain t where t: "dumps v = Inr t" using parse_dumps(1) [OF assms] by blast
  have "utf8_encode t = Inr (map mk_byte t)" using dumps_ascii(1) [OF assms t] by (intro utf8_ascii) blast
  with that [OF t] t json_roundtrip [OF assms] show thesis by (simp add: value_bytes_def)
qed

lemma fits_small:
  assumes "key_ok key" and "json_value v" and "value_bytes v = Inr vb" and "length vb \<le> 2000"
  shows "fits key v"
proof -
  obtain kb where kb: "utf8_encode key = Inr kb" "length kb \<le> 1000" using assms(1) by (auto simp: key_ok_def)
  obtain t where t: "dumps v = Inr t" "value_bytes v = Inr (map mk_byte t)" by (rule value_bytes_ok [OF assms(2)])
  have "key \<noteq> []" using assms(1) by (simp add: key_ok_def)
  from fitsI [OF assms(2) this kb(1) t(1)] t(2) assms(3,4) kb(2) show ?thesis by simp
qed

subsection \<open>Chunk keys\<close>

lemma is_chunk_chunk [simp]: "is_chunk_key (chunk_key key i)"
  by (simp add: is_chunk_key_def chunk_key_def lit_def)

lemma chunk_key_not_key: "key_ok key \<Longrightarrow> chunk_key key' i \<noteq> key"
  by (auto simp: key_ok_def)

lemma no_colon: "58 \<notin> set (dec_nat i)"
  using dec_nat_digits [of 58 i] by (auto simp: digit_def)

lemma chunk_key_inj [simp]: "chunk_key key i = chunk_key key' j \<longleftrightarrow> key = key' \<and> i = j"
proof
  assume "chunk_key key i = chunk_key key' j"
  then have e: "key @ [58] @ dec_nat i = key' @ [58] @ dec_nat j" by (simp add: chunk_key_def)
  from arg_cong [OF this, of rev] have r: "rev (dec_nat i) @ 58 # rev key = rev (dec_nat j) @ 58 # rev key'" by simp
  have t: "takeWhile (\<lambda>c. c \<noteq> 58) (rev (dec_nat k) @ 58 # xs) = rev (dec_nat k)" for k xs
    by (subst takeWhile_append2) (use no_colon [of k] in auto)
  from arg_cong [OF r, of "takeWhile (\<lambda>c. c \<noteq> 58)"] have "dec_nat i = dec_nat j" unfolding t by simp
  then show "key = key' \<and> i = j" using e by simp
qed simp

lemma split_chunks_size: "c \<in> set (split_chunks bs) \<Longrightarrow> length c \<le> 2000"
proof (induction bs rule: split_chunks.induct)
  case (1 bs)
  show ?case
  proof (cases "bs = []")
    case True
    then show ?thesis using 1(2) by (simp add: split_chunks.simps)
  next
    case False
    then show ?thesis using 1 by (auto simp: split_chunks.simps [of bs])
  qed
qed

subsection \<open>Writing and dropping chunks\<close>

fun chunk_pairs :: "pystr \<Rightarrow> nat \<Rightarrow> 'a list \<Rightarrow> (pystr \<times> 'a) list" where
  "chunk_pairs key i [] = []"
| "chunk_pairs key i (v # vs) = (chunk_key key i, v) # chunk_pairs key (Suc i) vs"

lemma set_values_other:
  "t' \<noteq> t \<or> k \<notin> fst ` set kvs \<Longrightarrow> set_values t kvs S (t', k) = S (t', k)"
proof (induction kvs arbitrary: S)
  case (Cons kv kvs)
  then show ?case by (cases kv) (auto simp: set_values_Cons)
qed (simp add: set_values_def)

lemma chunk_pairs_keys: "fst ` set (chunk_pairs key i vs) = chunk_key key ` {i ..< i + length vs}"
  by (induction key i vs rule: chunk_pairs.induct) (auto simp: image_iff Suc_le_eq le_eq_less_or_eq)

lemma set_values_chunk:
  "j < length vs \<Longrightarrow> set_values t (chunk_pairs key i vs) S (t, chunk_key key (i + j)) = vs ! j"
proof (induction key i vs arbitrary: j S rule: chunk_pairs.induct)
  case (2 key i v vs)
  show ?case
  proof (cases j)
    case 0
    have "chunk_key key i \<notin> fst ` set (chunk_pairs key (Suc i) vs)" by (auto simp: chunk_pairs_keys)
    then show ?thesis using 0 by (simp add: set_values_Cons set_values_other)
  next
    case (Suc j')
    then show ?thesis using 2(1) [of j'] 2(2) by (simp add: set_values_Cons)
  qed
qed simp

lemma map_chunk_pairs: "map (\<lambda>(k, v). (k, f v)) (chunk_pairs key i vs) = chunk_pairs key i (map f vs)"
  by (induction key i vs rule: chunk_pairs.induct) auto

lemma router_inv_mono:
  assumes "router_inv n S C r" and "n \<le> n'" and "\<And>x. C x \<subseteq> C' x"
  shows "router_inv n' S C' r"
  unfolding router_inv_def
proof (intro conjI allI impI)
  fix t :: pystr assume "t \<noteq> []"
  then have "case dget (tables r) t of Some tb \<Rightarrow> table_inv n (\<lambda>k. S (t, k)) tb
      | None \<Rightarrow> file_holds n (\<lambda>k. S (t, k)) t (table_files r t)"
    using assms(1) unfolding router_inv_def by blast
  then show "case dget (tables r) t of Some tb \<Rightarrow> table_inv n' (\<lambda>k. S (t, k)) tb
      | None \<Rightarrow> file_holds n' (\<lambda>k. S (t, k)) t (table_files r t)"
    using assms(2) by (auto intro: table_inv_mono file_holds_mono split: option.splits)
next
  show "\<exists>s. lfu_rel (rcache r) s" "1 \<le> max_memtable_size r" using assms(1) by (simp_all add: router_inv_def)
  show "S x \<in> C' x" for x using router_reflD [OF assms(1)] assms(3) by blast
  show "dget (cache (rcache r)) x = Some v \<Longrightarrow> v = PyNone \<or> v \<in> C' x" for x v
    using router_cacheD [OF assms(1)] assms(3) by blast
qed

lemma set_chunks_ok:
  assumes "router_inv n S C r" and "env_ok e" and "t \<noteq> []" and "n + length vs < 2 ^ 31"
    and "\<And>j. j < length vs \<Longrightarrow> fits (chunk_key key (i + j)) (vs ! j)"
  shows "\<exists>r'. set_chunks e t key i vs r = (Inr (), r') \<and>
    router_inv (n + length vs) (set_values t (chunk_pairs key i vs) S)
      (set_values t (chunk_pairs key i (map (\<lambda>v. {v}) vs)) C) r'"
  using assms
proof (induction vs arbitrary: n S C r i)
  case Nil
  then show ?case by (simp add: set_values_def)
next
  case (Cons v vs)
  have f: "fits (chunk_key key i) v" using Cons.prems(5) [of 0] by simp
  have "Suc n < 2 ^ 31" using Cons.prems(4) by simp
  then obtain r1 where r1: "set_internal e t (chunk_key key i) v r = (Inr (), r1)"
    "router_inv (Suc n) (S((t, chunk_key key i) := v)) (C((t, chunk_key key i) := {v})) r1"
    by (rule set_internal_ok [OF Cons.prems(1-3) _ f])
  have fs: "\<And>j. j < length vs \<Longrightarrow> fits (chunk_key key (Suc i + j)) (vs ! j)" using Cons.prems(5) [of "Suc _"] by simp
  have "Suc n + length vs < 2 ^ 31" using Cons.prems(4) by simp
  from Cons.IH [OF r1(2) Cons.prems(2,3) this fs] obtain r' where
    "set_chunks e t key (Suc i) vs r1 = (Inr (), r')"
    "router_inv (Suc n + length vs) (set_values t (chunk_pairs key (Suc i) vs) (S((t, chunk_key key i) := v)))
       (set_values t (chunk_pairs key (Suc i) (map (\<lambda>v. {v}) vs)) (C((t, chunk_key key i) := {v}))) r'" by blast
  then show ?case using r1(1) by (simp add: set_values_Cons)
qed

subsection \<open>How a value is stored\<close>

definition chunks_of :: "env \<Rightarrow> pyval \<Rightarrow> bytes list" where
  "chunks_of e v =
     (case value_bytes v of
        Inl _ \<Rightarrow> []
      | Inr vb \<Rightarrow> if length vb > 2000 then split_chunks (compress e vb) else [])"

definition stored_as :: "env \<Rightarrow> (pystr \<times> pystr \<Rightarrow> pyval) \<Rightarrow> pystr \<Rightarrow> pystr \<Rightarrow> pyval \<Rightarrow> bool" where
  "stored_as e S t key v \<longleftrightarrow>
     S (t, key) = v \<or>
     (\<exists>vb. value_bytes v = Inr vb \<and> 2000 < length vb \<and>
        S (t, key) = make_manifest (length (chunks_of e v)) (length vb) \<and>
        (\<forall>i < length (chunks_of e v). S (t, chunk_key key i) = chunk_text (chunks_of e v ! i)))"

text \<open>The values that clients may store: JSON values, of a size that an address space holds, and not manifests.\<close>

definition user_value :: "pyval \<Rightarrow> bool" where
  "user_value v \<longleftrightarrow> json_value v \<and> \<not> is_manifest v \<and> (\<forall>vb. value_bytes v = Inr vb \<longrightarrow> length vb < 2 ^ 64)"

text \<open>\<open>V\<close> is what clients stored; \<open>S\<close> and \<open>C\<close> are as in \<open>router_inv\<close>.\<close>

definition view_ok ::
  "env \<Rightarrow> (pystr \<times> pystr \<Rightarrow> pyval) \<Rightarrow> (pystr \<times> pystr \<Rightarrow> pyval) \<Rightarrow> (pystr \<times> pystr \<Rightarrow> pyval set) \<Rightarrow> bool" where
  "view_ok e V S C \<longleftrightarrow>
     (\<forall>t key. key_ok key \<longrightarrow> user_value (V (t, key)) \<and> stored_as e S t key (V (t, key)) \<and>
        C (t, key) \<subseteq> {S (t, key), V (t, key)}) \<and>
     (\<forall>t ck. is_chunk_key ck \<longrightarrow> C (t, ck) \<subseteq> {S (t, ck)})"

definition client_inv :: "env \<Rightarrow> nat \<Rightarrow> (pystr \<times> pystr \<Rightarrow> pyval) \<Rightarrow> router \<Rightarrow> bool" where
  "client_inv e n V r \<longleftrightarrow> (\<exists>S C. router_inv n S C r \<and> view_ok e V S C)"

lemma view_okD:
  assumes "view_ok e V S C"
  shows "key_ok key \<Longrightarrow> user_value (V (t, key))" and "key_ok key \<Longrightarrow> stored_as e S t key (V (t, key))"
    and "key_ok key \<Longrightarrow> C (t, key) \<subseteq> {S (t, key), V (t, key)}" and "is_chunk_key ck \<Longrightarrow> C (t, ck) \<subseteq> {S (t, ck)}"
  using assms by (simp_all add: view_ok_def)

lemma manifest_simps [simp]:
  "is_manifest (make_manifest n sz)" "num_chunks (make_manifest n sz) = Inr n" "is_compressed (make_manifest n sz)"
  by (simp_all add: make_manifest_def is_manifest_def num_chunks_def is_compressed_def lit_def)

text \<open>What changing chunks of one key leaves alone.\<close>

definition chunks_changed ::
  "pystr \<Rightarrow> pystr \<Rightarrow> (pystr \<times> pystr \<Rightarrow> pyval) \<Rightarrow> (pystr \<times> pystr \<Rightarrow> pyval set) \<Rightarrow>
   (pystr \<times> pystr \<Rightarrow> pyval) \<Rightarrow> (pystr \<times> pystr \<Rightarrow> pyval set) \<Rightarrow> bool" where
  "chunks_changed t key S C S' C' \<longleftrightarrow>
     (\<forall>x. (\<forall>i. x \<noteq> (t, chunk_key key i)) \<longrightarrow> S' x = S x \<and> C' x = C x) \<and>
     (\<forall>i. C (t, chunk_key key i) \<subseteq> {S (t, chunk_key key i)} \<longrightarrow> C' (t, chunk_key key i) \<subseteq> {S' (t, chunk_key key i)})"

lemma chunks_changed_set:
  "chunks_changed t key S C (set_values t (chunk_pairs key 0 vs) S)
     (set_values t (chunk_pairs key 0 (map (\<lambda>v. {v}) vs)) C)"
  unfolding chunks_changed_def
proof (intro conjI allI impI)
  fix x assume x: "\<forall>i. x \<noteq> (t, chunk_key key i)"
  obtain t' k where tk: "x = (t', k)" by fastforce
  have "t' \<noteq> t \<or> k \<notin> chunk_key key ` {0 ..< 0 + length vs}" using x tk by auto
  then show "set_values t (chunk_pairs key 0 vs) S x = S x"
    "set_values t (chunk_pairs key 0 (map (\<lambda>v. {v}) vs)) C x = C x"
    unfolding tk by (intro set_values_other, simp add: chunk_pairs_keys)+
next
  fix i assume C: "C (t, chunk_key key i) \<subseteq> {S (t, chunk_key key i)}"
  show "set_values t (chunk_pairs key 0 (map (\<lambda>v. {v}) vs)) C (t, chunk_key key i)
      \<subseteq> {set_values t (chunk_pairs key 0 vs) S (t, chunk_key key i)}"
  proof (cases "i < length vs")
    case True
    then show ?thesis
      using set_values_chunk [of i vs t key 0 S] set_values_chunk [of i "map (\<lambda>v. {v}) vs" t key 0 C] by simp
  next
    case False
    then have "chunk_key key i \<notin> chunk_key key ` {0 ..< 0 + length vs}" by auto
    then show ?thesis using C by (simp add: set_values_other chunk_pairs_keys)
  qed
qed

lemma chunks_changed_trans:
  "chunks_changed t key S C S1 C1 \<Longrightarrow> chunks_changed t key S1 C1 S2 C2 \<Longrightarrow>
   \<forall>i. C (t, chunk_key key i) \<subseteq> {S (t, chunk_key key i)} \<Longrightarrow> chunks_changed t key S C S2 C2"
  by (auto simp: chunks_changed_def)

lemma cleanup_ok:
  assumes inv: "router_inv n S C r" and e: "env_ok e" and t: "t \<noteq> []" and key: "key_ok key"
    and st: "stored_as e S t key v" and v: "\<not> is_manifest v" and n: "n + length (chunks_of e v) < 2 ^ 31"
  obtains S' C' where "router_inv (n + length (chunks_of e v)) S' C' (cleanup_chunks e t key r)"
    "chunks_changed t key S C S' C'"
proof -
  have "key \<noteq> []" using key by (simp add: key_ok_def)
  then obtain r1 where r1: "get_raw_manifest e t key r = (Inr (S (t, key)), r1)" "router_inv n S C r1"
    by (rule get_raw_manifest_ok [OF inv e t])
  show thesis
  proof (cases "is_manifest (S (t, key))")
    case False
    then have "cleanup_chunks e t key r = r1" using r1(1) by (simp add: cleanup_chunks_def)
    moreover have "chunks_changed t key S C S C" by (simp add: chunks_changed_def)
    ultimately show thesis using that router_inv_mono [OF r1(2), of "n + length (chunks_of e v)" C] by simp
  next
    case True
    then obtain sz where m: "S (t, key) = make_manifest (length (chunks_of e v)) sz"
      using st v by (auto simp: stored_as_def)
    let ?vs = "replicate (length (chunks_of e v)) PyNone"
    have len: "n + length ?vs < 2 ^ 31" using n by simp
    have "fits (chunk_key key (0 + j)) (?vs ! j)" if "j < length ?vs" for j
      using fits_chunk(2) [OF key, of "[]" j] that n by simp
    from set_chunks_ok [OF r1(2) e t len this] obtain r2 where
      r2: "set_chunks e t key 0 ?vs r1 = (Inr (), r2)"
      "router_inv (n + length ?vs) (set_values t (chunk_pairs key 0 ?vs) S)
        (set_values t (chunk_pairs key 0 (map (\<lambda>v. {v}) ?vs)) C) r2" by auto
    have "cleanup_chunks e t key r = r2" using r1(1) m r2(1) by (simp add: cleanup_chunks_def)
    moreover have "n + length ?vs = n + length (chunks_of e v)" by simp
    ultimately show thesis using that [OF _ chunks_changed_set [of t key S C ?vs]] r2(2) by metis
  qed
qed

subsection \<open>The client's operations\<close>

text \<open>Storing a value that fits in a page, after the chunks of the old one have been dropped.\<close>

lemma stored_as_cong:
  assumes "stored_as e S t key v" and "S' (t, key) = S (t, key)"
    and "\<And>i. S' (t, chunk_key key i) = S (t, chunk_key key i)"
  shows "stored_as e S' t key v"
  using assms by (simp add: stored_as_def)

lemma view_update:
  assumes old: "view_ok e V S C" and key: "key_ok key" and v: "user_value v"
    and ch: "chunks_changed t key S C S1 C1"
    and S': "\<And>x. x \<noteq> (t, key) \<Longrightarrow> S' x = S1 x \<and> C' x = C1 x"
    and new: "stored_as e S' t key v" "C' (t, key) \<subseteq> {S' (t, key), v}"
  shows "view_ok e (V((t, key) := v)) S' C'"
proof -
  have ok: "user_value ((V((t, key) := v)) (t', key')) \<and> stored_as e S' t' key' ((V((t, key) := v)) (t', key')) \<and>
      C' (t', key') \<subseteq> {S' (t', key'), (V((t, key) := v)) (t', key')}" if k': "key_ok key'" for t' key'
  proof (cases "(t', key') = (t, key)")
    case True
    then show ?thesis using v new by simp
  next
    case False
    have "S' (t', key') = S (t', key') \<and> C' (t', key') = C (t', key')"
      using S' [OF False] ch chunk_key_not_key [OF k'] by (simp add: chunks_changed_def) metis
    moreover have "S' (t', chunk_key key' i) = S (t', chunk_key key' i)" for i
      using S' [of "(t', chunk_key key' i)"] ch False chunk_key_not_key [OF key] by (simp add: chunks_changed_def)
    moreover have "(V((t, key) := v)) (t', key') = V (t', key')" using False by (rule fun_upd_other)
    ultimately show ?thesis
      using view_okD(1-3) [OF old k', of t'] stored_as_cong [OF view_okD(2) [OF old k', of t'], of S'] by metis
  qed
  have "C' (t', ck) \<subseteq> {S' (t', ck)}" if ck: "is_chunk_key ck" for t' ck
  proof -
    have ne: "(t', ck) \<noteq> (t, key)" using key ck by (auto simp: key_ok_def)
    have o: "C (t', ck) \<subseteq> {S (t', ck)}" by (rule view_okD(4) [OF old ck])
    have "C1 (t', ck) \<subseteq> {S1 (t', ck)}"
    proof (cases "\<exists>i. (t', ck) = (t, chunk_key key i)")
      case True
      then obtain i where i: "t' = t" "ck = chunk_key key i" by blast
      then show ?thesis using ch o by (simp add: chunks_changed_def)
    next
      case False
      then have "S1 (t', ck) = S (t', ck) \<and> C1 (t', ck) = C (t', ck)"
        using ch unfolding chunks_changed_def by blast
      then show ?thesis using o by simp
    qed
    then show ?thesis using S' [OF ne] by simp
  qed
  with ok show ?thesis by (simp add: view_ok_def)
qed

definition set_cost :: "env \<Rightarrow> pyval \<Rightarrow> pyval \<Rightarrow> nat" where
  "set_cost e old v = length (chunks_of e old) + length (chunks_of e v) + 1"

lemma chunk_at: "i < length (chunks_of e v) \<Longrightarrow> length (chunks_of e v ! i) \<le> 2000"
proof -
  assume "i < length (chunks_of e v)"
  then have "chunks_of e v ! i \<in> set (chunks_of e v)" by (rule nth_mem)
  then show ?thesis using split_chunks_size by (auto simp: chunks_of_def split: sum.splits if_splits)
qed

lemma set_plain_ok:
  assumes inv: "client_inv e n V r" and e: "env_ok e" and t: "t \<noteq> []" and key: "key_ok key"
    and v: "user_value v" "fits key v" and n: "n + set_cost e (V (t, key)) v < 2 ^ 31"
  obtains r' where "set_internal e t key v (cleanup_chunks e t key r) = (Inr (), r')"
    "client_inv e (n + set_cost e (V (t, key)) v) (V((t, key) := v)) r'"
proof -
  obtain S C where a: "router_inv n S C r" "view_ok e V S C" using inv by (auto simp: client_inv_def)
  let ?m = "n + length (chunks_of e (V (t, key)))"
  have m: "?m < 2 ^ 31" "Suc ?m < 2 ^ 31" using n by (simp_all add: set_cost_def)
  have nm: "\<not> is_manifest (V (t, key))" using view_okD(1) [OF a(2) key] by (simp add: user_value_def)
  obtain S1 C1 where 1: "router_inv ?m S1 C1 (cleanup_chunks e t key r)" "chunks_changed t key S C S1 C1"
    by (rule cleanup_ok [OF a(1) e t key view_okD(2) [OF a(2) key] nm m(1)])
  obtain r' where r': "set_internal e t key v (cleanup_chunks e t key r) = (Inr (), r')"
    "router_inv (Suc ?m) (S1((t, key) := v)) (C1((t, key) := {v})) r'"
    by (rule set_internal_ok [OF 1(1) e t m(2) v(2)])
  have "view_ok e (V((t, key) := v)) (S1((t, key) := v)) (C1((t, key) := {v}))"
    by (rule view_update [OF a(2) key v(1) 1(2)]) (simp_all add: stored_as_def)
  moreover have "router_inv (n + set_cost e (V (t, key)) v) (S1((t, key) := v)) (C1((t, key) := {v})) r'"
    by (rule router_inv_mono [OF r'(2)]) (simp_all add: set_cost_def)
  ultimately have "client_inv e (n + set_cost e (V (t, key)) v) (V((t, key) := v)) r'"
    unfolding client_inv_def by blast
  with r'(1) show thesis by (rule that)
qed

lemma set_large_stored:
  assumes inv: "client_inv e n V r" and e: "env_ok e" and t: "t \<noteq> []" and key: "key_ok key"
    and v: "user_value v" and vb: "value_bytes v = Inr vb" "2000 < length vb"
    and n: "n + set_cost e (V (t, key)) v < 2 ^ 31"
  obtains r' S' C' where "set_large e t key v vb r = (Inr (), r')"
    "router_inv (n + set_cost e (V (t, key)) v) S' C' r'" "view_ok e (V((t, key) := v)) S' C'"
    "S' (t, key) = make_manifest (length (chunks_of e v)) (length vb)"
proof -
  obtain S C where a: "router_inv n S C r" "view_ok e V S C" using inv by (auto simp: client_inv_def)
  let ?cs = "chunks_of e v"
  let ?vs = "map chunk_text ?cs"
  let ?m = "n + length (chunks_of e (V (t, key)))"
  have cs: "split_chunks (compress e vb) = ?cs" using vb by (simp add: chunks_of_def)
  have m: "?m < 2 ^ 31" "?m + length ?vs < 2 ^ 31" "Suc (?m + length ?vs) < 2 ^ 31" "length ?cs < 2 ^ 31"
    using n by (simp_all add: set_cost_def)
  have nm: "\<not> is_manifest (V (t, key))" using view_okD(1) [OF a(2) key] by (simp add: user_value_def)
  obtain S1 C1 where 1: "router_inv ?m S1 C1 (cleanup_chunks e t key r)" "chunks_changed t key S C S1 C1"
    by (rule cleanup_ok [OF a(1) e t key view_okD(2) [OF a(2) key] nm m(1)])
  have "fits (chunk_key key (0 + j)) (?vs ! j)" if "j < length ?vs" for j
    using fits_chunk(1) [OF key, of "?cs ! j" j] chunk_at [of j e v] that m(4) by simp
  from set_chunks_ok [OF 1(1) e t m(2) this] obtain r2 where
    2: "set_chunks e t key 0 ?vs (cleanup_chunks e t key r) = (Inr (), r2)"
    "router_inv (?m + length ?vs) (set_values t (chunk_pairs key 0 ?vs) S1)
      (set_values t (chunk_pairs key 0 (map (\<lambda>v. {v}) ?vs)) C1) r2" by blast
  let ?S2 = "set_values t (chunk_pairs key 0 ?vs) S1" and ?C2 = "set_values t (chunk_pairs key 0 (map (\<lambda>v. {v}) ?vs)) C1"
  let ?man = "make_manifest (length ?cs) (length vb)"
  have sz: "length vb < 2 ^ 64" using v vb by (simp add: user_value_def)
  obtain r3 where 3: "set_internal e t key ?man r2 = (Inr (), r3)"
    "router_inv (Suc (?m + length ?vs)) (?S2((t, key) := ?man)) (?C2((t, key) := {?man})) r3"
    by (rule set_internal_ok [OF 2(2) e t m(3) fits_manifest [OF key m(4) sz]])
  let ?S3 = "?S2((t, key) := ?man)" and ?C3 = "?C2((t, key) := {?man, v})"
  have "router_inv (Suc (?m + length ?vs)) ?S3 ?C3 r3" by (rule router_inv_mono [OF 3(2)]) auto
  then obtain r4 where 4: "cache_put (t, key) v r3 = (Inr (), r4)" "router_inv (Suc (?m + length ?vs)) ?S3 ?C3 r4"
    by (rule cache_put_ok [of _ _ _ _ v "(t, key)"]) auto
  have "\<forall>i. C (t, chunk_key key i) \<subseteq> {S (t, chunk_key key i)}" using view_okD(4) [OF a(2)] by simp
  note ch = chunks_changed_trans [OF 1(2) chunks_changed_set [of t key S1 C1 ?vs] this]
  have "?S3 (t, chunk_key key i) = chunk_text (?cs ! i)" if "i < length ?cs" for i
    using set_values_chunk [of i ?vs t key 0 S1] that chunk_key_not_key [OF key] by simp
  then have st: "stored_as e ?S3 t key v" using vb by (simp add: stored_as_def)
  have "view_ok e (V((t, key) := v)) ?S3 ?C3" by (rule view_update [OF a(2) key v ch _ st]) simp_all
  moreover have "router_inv (n + set_cost e (V (t, key)) v) ?S3 ?C3 r4"
    by (rule router_inv_mono [OF 4(2)]) (simp_all add: set_cost_def)
  moreover have "set_large e t key v vb r = (Inr (), r4)"
    using 2(1) 3(1) 4(1) cs by (simp add: set_large_def Let_def)
  ultimately show thesis using that [of r4 ?S3 ?C3] by simp
qed

lemma set_large_ok:
  assumes inv: "client_inv e n V r" and e: "env_ok e" and t: "t \<noteq> []" and key: "key_ok key"
    and v: "user_value v" and vb: "value_bytes v = Inr vb" "2000 < length vb"
    and n: "n + set_cost e (V (t, key)) v < 2 ^ 31"
  obtains r' where "set_large e t key v vb r = (Inr (), r')"
    "client_inv e (n + set_cost e (V (t, key)) v) (V((t, key) := v)) r'"
proof -
  obtain r' S' C' where "set_large e t key v vb r = (Inr (), r')"
    "router_inv (n + set_cost e (V (t, key)) v) S' C' r'" "view_ok e (V((t, key) := v)) S' C'"
    by (rule set_large_stored [OF inv e t key v vb n])
  with that show thesis unfolding client_inv_def by blast
qed

lemma router_set_ok:
  assumes inv: "client_inv e n V r" and e: "env_ok e" and t: "t \<noteq> []" and key: "key_ok key"
    and v: "user_value v" and n: "n + set_cost e (V (t, key)) v < 2 ^ 31"
  obtains r' where "router_set e t key v r = (Inr (), r')"
    "client_inv e (n + set_cost e (V (t, key)) v) (V((t, key) := v)) r'"
proof -
  have key': "key \<noteq> []" "\<not> is_chunk_key key" using key by (simp_all add: key_ok_def)
  have jv: "json_value v" using v by (simp add: user_value_def)
  obtain x where "value_bytes v = Inr (map mk_byte x)" by (rule value_bytes_ok [OF jv])
  then obtain vb where vb: "value_bytes v = Inr vb" by blast
  show thesis
  proof (cases "2000 < length vb")
    case True
    have "v \<noteq> PyNone" using True vb by (auto simp: value_bytes_def lit_def utf8_char_def)
    moreover obtain r' where "set_large e t key v vb r = (Inr (), r')"
      "client_inv e (n + set_cost e (V (t, key)) v) (V((t, key) := v)) r'"
      by (rule set_large_ok [OF inv e t key v vb True n])
    ultimately show thesis using that True t key' vb by (simp add: router_set_def flip: value_bytes_def)
  next
    case False
    then have "fits key v" using fits_small [OF key jv vb] by simp
    then obtain r' where "set_internal e t key v (cleanup_chunks e t key r) = (Inr (), r')"
      "client_inv e (n + set_cost e (V (t, key)) v) (V((t, key) := v)) r'"
      using set_plain_ok [OF inv e t key v _ n] by blast
    moreover from this have "router_set e t key v r = (Inr (), r')"
      using False t key' vb unfolding router_set_def value_bytes_def [symmetric] by auto
    ultimately show thesis using that by blast
  qed
qed

lemma read_chunks_ok:
  assumes "router_inv n S C r" and "env_ok e" and "t \<noteq> []"
    and "\<And>j. j < length cs \<Longrightarrow> S (t, chunk_key key (i + j)) = chunk_text (cs ! j)"
    and "\<And>ck. is_chunk_key ck \<Longrightarrow> C (t, ck) \<subseteq> {S (t, ck)}"
  shows "\<exists>r'. read_chunks e t key i (length cs) r = (Inr (Some (concat cs)), r') \<and> router_inv n S C r'"
  using assms
proof (induction cs arbitrary: r i)
  case Nil
  then show ?case by simp
next
  case (Cons c cs)
  have "chunk_key key i \<noteq> []" by (simp add: chunk_key_def)
  then obtain v r1 where r1: "get_internal e t (chunk_key key i) r = (Inr v, r1)" "router_inv n S C r1"
    "v \<in> C (t, chunk_key key i)" by (rule get_internal_ok [OF Cons.prems(1-3)])
  then have v: "v = chunk_text c" using Cons.prems(4) [of 0] Cons.prems(5) [of "chunk_key key i"] by auto
  have "\<And>j. j < length cs \<Longrightarrow> S (t, chunk_key key (Suc i + j)) = chunk_text (cs ! j)"
    using Cons.prems(4) [of "Suc _"] by simp
  from Cons.IH [OF r1(2) Cons.prems(2,3) this Cons.prems(5)] obtain r' where
    "read_chunks e t key (Suc i) (length cs) r1 = (Inr (Some (concat cs)), r')" "router_inv n S C r'" by blast
  moreover have "v \<noteq> PyNone" using v by (simp add: chunk_text_def)
  ultimately show ?case using r1(1) v by (simp add: chunk_roundtrip)
qed

lemma view_cache:
  assumes "view_ok e V S C" and "key_ok key"
  shows "view_ok e V S (C((t, key) := insert (V (t, key)) (C (t, key))))"
proof -
  have "(t', ck) \<noteq> (t, key)" if "is_chunk_key ck" for t' ck using that assms(2) by (auto simp: key_ok_def)
  then show ?thesis using assms by (auto simp: view_ok_def)
qed

lemma router_get_ok:
  assumes inv: "client_inv e n V r" and e: "env_ok e" and z: "\<And>x. decompress e (compress e x) = Inr x"
    and t: "t \<noteq> []" and key: "key_ok key"
  obtains r' where "router_get e t key r = (Inr (V (t, key)), r')" "client_inv e n V r'"
proof -
  obtain S C where a: "router_inv n S C r" "view_ok e V S C" using inv by (auto simp: client_inv_def)
  have key': "key \<noteq> []" using key by (simp add: key_ok_def)
  obtain v r1 where r1: "get_internal e t key r = (Inr v, r1)" "router_inv n S C r1" "v \<in> C (t, key)"
    by (rule get_internal_ok [OF a(1) e t key'])
  have u: "user_value (V (t, key))" by (rule view_okD(1) [OF a(2) key])
  have vs: "v = S (t, key) \<or> v = V (t, key)" using view_okD(3) [OF a(2) key, of t] r1(3) by auto
  show thesis
  proof (cases "v = V (t, key)")
    case True
    then have "router_get e t key r = (Inr (V (t, key)), r1)"
      using r1(1) u t key' by (simp add: router_get_def user_value_def)
    moreover have "client_inv e n V r1" using r1(2) a(2) unfolding client_inv_def by blast
    ultimately show thesis by (rule that)
  next
    case False
    let ?cs = "chunks_of e (V (t, key))"
    obtain vb where vb: "value_bytes (V (t, key)) = Inr vb" "2000 < length vb"
      "v = make_manifest (length ?cs) (length vb)"
      "\<forall>i < length ?cs. S (t, chunk_key key i) = chunk_text (?cs ! i)"
      using view_okD(2) [OF a(2) key, of t] False vs by (auto simp: stored_as_def)
    have cs: "?cs = split_chunks (compress e vb)" using vb(1,2) by (simp add: chunks_of_def)
    have "\<And>j. j < length ?cs \<Longrightarrow> S (t, chunk_key key (0 + j)) = chunk_text (?cs ! j)" using vb(4) by simp
    from read_chunks_ok [OF r1(2) e t this view_okD(4) [OF a(2)]] obtain r2 where
      r2: "read_chunks e t key 0 (length ?cs) r1 = (Inr (Some (concat ?cs)), r2)" "router_inv n S C r2" by blast
    have "json_value (V (t, key))" using u by (simp add: user_value_def)
    then obtain x where x: "value_bytes (V (t, key)) = Inr (map mk_byte x)" "utf8_encode x = Inr (map mk_byte x)"
      "loads x = Inr (V (t, key))" by (rule value_bytes_ok)
    then have dec: "utf8_decode vb = Inr x" using utf8_roundtrip [OF x(2)] vb(1) by simp
    have unz: "decompress e (concat ?cs) = Inr vb" by (simp add: cs concat_split_chunks z)
    let ?C = "C((t, key) := insert (V (t, key)) (C (t, key)))"
    have "router_inv n S ?C r2" by (rule router_inv_mono [OF r2(2)]) auto
    then obtain r3 where r3: "cache_put (t, key) (V (t, key)) r2 = (Inr (), r3)" "router_inv n S ?C r3"
      by (rule cache_put_ok [of _ _ _ _ "V (t, key)" "(t, key)"]) auto
    have "rebuild e t key v r1 = (Inr (V (t, key)), r3)"
      using r2(1) r3(1) unz dec x(3) by (simp add: rebuild_def vb(3))
    then have "router_get e t key r = (Inr (V (t, key)), r3)"
      using r1(1) t key' by (simp add: router_get_def vb(3))
    moreover have "client_inv e n V r3" using r3(2) view_cache [OF a(2) key] unfolding client_inv_def by blast
    ultimately show thesis by (rule that)
  qed
qed

lemma view_set_many:
  assumes "view_ok e V S C" and "\<forall>(k, v) \<in> set kvs. key_ok k \<and> user_value v"
  shows "view_ok e (set_values t kvs V) (set_values t kvs S) (set_values t (map (\<lambda>(k, v). (k, {v})) kvs) C)"
  using assms
proof (induction kvs arbitrary: V S C)
  case Nil
  then show ?case by (simp add: set_values_def)
next
  case (Cons kv kvs)
  obtain k v where kv: "kv = (k, v)" by fastforce
  have k: "key_ok k" "user_value v" using Cons.prems(2) kv by auto
  have "view_ok e (V((t, k) := v)) (S((t, k) := v)) (C((t, k) := {v}))"
    by (rule view_update [OF Cons.prems(1) k, of t S C]) (simp_all add: chunks_changed_def stored_as_def)
  moreover have "\<forall>(k, v) \<in> set kvs. key_ok k \<and> user_value v" using Cons.prems(2) by simp
  ultimately show ?case unfolding kv list.map prod.case set_values_Cons by (rule Cons.IH)
qed

subsection \<open>Histories\<close>

text \<open>
  The calls of clients, and what goes on between them: a stage of the background flush of a table, a
  round of the log's writer thread. A call with an empty table name or key raises.
\<close>

datatype router_op =
    Set pystr pystr pyval | Set_Many pystr "(pystr \<times> pyval) list" | Get pystr pystr
  | Flush_Stage pystr | Writer_Round

fun router_step :: "env \<Rightarrow> router_op \<Rightarrow> router \<Rightarrow> (router, pyval) step_result" where
  "router_step e (Set t k v) r = bind_step (router_set e t k v r) (\<lambda>_ r'. (Inr (PyBool True), r'))"
| "router_step e (Set_Many t kvs) r = bind_step (set_many e t kvs r) (\<lambda>_ r'. (Inr (PyBool True), r'))"
| "router_step e (Get t k) r = router_get e t k r"
| "router_step e (Flush_Stage t) r = bind_step (flush_step e t r) (\<lambda>_ r'. (Inr PyNone, r'))"
| "router_step e Writer_Round r = (Inr PyNone, r\<lparr>rwal := writer_round (stamps e) (rwal r)\<rparr>)"

type_synonym key_map = "pystr \<times> pystr \<Rightarrow> pyval"

fun map_step :: "router_op \<Rightarrow> key_map \<Rightarrow> pyval result \<times> key_map" where
  "map_step (Set t k v) V = (if t = [] \<or> k = [] then (Inl ValueError, V) else (Inr (PyBool True), V((t, k) := v)))"
| "map_step (Set_Many t kvs) V =
     (if t = [] \<or> kvs = [] then (Inl ValueError, V) else (Inr (PyBool True), set_values t kvs V))"
| "map_step (Get t k) V = ((if t = [] \<or> k = [] then Inl ValueError else Inr (V (t, k))), V)"
| "map_step (Flush_Stage t) V = (Inr PyNone, V)"
| "map_step Writer_Round V = (Inr PyNone, V)"

text \<open>The number of records that a call may write, and the calls that the contract covers.\<close>

fun op_cost :: "env \<Rightarrow> router_op \<Rightarrow> key_map \<Rightarrow> nat" where
  "op_cost e (Set t k v) V = set_cost e (V (t, k)) v"
| "op_cost e (Set_Many t kvs) V = length kvs"
| "op_cost e _ V = 0"

fun op_ok :: "router_op \<Rightarrow> bool" where
  "op_ok (Set t k v) \<longleftrightarrow> t = [] \<or> k = [] \<or> key_ok k \<and> user_value v"
| "op_ok (Set_Many t kvs) \<longleftrightarrow> t = [] \<or> kvs = [] \<or>
     distinct (map fst kvs) \<and> (\<forall>(k, v) \<in> set kvs. key_ok k \<and> user_value v \<and> fits k v)"
| "op_ok (Get t k) \<longleftrightarrow> t = [] \<or> k = [] \<or> key_ok k"
| "op_ok (Flush_Stage t) \<longleftrightarrow> t \<noteq> []"
| "op_ok Writer_Round \<longleftrightarrow> True"

abbreviation router_history :: "env \<Rightarrow> router_op list \<Rightarrow> router \<Rightarrow> pyval result list \<times> router" where
  "router_history e \<equiv> run (router_step e)"

abbreviation map_history :: "router_op list \<Rightarrow> key_map \<Rightarrow> pyval result list \<times> key_map" where
  "map_history \<equiv> run map_step"

abbreviation history_cost :: "env \<Rightarrow> router_op list \<Rightarrow> key_map \<Rightarrow> nat" where
  "history_cost e \<equiv> run_cost (op_cost e) map_step"

lemma client_inv_mono:
  assumes "client_inv e n V r" and "n \<le> n'"
  shows "client_inv e n' V r"
proof -
  obtain S C where a: "router_inv n S C r" "view_ok e V S C" using assms(1) by (auto simp: client_inv_def)
  have "router_inv n' S C r" by (rule router_inv_mono [OF a(1) assms(2)]) simp
  with a(2) show ?thesis unfolding client_inv_def by blast
qed

lemma router_step_refines:
  assumes inv: "client_inv e n V r" and e: "env_ok e" and z: "\<And>x. decompress e (compress e x) = Inr x"
    and ok: "op_ok x" and n: "n + op_cost e x V < 2 ^ 31"
  obtains r' where "router_step e x r = (fst (map_step x V), r')" "client_inv e (n + op_cost e x V) (snd (map_step x V)) r'"
proof (cases x)
  case (Set t k v)
  show thesis
  proof (cases "t = [] \<or> k = []")
    case True
    have "client_inv e (n + op_cost e x V) V r" by (rule client_inv_mono [OF inv]) simp
    then show thesis using that [of r] True Set by (auto simp: router_set_def)
  next
    case False
    then have "key_ok k" "user_value v" "t \<noteq> []" using ok Set by auto
    moreover have "n + set_cost e (V (t, k)) v < 2 ^ 31" using n Set by simp
    ultimately obtain r' where "router_set e t k v r = (Inr (), r')"
      "client_inv e (n + set_cost e (V (t, k)) v) (V((t, k) := v)) r'"
      using router_set_ok [OF inv e] by metis
    then show thesis using that [of r'] False Set by simp
  qed
next
  case (Set_Many t kvs)
  show thesis
  proof (cases "t = [] \<or> kvs = []")
    case True
    have "client_inv e (n + op_cost e x V) V r" by (rule client_inv_mono [OF inv]) simp
    then show thesis using that [of r] True Set_Many by (auto simp: set_many_def)
  next
    case False
    then have k: "distinct (map fst kvs)" "\<forall>(k, v) \<in> set kvs. key_ok k \<and> user_value v" "\<forall>(k, v) \<in> set kvs. fits k v"
      "t \<noteq> []" "kvs \<noteq> []" using ok Set_Many by auto
    obtain S C where a: "router_inv n S C r" "view_ok e V S C" using inv by (auto simp: client_inv_def)
    have "n + length kvs < 2 ^ 31" using n Set_Many by simp
    then obtain r' where r': "set_many e t kvs r = (Inr (), r')"
      "router_inv (n + length kvs) (set_values t kvs S) (set_values t (map (\<lambda>(k, v). (k, {v})) kvs) C) r'"
      by (rule set_many_ok [OF a(1) e k(4) _ k(3,1,5)])
    then have "client_inv e (n + length kvs) (set_values t kvs V) r'"
      unfolding client_inv_def using view_set_many [OF a(2) k(2)] by blast
    then show thesis using that [of r'] r'(1) False Set_Many by simp
  qed
next
  case (Get t k)
  show thesis
  proof (cases "t = [] \<or> k = []")
    case True
    then show thesis using that [of r] inv Get by (auto simp: router_get_def)
  next
    case False
    then have "key_ok k" "t \<noteq> []" using ok Get by auto
    then obtain r' where "router_get e t k r = (Inr (V (t, k)), r')" "client_inv e n V r'"
      using router_get_ok [OF inv e z] by metis
    then show thesis using that [of r'] False Get by simp
  qed
next
  case (Flush_Stage t)
  have t: "t \<noteq> []" using ok Flush_Stage by simp
  obtain S C where a: "router_inv n S C r" "view_ok e V S C" using inv by (auto simp: client_inv_def)
  have n': "n < 2 ^ 31" using n Flush_Stage by simp
  show thesis
  proof (cases "dget (tables r) t")
    case None
    then show thesis using that [of r] inv Flush_Stage by (simp add: flush_step_def)
  next
    case (Some tb)
    obtain r' where r': "flush_step e t r = (Inr (), r')" "router_inv n S C r'"
      by (rule flush_step_ok [OF a(1) t n' Some])
    then have "client_inv e n V r'" using a(2) unfolding client_inv_def by blast
    then show thesis using that [of r'] r'(1) Flush_Stage by simp
  qed
next
  case Writer_Round
  obtain S C where a: "router_inv n S C r" "view_ok e V S C" using inv by (auto simp: client_inv_def)
  then have "client_inv e n V (r\<lparr>rwal := writer_round (stamps e) (rwal r)\<rparr>)"
    unfolding client_inv_def using router_inv_wal by blast
  then show thesis using that Writer_Round by simp
qed

interpretation router_machine: simulation "router_step e" map_step
  "\<lambda>n V r. client_inv e n V r \<and> env_ok e \<and> (\<forall>x. decompress e (compress e x) = Inr x)" op_ok "op_cost e" "2 ^ 31"
  for e
proof
  fix n V r x
  assume a: "client_inv e n V r \<and> env_ok e \<and> (\<forall>x. decompress e (compress e x) = Inr x)" "op_ok x"
    "n + op_cost e x V < 2 ^ 31"
  then obtain r' where "router_step e x r = (fst (map_step x V), r')"
    "client_inv e (n + op_cost e x V) (snd (map_step x V)) r'"
    using router_step_refines [of e n V r x] by blast
  with a(1) show "\<exists>r'. router_step e x r = (fst (map_step x V), r') \<and>
      client_inv e (n + op_cost e x V) (snd (map_step x V)) r' \<and> env_ok e \<and> (\<forall>x. decompress e (compress e x) = Inr x)"
    by blast
qed

lemma router_history_refines:
  assumes "client_inv e n V r" and "env_ok e" and "\<And>x. decompress e (compress e x) = Inr x"
    and "\<forall>x \<in> set xs. op_ok x" and "n + history_cost e xs V < 2 ^ 31"
  shows "fst (router_history e xs r) = fst (map_history xs V) \<and>
    client_inv e (n + history_cost e xs V) (snd (map_history xs V)) (snd (router_history e xs r))"
  using router_machine.history_simulates [of e n V r xs] assms by blast

lemma router_inv_init:
  assumes "router_init w mx cap (\<lambda>_. None) = Inr r"
  shows "router_inv 0 (\<lambda>_. PyNone) (\<lambda>_. {PyNone}) r" and "tables r = []" and "max_memtable_size r = mx"
proof -
  have r: "r = \<lparr>tables = [], rwal = w, rcache = lfu_init cap, max_memtable_size = mx, table_files = (\<lambda>_. None)\<rparr>" "1 \<le> mx"
    using assms by (auto simp: router_init_def split: if_splits)
  have "\<exists>s. lfu_rel (lfu_init cap) (s :: (pystr \<times> pystr, pyval) entries)" using lfu_init_rel by blast
  then show "router_inv 0 (\<lambda>_. PyNone) (\<lambda>_. {PyNone}) r" "tables r = []" "max_memtable_size r = mx"
    using r by (simp_all add: router_inv_def file_holds_def lfu_init_def)
qed

lemma client_inv_init:
  assumes "router_init w mx cap (\<lambda>_. None) = Inr r"
  shows "client_inv e 0 (\<lambda>_. PyNone) r"
proof -
  have "value_bytes PyNone = Inr (map mk_byte (lit ''null''))"
    by (simp add: value_bytes_def lit_def utf8_char_def)
  then have "view_ok e (\<lambda>_. PyNone) (\<lambda>_. PyNone) (\<lambda>_. {PyNone})"
    by (simp add: view_ok_def user_value_def is_manifest_def stored_as_def)
  then show ?thesis unfolding client_inv_def using router_inv_init(1) [OF assms] by blast
qed

subsection \<open>Properties\<close>


definition plain_env :: env where
  "plain_env = \<lparr>compress = (\<lambda>b. b), decompress = Inr, mkdir_ok = (\<lambda>_. True), touch_ok = (\<lambda>_. True),
     open_ok = (\<lambda>_. True), stamps = (\<lambda>_. 0)\<rparr>"

lemma small_set_cost: "value_bytes old = Inr a \<Longrightarrow> length a \<le> 2000 \<Longrightarrow> value_bytes v = Inr b \<Longrightarrow> length b \<le> 2000 \<Longrightarrow>
  set_cost e old v = 1"
  by (simp add: set_cost_def chunks_of_def)


end
