(* ===== verification/Router_Faults.thy ===== *)
theory Router_Faults
  imports Router_Chunks
begin

text \<open>
  The router across restarts, and where it breaks its contract: records larger than a page, writes that
  fail after they have dropped the chunks of the old value, and the flush counter.
\<close>

subsection \<open>Restarting on the table files\<close>

definition disk_files :: "router \<Rightarrow> pystr \<Rightarrow> pyfile option" where
  "disk_files r t =
     (case dget (tables r) t of
        None \<Rightarrow> table_files r t
      | Some tb \<Rightarrow> (case handler_of tb of None \<Rightarrow> table_files r t | Some h \<Rightarrow> Some (tbl_file h)))"

definition all_flushed :: "router \<Rightarrow> bool" where
  "all_flushed r \<longleftrightarrow> (\<forall>t \<in> set (dkeys (tables r)). case dget (tables r) t of
       None \<Rightarrow> True
     | Some tb \<Rightarrow> entries (active_memtable tb) = 0 \<and> immutable_memtable tb = None)"

lemma all_flushed_iff:
  "all_flushed r \<longleftrightarrow> (\<forall>t tb. dget (tables r) t = Some tb \<longrightarrow> entries (active_memtable tb) = 0 \<and> immutable_memtable tb = None)"
proof -
  have "dget (tables r) t = Some tb \<Longrightarrow> t \<in> set (dkeys (tables r))" for t tb by (force simp: dkeys_def dest: map_of_SomeD)
  then show ?thesis by (fastforce simp: all_flushed_def split: option.splits)
qed

lemma disk_inv_reopened:
  assumes "disk_inv h"
  shows "disk_inv \<lparr>table_name = t, tbl_file = tbl_file h, is_open = True, page_cache = []\<rparr>"
    and "table_view (\<lparr>table_name = t, tbl_file = tbl_file h, is_open = True, page_cache = []\<rparr> :: meta handler) = table_view h"
    and "page_count (\<lparr>table_name = t, tbl_file = tbl_file h, is_open = True, page_cache = []\<rparr> :: meta handler) = page_count h"
proof -
  let ?h = "\<lparr>table_name = t, tbl_file = tbl_file h, is_open = True, page_cache = []\<rparr> :: meta handler"
  have s: "page_count ?h = page_count h" "block_at ?h = block_at h"
    by (simp_all add: page_count_def block_at_def fun_eq_iff)
  then show "table_view ?h = table_view h" "page_count ?h = page_count h" by (simp_all add: table_view_def)
  show "disk_inv ?h" using assms by (simp add: disk_inv_def handler_inv_def cache_ok_def file_ok_def s)
qed

lemma table_file_holds:
  assumes tb: "table_inv n S tb" and f: "entries (active_memtable tb) = 0" "immutable_memtable tb = None"
  obtains h where "handler_of tb = Some h" "file_holds n S t (Some (tbl_file h))"
proof -
  obtain h es0 es1 where a: "handler_of tb = Some h" "disk_inv h" "slot_list (table_view h) = es0 @ es1"
    "all_packed (es0 @ es1)" "dget (disk_index tb) = dget (fold index_entry es0 [])" "mem_ok (active_memtable tb)"
    "\<forall>m. immutable_memtable tb = Some m \<longrightarrow> mem_ok m" "stage_ok (job tb) (immutable_memtable tb) es0 es1"
    "weight h tb \<le> 2 * n" "S = table_value (active_memtable tb) (immutable_memtable tb) (disk_value es0)"
    by (rule table_invE [OF tb])
  have "in_order_traversal (active_memtable tb) = []"
    using f(1) a(6) entries_traversal by (fastforce simp: mem_ok_def)
  then have "mem_value (active_memtable tb) k = None" for k by (simp add: mem_value_def)
  then have S: "S = disk_value es0" using a(10) f(2) by (simp add: table_value_def fun_eq_iff)
  have "es1 = []" using a(8) f(2) by (auto simp: stage_ok_def split: option.splits flush_job.splits)
  then have "file_holds n S t (Some (tbl_file h))"
    using a(2-4,9) S disk_inv_reopened [OF a(2), of t] by (simp add: file_holds_def Let_def weight_def)
  with a(1) show thesis by (rule that)
qed

lemma reopened_inv:
  assumes inv: "client_inv e n V r" and f: "all_flushed r" and r': "router_init w mx cap (disk_files r) = Inr r'"
  shows "client_inv e n V r'"
proof -
  obtain S C where a: "router_inv n S C r" "view_ok e V S C" using inv by (auto simp: client_inv_def)
  have e: "r' = \<lparr>tables = [], rwal = w, rcache = lfu_init cap, max_memtable_size = mx, table_files = disk_files r\<rparr>" "1 \<le> mx"
    using r' by (auto simp: router_init_def split: if_splits)
  have "file_holds n (\<lambda>k. S (t, k)) t (disk_files r t)" if t: "t \<noteq> []" for t
  proof (cases "dget (tables r) t")
    case None
    then show ?thesis using a(1) t unfolding router_inv_def disk_files_def by (metis option.simps(4))
  next
    case (Some tb)
    have "entries (active_memtable tb) = 0" "immutable_memtable tb = None"
      using f Some by (auto simp: all_flushed_iff)
    then obtain h where "handler_of tb = Some h" "file_holds n (\<lambda>k. S (t, k)) t (Some (tbl_file h))"
      by (rule table_file_holds [OF router_table [OF a(1) t Some]])
    then show ?thesis using Some by (simp add: disk_files_def)
  qed
  moreover have "\<exists>s. lfu_rel (lfu_init cap) (s :: (pystr \<times> pystr, pyval) entries)" using lfu_init_rel by blast
  ultimately have "router_inv n S (\<lambda>x. {S x}) r'"
    using e by (simp add: router_inv_def lfu_init_def)
  moreover have "view_ok e V S (\<lambda>x. {S x})" using a(2) by (simp add: view_ok_def)
  ultimately show ?thesis unfolding client_inv_def by blast
qed

text \<open>What any history from the first start leaves.\<close>

lemma history_inv:
  assumes "router_init w mx cap (\<lambda>_. None) = Inr r" and "env_ok e" and "\<forall>x. decompress e (compress e x) = Inr x"
    and "\<forall>x \<in> set xs. op_ok x" and "history_cost e xs (\<lambda>_. PyNone) < 2 ^ 31"
  shows "client_inv e (history_cost e xs (\<lambda>_. PyNone)) (snd (map_history xs (\<lambda>_. PyNone))) (snd (router_history e xs r))"
  using router_history_refines [OF client_inv_init [OF assms(1)] assms(2) _ assms(4)] assms(3,5) by auto


text \<open>A table that is opened by a write of its first value, with a memtable of one entry.\<close>

lemma open_fresh:
  assumes "get_table_state e t r = (Inr (), r1)" and "dget (tables r) t = None"
  obtains h ix where "r1 = put_table t (new_table\<lparr>handler_of := Some h, disk_index := ix\<rparr>) r"
  using assms by (auto simp: get_table_state_def split: sum.splits prod.splits)

lemma first_write:
  assumes r: "router_init w 1 cap (\<lambda>_. None) = Inr r" and e: "env_ok e" and t: "t \<noteq> []" and fit: "fits k v"
  obtains r' tb where "set_many e t [(k, v)] r = (Inr (), r')" "tables r' = [(t, tb)]" "job tb = Some Submitted"
    "active_memtable tb = new_memtable" "router_inv 1 ((\<lambda>_. PyNone)((t, k) := v)) ((\<lambda>_. {PyNone})((t, k) := {v})) r'"
proof -
  have init: "router_inv 0 (\<lambda>_. PyNone) (\<lambda>_. {PyNone}) r" "tables r = []" "max_memtable_size r = 1"
    by (rule router_inv_init [OF r])+
  obtain b where b: "packs k v b" "length b \<le> 4072" and k: "k \<noteq> []" using fit by (auto simp: fits_def)
  obtain txs w' where w': "append_many_wait e [b] (rwal r) = (txs, w')" by fastforce
  obtain r1 where r1: "get_table_state e t (r\<lparr>rwal := w'\<rparr>) = (Inr (), r1)"
    using get_table_state_ok [OF router_inv_wal [OF init(1)] e t] by metis
  obtain h ix where r1': "r1 = put_table t (new_table\<lparr>handler_of := Some h, disk_index := ix\<rparr>) (r\<lparr>rwal := w'\<rparr>)"
    by (rule open_fresh [OF r1]) (simp add: init(2))
  obtain m where m: "memtable_insert k b new_memtable = (Inr (), m)" "0 < entries m"
    using mem_insert [OF mem_ok_new b k] by metis
  let ?tb = "new_table\<lparr>handler_of := Some h, disk_index := ix, active_memtable := m\<rparr>"
  obtain c where c: "lfu_put (t, k) v (rcache r) = (Inr (), c)"
    using lfu.cput_spec [of "rcache r" "(t, k)" v] init(1) unfolding router_inv_def by blast
  let ?tb' = "?tb\<lparr>immutable_memtable := Some m, immutable_tx_ids := Some txs, active_memtable := new_memtable,
      active_tx_ids := [], job := Some Submitted\<rparr>"
  let ?r' = "put_table t ?tb' (r\<lparr>rwal := w', rcache := c\<rparr>)"
  have "pack_kv k v = Inr b" using b(1) by (simp add: packs_def)
  then have s: "set_many e t [(k, v)] r = (Inr (), ?r')"
    using t w' r1 r1' m c init(2,3)
    by (simp add: set_many_def set_many_internal_def on_table_def cache_put_def put_table_def new_table_def
        trigger_flush_def flush_wait_def flush_step_def Let_def)
  moreover have "tables ?r' = [(t, ?tb')]" by (simp add: init(2))
  moreover have "router_inv 1 ((\<lambda>_. PyNone)((t, k) := v)) ((\<lambda>_. {PyNone})((t, k) := {v})) ?r'"
    using set_many_ok [OF init(1) e t, of "[(k, v)]"] fit s by (auto simp: set_values_def)
  ultimately show thesis using that [of ?r' ?tb'] by simp
qed

text \<open>The three stages of its flush leave nothing in memory.\<close>

lemma first_flush:
  assumes r: "router_inv n S C r" and t: "t \<noteq> []" and n: "n < 2 ^ 31" and tb: "tables r = [(t, tb)]"
    and new: "active_memtable tb = new_memtable"
  obtains r' where "flush_wait e t r = (Inr (), r')" "all_flushed r'"
proof -
  have g: "dget (tables r) t = Some tb" using tb by simp
  obtain r' tb' where a: "flush_wait e t r = (Inr (), r')" "router_inv n S C r'" "only_table t r r'"
    "dget (tables r') t = Some tb'" "job tb' = None" "active_memtable tb' = active_memtable tb"
    by (rule flush_wait_ok [OF r t n g])
  have "immutable_memtable tb' = None"
    by (rule table_invE [OF router_table [OF a(2) t a(4)]]) (use a(5) in \<open>simp add: stage_ok_def\<close>)
  moreover have "entries (active_memtable tb') = 0" using a(6) new by (simp add: new_memtable_def)
  moreover have "dget (tables r') t' = None" if "t' \<noteq> t" for t' using a(3) tb that by (simp add: only_table_def)
  ultimately have "all_flushed r'" using a(4) unfolding all_flushed_iff by (metis option.distinct(1) option.inject)
  with a(1) show thesis by (rule that)
qed

lemma flush_stages:
  assumes "flush_wait e t r = (Inr (), r')"
  shows "router_history e [Flush_Stage t, Flush_Stage t, Flush_Stage t] r = ([Inr PyNone, Inr PyNone, Inr PyNone], r')"
proof -
  obtain a r1 where 1: "flush_step e t r = (a, r1)" by fastforce
  obtain b r2 where 2: "flush_step e t r1 = (b, r2)" by fastforce
  obtain c r3 where 3: "flush_step e t r2 = (c, r3)" by fastforce
  show ?thesis using assms 1 2 3 by (cases a; cases b; cases c) (auto simp: flush_wait_def)
qed

definition empty_wal :: wal where
  "empty_wal = \<lparr>global_tx_id = 0, wal_buffer = [], ram_completed_tx = {}, wal_files = [], active_flushes = 0\<rparr>"

lemma true_value: "user_value (PyBool True)" "key_ok [107]" "fits [107] (PyBool True)"
proof -
  have v: "value_bytes (PyBool True) = Inr (map mk_byte (lit ''true''))"
    by (simp add: value_bytes_def lit_def utf8_char_def)
  then show "user_value (PyBool True)" by (simp add: user_value_def is_manifest_def)
  show k: "key_ok [107]" by (simp add: key_ok_def is_chunk_key_def lit_def utf8_char_def)
  show "fits [107] (PyBool True)" by (rule fits_small [OF k _ v]) simp_all
qed

lemma plain_env_ok: "env_ok plain_env" "decompress plain_env (compress plain_env x) = Inr x"
  by (simp_all add: env_ok_def plain_env_def)


subsection \<open>A write that fails over a large value\<close>

lemma cleanup_drops_chunks:
  assumes inv: "router_inv n S C r" and e: "env_ok e" and t: "t \<noteq> []" and key: "key_ok key"
    and m: "S (t, key) = make_manifest cnt sz" and n: "n + cnt < 2 ^ 31"
  obtains S' C' where "router_inv (n + cnt) S' C' (cleanup_chunks e t key r)" "S' (t, key) = make_manifest cnt sz"
    "0 < cnt \<Longrightarrow> S' (t, chunk_key key 0) = PyNone"
proof -
  have "key \<noteq> []" using key by (simp add: key_ok_def)
  then obtain r1 where r1: "get_raw_manifest e t key r = (Inr (S (t, key)), r1)" "router_inv n S C r1"
    by (rule get_raw_manifest_ok [OF inv e t])
  let ?vs = "replicate cnt PyNone"
  have "fits (chunk_key key (0 + j)) (?vs ! j)" if "j < length ?vs" for j
    using fits_chunk(2) [OF key, of "[]" j] that n by simp
  from set_chunks_ok [OF r1(2) e t _ this] n obtain r2 where
    r2: "set_chunks e t key 0 ?vs r1 = (Inr (), r2)"
    "router_inv (n + length ?vs) (set_values t (chunk_pairs key 0 ?vs) S)
      (set_values t (chunk_pairs key 0 (map (\<lambda>v. {v}) ?vs)) C) r2" by auto
  let ?S = "set_values t (chunk_pairs key 0 ?vs) S"
  have "cleanup_chunks e t key r = r2" using r1(1) m r2(1) by (simp add: cleanup_chunks_def)
  moreover have "key \<notin> fst ` set (chunk_pairs key 0 ?vs)"
    using chunk_key_not_key [OF key, symmetric] by (auto simp: chunk_pairs_keys)
  then have "?S (t, key) = make_manifest cnt sz" using m by (simp add: set_values_other)
  moreover have "0 < cnt \<Longrightarrow> ?S (t, chunk_key key 0) = PyNone" using set_values_chunk [of 0 ?vs t key 0 S] by simp
  ultimately show thesis using that [of ?S "set_values t (chunk_pairs key 0 (map (\<lambda>v. {v}) ?vs)) C"] r2(2) by simp
qed

lemma cache_cleared:
  assumes "router_inv n S C r"
  shows "router_inv n S (\<lambda>x. {S x}) (r\<lparr>rcache := lfu_clear (rcache r)\<rparr>)"
proof -
  obtain s where s: "lfu_rel (rcache r) s" using assms unfolding router_inv_def by blast
  have "\<exists>s. lfu_rel (lfu_clear (rcache r)) s" using lfu_clear_sim [OF s] by blast
  moreover have "cache (lfu_clear (rcache r)) = []" by (simp add: lfu_clear_def)
  ultimately show ?thesis using assms by (simp add: router_inv_def cong: option.case_cong)
qed

lemma get_without_chunk:
  assumes inv: "router_inv n S (\<lambda>x. {S x}) r" and e: "env_ok e" and t: "t \<noteq> []" and key: "key \<noteq> []"
    and m: "S (t, key) = make_manifest (Suc cnt) sz" and c: "S (t, chunk_key key 0) = PyNone"
  shows "fst (router_get e t key r) = Inr PyNone"
proof -
  obtain r1 where r1: "get_internal e t key r = (Inr (make_manifest (Suc cnt) sz), r1)" "router_inv n S (\<lambda>x. {S x}) r1"
    using get_internal_ok [OF inv e t key] m by (metis singletonD)
  have "chunk_key key 0 \<noteq> []" by (simp add: chunk_key_def)
  then obtain r2 where r2: "get_internal e t (chunk_key key 0) r1 = (Inr PyNone, r2)"
    using get_internal_ok [OF r1(2) e t] c by (metis singletonD)
  have "rebuild e t key (make_manifest (Suc cnt) sz) r1 = (Inr PyNone, r2)" using r2 by (simp add: rebuild_def)
  then show ?thesis using t key r1(1) by (simp add: router_get_def)
qed

text \<open>C28: A failed write destroys a large value: when a value of more than 2000 bytes has been stored under
  a key and a later \<open>set\<close> of the key raises because its value is no JSON, the chunks of the old value
  are gone already; once the read cache has lost the key, \<open>get\<close> returns \<open>None\<close>.\<close>

theorem failed_set_destroys_large_value:
  assumes "router_init w mx cap (\<lambda>_. None) = Inr r" and "env_ok e" and "\<forall>x. decompress e (compress e x) = Inr x"
    and "\<forall>x \<in> set (xs @ [Set t key v]). op_ok x"
    and "history_cost e (xs @ [Set t key v, Set t key PyNone]) (\<lambda>_. PyNone) < 2 ^ 31"
    and "t \<noteq> []" and "key \<noteq> []" and "bind_result (dumps v) utf8_encode = Inr vb" and "2000 < length vb" and "compress e vb \<noteq> []"
    and "router_set e t key (PyObject obj) (snd (router_history e (xs @ [Set t key v]) r)) = (res, r2)"
  shows "res = Inl RouterError \<and> fst (router_get e t key (r2\<lparr>rcache := lfu_clear (rcache r2)\<rparr>)) = Inr PyNone"
proof -
  let ?V = "snd (map_history xs (\<lambda>_. PyNone))" and ?n = "history_cost e xs (\<lambda>_. PyNone)"
  obtain as r0 where r0: "router_history e xs r = (as, r0)" by fastforce
  have ok: "\<forall>x \<in> set xs. op_ok x" "key_ok key" "user_value v" using assms(4,6,7) by auto
  have cost: "?n + set_cost e (?V (t, key)) v + length (chunks_of e v) < 2 ^ 31"
    using assms(5-7) by (simp add: run_cost_append set_cost_def)
  have vb: "value_bytes v = Inr vb" using assms(8) by (simp add: value_bytes_def)
  have inv: "client_inv e ?n ?V r0" using history_inv [OF assms(1-3) ok(1)] cost r0 by simp
  obtain r1 S C where 1: "set_large e t key v vb r0 = (Inr (), r1)"
    "router_inv (?n + set_cost e (?V (t, key)) v) S C r1" "view_ok e (?V((t, key) := v)) S C"
    "S (t, key) = make_manifest (length (chunks_of e v)) (length vb)"
    by (rule set_large_stored [OF inv assms(2,6) ok(2,3) vb assms(9)]) (use cost in simp)
  have ck: "\<not> is_chunk_key key" using ok(2) by (simp add: key_ok_def)
  have "v \<noteq> PyNone" using assms(8,9) by (auto simp: lit_def utf8_char_def)
  then have "router_set e t key v r0 = (Inr (), r1)"
    using 1(1) assms(6,7,9) ck unfolding router_set_def assms(8) by simp
  then have "snd (router_history e (xs @ [Set t key v]) r) = r1" using r0 by (simp add: run_append)
  then have s: "router_set e t key (PyObject obj) r1 = (res, r2)" using assms(11) by simp
  obtain kb where kb: "utf8_encode key = Inr kb" "length kb \<le> 1000" using ok(2) by (auto simp: key_ok_def)
  then have r2: "res = Inl RouterError" "r2 = cleanup_chunks e t key r1"
    using s assms(6,7) ck by (auto simp: router_set_def set_internal_def pack_kv_def)
  obtain S' C' where 2: "router_inv (?n + set_cost e (?V (t, key)) v + length (chunks_of e v)) S' C' r2"
    "S' (t, key) = make_manifest (length (chunks_of e v)) (length vb)"
    "0 < length (chunks_of e v) \<Longrightarrow> S' (t, chunk_key key 0) = PyNone"
    unfolding r2(2) using cleanup_drops_chunks [OF 1(2) assms(2,6) ok(2) 1(4) cost] by blast
  have "chunks_of e v \<noteq> []" using vb assms(9,10) by (simp add: chunks_of_def split_chunks.simps [of "compress e vb"])
  then obtain cnt where cnt: "length (chunks_of e v) = Suc cnt" by (cases "chunks_of e v") auto
  then have c: "S' (t, chunk_key key 0) = PyNone" using 2(3) by simp
  from get_without_chunk [OF cache_cleared [OF 2(1)] assms(2,6,7) 2(2) [unfolded cnt] c] r2(1) show ?thesis by simp
qed

lemma letters_json: "dumps_str (replicate n 97) = 34 # replicate n 97 @ [34]"
proof -
  have "concat (map esc_char (replicate n 97)) = replicate n 97" by (induction n) (simp_all add: esc_char_def)
  then show ?thesis by (simp add: dumps_str_def)
qed

lemma letters_text: "json_text (replicate n 97)"
  by (induction n) (simp_all add: code_point_def high_surrogate_def)

lemma split_chunks_length: "length (split_chunks bs) \<le> length bs"
proof (induction bs rule: split_chunks.induct)
  case (1 bs)
  then show ?case
    by (cases "bs = []") (auto simp: split_chunks.simps [of bs] split_chunks.simps [of "[]"] Suc_le_eq intro: le_less_trans)
qed

theorem failed_set_destroys_large_value_witness:
  "\<exists>r r2. router_init empty_wal 7 1 (\<lambda>_. None) = Inr r \<and>
    router_set plain_env [116] [107] (PyObject 0)
      (snd (router_history plain_env ([] @ [Set [116] [107] (PyStr (replicate 2000 97))]) r)) = (Inl RouterError, r2) \<and>
    fst (router_get plain_env [116] [107] (r2\<lparr>rcache := lfu_clear (rcache r2)\<rparr>)) = Inr PyNone"
proof -
  let ?v = "PyStr (replicate 2000 97)" and ?vb = "map mk_byte (34 # replicate 2000 97 @ [34])"
  obtain r where r: "router_init empty_wal 7 1 (\<lambda>_. None) = Inr r" by (simp add: router_init_def)
  obtain res r2 where s: "router_set plain_env [116] [107] (PyObject 0)
      (snd (router_history plain_env ([] @ [Set [116] [107] ?v]) r)) = (res, r2)" by fastforce
  have j: "json_value ?v" by (simp add: letters_text)
  have vb: "bind_result (dumps ?v) utf8_encode = Inr ?vb" "length ?vb = 2002"
    using utf8_ascii [of "34 # replicate 2000 97 @ [34]"] by (simp_all add: letters_json)
  then have vb': "value_bytes ?v = Inr ?vb" by (simp add: value_bytes_def)
  have "user_value ?v" using j vb' by (simp add: user_value_def is_manifest_def)
  then have ok: "\<forall>x \<in> set ([] @ [Set [116] [107] ?v]). op_ok x" using true_value(2) by simp
  have n: "chunks_of plain_env PyNone = []" by (simp add: chunks_of_def value_bytes_def lit_def utf8_char_def)
  have "length (chunks_of plain_env ?v) \<le> 2002"
    using split_chunks_length [of ?vb] vb(2) vb' by (simp add: chunks_of_def plain_env_def)
  then have c: "history_cost plain_env ([] @ [Set [116] [107] ?v, Set [116] [107] PyNone]) (\<lambda>_. PyNone) < 2 ^ 31"
    using n by (simp add: set_cost_def)
  have ne: "compress plain_env ?vb \<noteq> []" by (simp add: plain_env_def)
  have "res = Inl RouterError \<and> fst (router_get plain_env [116] [107] (r2\<lparr>rcache := lfu_clear (rcache r2)\<rparr>)) = Inr PyNone"
    by (rule failed_set_destroys_large_value [OF r plain_env_ok(1) _ ok c _ _ vb(1) _ ne s])
      (use plain_env_ok(2) vb(2) in simp_all)
  with r s show ?thesis by blast
qed

end
