(* ===== verification/Database.thy ===== *)
theory Database
  imports Router_Faults
begin

text \<open>
  \<open>database.py\<close>: the facade. It opens the engine at the first call, replays the pending records of the
  write-ahead log into the memtables, puts the table's name in front of every key and passes the call
  to the router. \<open>disk_log\<close> and \<open>disk_tables\<close> are the files while no engine is open. The threads of the
  compactor and of the checkpoint are started and stopped; what they do is the matter of other theories.
\<close>

subsection \<open>State\<close>

record database =
  memtable_size :: int
  cache_capacity :: int
  engine :: "router option"
  disk_log :: wal_files
  disk_tables :: "pystr \<Rightarrow> pyfile option"

text \<open>What the system calls of the start answer: the log directory, the archive directory.\<close>

record start_env =
  logging_ok :: bool
  archive_ok :: bool

definition new_database :: "int \<Rightarrow> int \<Rightarrow> database" where
  "new_database mx cap =
     \<lparr>memtable_size = mx, cache_capacity = cap, engine = None, disk_log = [], disk_tables = (\<lambda>_. None)\<rparr>"

subsection \<open>Recovery\<close>

text \<open>The table of a key of the log: what stands before its first colon, if anything does.\<close>

definition recovery_table :: "pystr \<Rightarrow> pystr" where
  "recovery_table key =
     (let p = takeWhile (\<lambda>c. c \<noteq> 58) key in if 58 \<in> set key \<and> p \<noteq> [] then p else lit ''default'')"

definition recover_insert :: "env \<Rightarrow> pystr \<Rightarrow> pystr \<Rightarrow> bytes \<Rightarrow> router \<Rightarrow> (router, unit) step_result" where
  "recover_insert e t key packed r =
     bind_step (get_table_state e t r) (\<lambda>_ r1. on_table t r1 (\<lambda>tb.
       case memtable_insert key packed (active_memtable tb) of
         (x, m) \<Rightarrow> (x, put_table t (tb\<lparr>active_memtable := m\<rparr>) r1)))"

definition mark_recovered :: "nat \<Rightarrow> router \<Rightarrow> (router, unit) step_result" where
  "mark_recovered tx r =
     (case file_id_of tx of
        Inl err \<Rightarrow> (Inl err, r)
      | Inr fid \<Rightarrow> (case mark_job_complete (int tx) fid (rwal r) of (x, w) \<Rightarrow> (x, r\<lparr>rwal := w\<rparr>)))"

text \<open>One record; what its recovery raises is logged and skips the rest of it.\<close>

definition recover_one :: "env \<Rightarrow> tx_record \<Rightarrow> nat \<times> router \<Rightarrow> nat \<times> router" where
  "recover_one e rec s =
     (case unpack_kv (snd rec) of
        Inl _ \<Rightarrow> s
      | Inr (key, _) \<Rightarrow>
          (case bind_step (recover_insert e (recovery_table key) key (snd rec) (snd s)) (\<lambda>_. mark_recovered (fst rec)) of
             (Inl _, r) \<Rightarrow> (fst s, r)
           | (Inr _, r) \<Rightarrow> (Suc (fst s), r)))"

text \<open>
  \<open>read_wal\<close> is a generator: a mark changes the file while it is read, but only an entry that has been
  yielded already. What ends it early is caught.
\<close>

definition recover_transactions :: "env \<Rightarrow> router \<Rightarrow> nat \<times> router" where
  "recover_transactions e r = fold (recover_one e) (fst (read_wal (wal_files (rwal r)))) (0, r)"

subsection \<open>Opening\<close>

definition ensure_initialized :: "env \<Rightarrow> start_env \<Rightarrow> database \<Rightarrow> (database, unit) step_result" where
  "ensure_initialized e st d =
     (if engine d \<noteq> None then (Inr (), d)
      else if \<not> logging_ok st then (Inl LoggingHandlerError, d)
      else case bind_result (wal_init (disk_log d)) (\<lambda>w.
               router_init w (memtable_size d) (cache_capacity d) (disk_tables d)) of
             Inl _ \<Rightarrow> (Inl RuntimeError, d)
           | Inr r \<Rightarrow>
               if \<not> archive_ok st then (Inl RuntimeError, d)
               else (Inr (), d\<lparr>engine := Some (snd (recover_transactions e r))\<rparr>))"

definition on_engine ::
  "env \<Rightarrow> start_env \<Rightarrow> (router \<Rightarrow> (router, 'a) step_result) \<Rightarrow> database \<Rightarrow> (database, 'a) step_result" where
  "on_engine e st f d =
     bind_step (ensure_initialized e st d) (\<lambda>_ d1.
       case engine d1 of
         None \<Rightarrow> (Inl RuntimeError, d1)
       | Some r \<Rightarrow> (case f r of (x, r') \<Rightarrow> (x, d1\<lparr>engine := Some r'\<rparr>)))"

subsection \<open>The calls of a client\<close>

definition namespaced :: "pystr \<Rightarrow> pystr \<Rightarrow> pystr" where
  "namespaced t k = t @ [58] @ k"

definition db_set ::
  "env \<Rightarrow> start_env \<Rightarrow> pystr \<Rightarrow> pystr \<Rightarrow> pyval \<Rightarrow> database \<Rightarrow> (database, unit) step_result" where
  "db_set e st t k v d =
     (if t = [] \<or> k = [] then (Inl ValueError, d) else on_engine e st (router_set e t (namespaced t k) v) d)"

definition db_set_many ::
  "env \<Rightarrow> start_env \<Rightarrow> pystr \<Rightarrow> (pystr \<times> pyval) list \<Rightarrow> database \<Rightarrow> (database, unit) step_result" where
  "db_set_many e st t kvs d =
     (if t = [] \<or> kvs = [] then (Inl ValueError, d)
      else on_engine e st (set_many e t (map (\<lambda>(k, v). (namespaced t k, v)) kvs)) d)"

definition db_get :: "env \<Rightarrow> start_env \<Rightarrow> pystr \<Rightarrow> pystr \<Rightarrow> database \<Rightarrow> (database, pyval) step_result" where
  "db_get e st t k d =
     (if t = [] \<or> k = [] then (Inl ValueError, d) else on_engine e st (router_get e t (namespaced t k)) d)"

definition db_delete :: "env \<Rightarrow> start_env \<Rightarrow> pystr \<Rightarrow> pystr \<Rightarrow> database \<Rightarrow> (database, unit) step_result" where
  "db_delete e st t k d = (if t = [] \<or> k = [] then (Inl ValueError, d) else db_set e st t k PyNone d)"

text \<open>\<open>None\<close> is a \<open>close\<close> that never returns.\<close>

definition db_close :: "env \<Rightarrow> bool \<Rightarrow> database \<Rightarrow> database option" where
  "db_close e waiting d =
     (case engine d of
        None \<Rightarrow> Some d
      | Some r \<Rightarrow>
          (case router_shutdown e waiting r of
             None \<Rightarrow> None
           | Some r1 \<Rightarrow>
               (case force_flush (rwal r1) of
                  None \<Rightarrow> None
                | Some w \<Rightarrow> Some (d\<lparr>engine := None, disk_log := wal_files w, disk_tables := disk_files r1\<rparr>))))"

text \<open>The process dies: what is left are the files.\<close>

definition db_crash :: "database \<Rightarrow> database" where
  "db_crash d =
     (case engine d of
        None \<Rightarrow> d
      | Some r \<Rightarrow> d\<lparr>engine := None, disk_log := wal_files (rwal r), disk_tables := disk_files r\<rparr>)"

subsection \<open>The database as a map\<close>

text \<open>The calls of clients, and the background work of the router between them.\<close>

datatype db_op =
    DB_Set pystr pystr pyval | DB_Set_Many pystr "(pystr \<times> pyval) list" | DB_Get pystr pystr | DB_Delete pystr pystr
  | DB_Flush_Stage pystr | DB_Writer_Round

definition db_background :: "(router \<Rightarrow> (router, pyval) step_result) \<Rightarrow> database \<Rightarrow> (database, pyval) step_result" where
  "db_background f d =
     (case engine d of None \<Rightarrow> (Inr PyNone, d) | Some r \<Rightarrow> (case f r of (x, r') \<Rightarrow> (x, d\<lparr>engine := Some r'\<rparr>)))"

fun db_step :: "env \<Rightarrow> start_env \<Rightarrow> db_op \<Rightarrow> database \<Rightarrow> (database, pyval) step_result" where
  "db_step e st (DB_Set t k v) d = bind_step (db_set e st t k v d) (\<lambda>_ d'. (Inr (PyBool True), d'))"
| "db_step e st (DB_Set_Many t kvs) d = bind_step (db_set_many e st t kvs d) (\<lambda>_ d'. (Inr (PyBool True), d'))"
| "db_step e st (DB_Get t k) d = db_get e st t k d"
| "db_step e st (DB_Delete t k) d = bind_step (db_delete e st t k d) (\<lambda>_ d'. (Inr (PyBool True), d'))"
| "db_step e st (DB_Flush_Stage t) d = db_background (router_step e (Flush_Stage t)) d"
| "db_step e st DB_Writer_Round d = db_background (router_step e Writer_Round) d"

fun db_map_step :: "db_op \<Rightarrow> key_map \<Rightarrow> pyval result \<times> key_map" where
  "db_map_step (DB_Set t k v) V = (if t = [] \<or> k = [] then (Inl ValueError, V) else (Inr (PyBool True), V((t, k) := v)))"
| "db_map_step (DB_Set_Many t kvs) V =
     (if t = [] \<or> kvs = [] then (Inl ValueError, V) else (Inr (PyBool True), set_values t kvs V))"
| "db_map_step (DB_Get t k) V = ((if t = [] \<or> k = [] then Inl ValueError else Inr (V (t, k))), V)"
| "db_map_step (DB_Delete t k) V =
     (if t = [] \<or> k = [] then (Inl ValueError, V) else (Inr (PyBool True), V((t, k) := PyNone)))"
| "db_map_step (DB_Flush_Stage t) V = (Inr PyNone, V)"
| "db_map_step DB_Writer_Round V = (Inr PyNone, V)"

text \<open>The call as the router gets it; a call without a table or a key does not get there.\<close>

fun routed :: "db_op \<Rightarrow> router_op option" where
  "routed (DB_Set t k v) = (if t = [] \<or> k = [] then None else Some (Set t (namespaced t k) v))"
| "routed (DB_Set_Many t kvs) =
     (if t = [] \<or> kvs = [] then None else Some (Set_Many t (map (\<lambda>(k, v). (namespaced t k, v)) kvs)))"
| "routed (DB_Get t k) = (if t = [] \<or> k = [] then None else Some (Get t (namespaced t k)))"
| "routed (DB_Delete t k) = (if t = [] \<or> k = [] then None else Some (Set t (namespaced t k) PyNone))"
| "routed (DB_Flush_Stage t) = Some (Flush_Stage t)"
| "routed DB_Writer_Round = Some Writer_Round"

definition db_op_ok :: "db_op \<Rightarrow> bool" where
  "db_op_ok x \<longleftrightarrow> (case routed x of None \<Rightarrow> True | Some y \<Rightarrow> op_ok y)"

abbreviation db_history :: "env \<Rightarrow> start_env \<Rightarrow> db_op list \<Rightarrow> database \<Rightarrow> pyval result list \<times> database" where
  "db_history e st \<equiv> run (db_step e st)"

abbreviation db_map_history :: "db_op list \<Rightarrow> key_map \<Rightarrow> pyval result list \<times> key_map" where
  "db_map_history \<equiv> run db_map_step"

text \<open>The number of records that the calls may write.\<close>

fun db_cost :: "env \<Rightarrow> db_op \<Rightarrow> key_map \<Rightarrow> nat" where
  "db_cost e (DB_Set t k v) V = set_cost e (V (t, k)) v"
| "db_cost e (DB_Set_Many t kvs) V = length kvs"
| "db_cost e (DB_Delete t k) V = set_cost e (V (t, k)) PyNone"
| "db_cost e _ V = 0"

abbreviation db_history_cost :: "env \<Rightarrow> db_op list \<Rightarrow> key_map \<Rightarrow> nat" where
  "db_history_cost e \<equiv> run_cost (db_cost e) db_map_step"

lemma namespaced_simps [simp]: "namespaced t k \<noteq> []" "namespaced t k = namespaced t k' \<longleftrightarrow> k = k'"
  by (simp_all add: namespaced_def)

text \<open>The router's keys of the database's map.\<close>

definition under :: "key_map \<Rightarrow> key_map \<Rightarrow> bool" where
  "under V W \<longleftrightarrow> (\<forall>t k. V (t, namespaced t k) = W (t, k))"

lemma under_update: "under V W \<Longrightarrow> under (V((t, namespaced t k) := v)) (W((t, k) := v))"
  by (auto simp: under_def)

lemma under_set_values:
  "under V W \<Longrightarrow> under (set_values t (map (\<lambda>(k, v). (namespaced t k, v)) kvs) V) (set_values t kvs W)"
proof (induction kvs arbitrary: V W)
  case (Cons kv kvs)
  obtain k v where kv: "kv = (k, v)" by fastforce
  show ?case unfolding kv list.map prod.case set_values_Cons by (rule Cons.IH [OF under_update [OF Cons.prems]])
qed (simp add: set_values_def)

definition db_inv :: "env \<Rightarrow> nat \<Rightarrow> key_map \<Rightarrow> database \<Rightarrow> bool" where
  "db_inv e n W d \<longleftrightarrow> (\<exists>V. under V W \<and>
     (case engine d of
        Some r \<Rightarrow> client_inv e n V r
      | None \<Rightarrow> \<exists>r. wal_init (disk_log d) = Inr (rwal r) \<and>
          router_init (rwal r) (memtable_size d) (cache_capacity d) (disk_tables d) = Inr r \<and>
          fst (read_wal (disk_log d)) = [] \<and> client_inv e n V r))"

lemma wal_init_files: "wal_init files = Inr w \<Longrightarrow> wal_files w = files"
  by (auto simp: wal_init_def)

lemma ensure_initialized_ok:
  assumes inv: "db_inv e n W d" and st: "logging_ok st" "archive_ok st"
  obtains d' r V where "ensure_initialized e st d = (Inr (), d')" "engine d' = Some r" "client_inv e n V r" "under V W"
proof (cases "engine d")
  case (Some r)
  then show thesis using that inv by (auto simp: db_inv_def ensure_initialized_def)
next
  case None
  then obtain V r where a: "under V W" "wal_init (disk_log d) = Inr (rwal r)"
    "router_init (rwal r) (memtable_size d) (cache_capacity d) (disk_tables d) = Inr r"
    "fst (read_wal (disk_log d)) = []" "client_inv e n V r"
    using inv by (auto simp: db_inv_def)
  have "wal_files (rwal r) = disk_log d" using a(2) by (rule wal_init_files)
  then have "recover_transactions e r = (0, r)" using a(4) by (simp add: recover_transactions_def)
  then show thesis using that [of "d\<lparr>engine := Some r\<rparr>" r V] a None st by (simp add: ensure_initialized_def)
qed

lemma on_engine_ok:
  assumes inv: "db_inv e n W d" and st: "logging_ok st" "archive_ok st"
    and f: "\<And>V r. client_inv e n V r \<Longrightarrow> under V W \<Longrightarrow>
      \<exists>r' V'. f r = (x, r') \<and> client_inv e n' V' r' \<and> under V' W'"
  shows "\<exists>d'. on_engine e st f d = (x, d') \<and> db_inv e n' W' d'"
proof -
  obtain d1 r V where d1: "ensure_initialized e st d = (Inr (), d1)" "engine d1 = Some r" "client_inv e n V r" "under V W"
    by (rule ensure_initialized_ok [OF inv st])
  obtain r' V' where "f r = (x, r')" "client_inv e n' V' r'" "under V' W'" using f [OF d1(3,4)] by blast
  with d1(1,2) show ?thesis by (auto simp: on_engine_def db_inv_def)
qed

lemma background_ok:
  assumes inv: "db_inv e n W d"
    and f: "\<And>V r. client_inv e n V r \<Longrightarrow> \<exists>r'. f r = (Inr PyNone, r') \<and> client_inv e n V r'"
  shows "\<exists>d'. db_background f d = (Inr PyNone, d') \<and> db_inv e n W d'"
proof (cases "engine d")
  case None
  then show ?thesis using inv by (simp add: db_background_def)
next
  case (Some r)
  then obtain V where V: "under V W" "client_inv e n V r" using inv by (auto simp: db_inv_def)
  then show ?thesis using f [OF V(2)] Some by (auto simp: db_background_def db_inv_def)
qed

lemma db_inv_mono:
  assumes "db_inv e n W d" and "n \<le> n'"
  shows "db_inv e n' W d"
proof -
  have "client_inv e n V r \<Longrightarrow> client_inv e n' V r" for V r using client_inv_mono assms(2) by blast
  with assms(1) show ?thesis unfolding db_inv_def by (cases "engine d") (simp, blast, simp, blast)
qed

text \<open>A call that reaches the router behaves as the router's call does.\<close>

lemma routed_step_ok:
  assumes inv: "client_inv e n V r" and u: "under V W" and e: "env_ok e"
    and z: "\<And>x. decompress e (compress e x) = Inr x" and x: "routed x = Some y" and ok: "op_ok y"
    and n: "n + db_cost e x W < 2 ^ 31"
  shows "\<exists>r' V'. router_step e y r = (fst (db_map_step x W), r') \<and> client_inv e (n + db_cost e x W) V' r' \<and>
    under V' (snd (db_map_step x W))"
proof -
  have c: "op_cost e y V = db_cost e x W"
    using x u by (cases x) (auto simp: under_def split: if_splits)
  have m: "fst (map_step y V) = fst (db_map_step x W)"
    using x u by (cases x) (auto simp: under_def split: if_splits)
  have s: "under (snd (map_step y V)) (snd (db_map_step x W))"
    using x u by (cases x) (auto simp: under_set_values intro: under_update split: if_splits)
  have "n + op_cost e y V < 2 ^ 31" using n c by simp
  then obtain r' where "router_step e y r = (fst (map_step y V), r')"
    "client_inv e (n + op_cost e y V) (snd (map_step y V)) r'"
    using router_step_refines [OF inv e z ok] by metis
  then show ?thesis using m c s by auto
qed

lemma bind_result_unit: "bind_step (bind_step p (\<lambda>_ s. (Inr (), s))) f = bind_step p (\<lambda>_ s. f () s)"
  by (cases p; cases "fst p") auto

lemma on_engine_bind:
  "bind_step (on_engine e st f d) (\<lambda>_ d'. (Inr c, d')) = on_engine e st (\<lambda>r. bind_step (f r) (\<lambda>_ r'. (Inr c, r'))) d"
proof -
  obtain a d1 where i: "ensure_initialized e st d = (a, d1)" by fastforce
  show ?thesis
  proof (cases a)
    case (Inr u)
    show ?thesis
    proof (cases "engine d1")
      case (Some r)
      obtain b r' where "f r = (b, r')" by fastforce
      then show ?thesis using i Inr Some by (cases b) (simp_all add: on_engine_def)
    qed (use i Inr in \<open>simp add: on_engine_def\<close>)
  qed (use i in \<open>simp add: on_engine_def\<close>)
qed

lemma router_step_calls:
  "router_step e (Set t k v) = (\<lambda>r. bind_step (router_set e t k v r) (\<lambda>_ r'. (Inr (PyBool True), r')))"
  "router_step e (Set_Many t kvs) = (\<lambda>r. bind_step (set_many e t kvs r) (\<lambda>_ r'. (Inr (PyBool True), r')))"
  "router_step e (Get t k) = router_get e t k"
  by (simp_all add: fun_eq_iff)

lemma db_step_ok:
  assumes inv: "db_inv e n W d" and st: "logging_ok st" "archive_ok st" and e: "env_ok e"
    and z: "\<And>x. decompress e (compress e x) = Inr x" and ok: "db_op_ok x" and n: "n + db_cost e x W < 2 ^ 31"
  shows "\<exists>d'. db_step e st x d = (fst (db_map_step x W), d') \<and> db_inv e (n + db_cost e x W) (snd (db_map_step x W)) d'"
proof (cases "routed x")
  case None
  then have "db_step e st x d = (Inl ValueError, d)" "db_map_step x W = (Inl ValueError, W)"
    by (cases x; auto simp: db_set_def db_set_many_def db_get_def db_delete_def split: if_splits)+
  moreover have "db_inv e (n + db_cost e x W) W d" by (rule db_inv_mono [OF inv]) simp
  ultimately show ?thesis by simp
next
  case (Some y)
  have oy: "op_ok y" using ok Some by (simp add: db_op_ok_def)
  have f: "client_inv e n V r \<Longrightarrow> under V W \<Longrightarrow> \<exists>r' V'. router_step e y r = (fst (db_map_step x W), r') \<and>
      client_inv e (n + db_cost e x W) V' r' \<and> under V' (snd (db_map_step x W))" for V r
    using routed_step_ok [OF _ _ e z Some oy n] by blast
  show ?thesis
  proof (cases "\<exists>t. x = DB_Flush_Stage t \<or> x = DB_Writer_Round")
    case True
    then have b: "db_step e st x d = db_background (router_step e y) d" "db_map_step x W = (Inr PyNone, W)" "db_cost e x W = 0"
      "map_step y V = (Inr PyNone, V)" "op_cost e y V = 0" for V using Some by auto
    have "n + op_cost e y V < 2 ^ 31" for V using n b(3,5) by simp
    then have "client_inv e n V r \<Longrightarrow> \<exists>r'. router_step e y r = (Inr PyNone, r') \<and> client_inv e n V r'" for V r
      using router_step_refines [OF _ e z oy, of n V r] b(4,5) by (metis add.right_neutral fst_conv snd_conv)
    from background_ok [OF inv this] show ?thesis using b by simp
  next
    case False
    then have "db_step e st x d = on_engine e st (router_step e y) d"
      using Some by (cases x) (auto simp: db_set_def db_set_many_def db_get_def db_delete_def on_engine_bind
          router_step_calls split: if_splits)
    with on_engine_ok [OF inv st f] show ?thesis by simp
  qed
qed

definition opens_well :: "env \<Rightarrow> start_env \<Rightarrow> bool" where
  "opens_well e st \<longleftrightarrow> logging_ok st \<and> archive_ok st \<and> env_ok e \<and> (\<forall>x. decompress e (compress e x) = Inr x)"

interpretation db_machine: simulation "db_step e st" db_map_step
  "\<lambda>n W d. db_inv e n W d \<and> opens_well e st" db_op_ok "db_cost e" "2 ^ 31" for e st
proof
  fix n W d x
  assume a: "db_inv e n W d \<and> opens_well e st" "db_op_ok x" "n + db_cost e x W < 2 ^ 31"
  then show "\<exists>d'. db_step e st x d = (fst (db_map_step x W), d') \<and>
      db_inv e (n + db_cost e x W) (snd (db_map_step x W)) d' \<and> opens_well e st"
    using db_step_ok [of e n W d st x] by (auto simp: opens_well_def)
qed

lemma db_history_refines:
  assumes "db_inv e n W d" and "logging_ok st" "archive_ok st" and "env_ok e"
    and "\<And>x. decompress e (compress e x) = Inr x" and "\<forall>x \<in> set xs. db_op_ok x" and "n + db_history_cost e xs W < 2 ^ 31"
  shows "fst (db_history e st xs d) = fst (db_map_history xs W) \<and>
    db_inv e (n + db_history_cost e xs W) (snd (db_map_history xs W)) (snd (db_history e st xs d))"
  using db_machine.history_simulates [of e n W d st xs] assms by (simp add: opens_well_def)

lemma new_database_inv:
  assumes "1 \<le> mx" and "1 \<le> cap"
  shows "db_inv e 0 (\<lambda>_. PyNone) (new_database mx cap)"
proof -
  obtain w where w: "wal_init [] = Inr w" "wal_files w = []" by (auto simp: wal_init_def restore_global_tx_id_def)
  obtain r where r: "router_init w mx cap (\<lambda>_. None) = Inr r" using assms by (simp add: router_init_def)
  then have "rwal r = w" by (auto simp: router_init_def split: if_splits)
  moreover have "client_inv e 0 (\<lambda>_. PyNone) r" by (rule client_inv_init [OF r])
  moreover have "fst (read_wal []) = []" by (simp add: read_wal_def sorted_ids_def dkeys_def)
  ultimately show ?thesis using w r by (auto simp: db_inv_def new_database_def under_def)
qed

text \<open>The database is a map from tables and keys to values: every history of \<open>set\<close>, \<open>set_many\<close>, \<open>get\<close> and
  \<open>delete\<close> calls on a new database, the first of which opens the engine, with flush stages and log
  rounds between them, answers as that map does: a table's keys are its own, a deleted key reads
  \<open>None\<close>, and only calls without a table or a key raise.\<close>

theorem database_refines_map:
  assumes "1 \<le> mx" and "1 \<le> cap" and "logging_ok st" and "archive_ok st" and "env_ok e"
    and "\<forall>x. decompress e (compress e x) = Inr x" and "\<forall>x \<in> set xs. db_op_ok x"
    and "db_history_cost e xs (\<lambda>_. PyNone) < 2 ^ 31"
  shows "fst (db_history e st xs (new_database mx cap)) = fst (db_map_history xs (\<lambda>_. PyNone))"
  using db_history_refines [OF new_database_inv [OF assms(1,2)] assms(3-5) _ assms(7)] assms(6,8) by auto

definition plain_start :: start_env where
  "plain_start = \<lparr>logging_ok = True, archive_ok = True\<rparr>"

theorem database_refines_map_witness:
  "fst (db_history plain_env plain_start
     [DB_Get [] [107], DB_Set_Many [116] [([107], PyBool True)], DB_Flush_Stage [116], DB_Get [116] [107], DB_Get [117] [107]]
     (new_database 1 1)) =
   [Inl ValueError, Inr (PyBool True), Inr PyNone, Inr (PyBool True), Inr PyNone]"
proof -
  let ?xs = "[DB_Get [] [107], DB_Set_Many [116] [([107], PyBool True)], DB_Flush_Stage [116], DB_Get [116] [107], DB_Get [117] [107]]"
  have v: "value_bytes (PyBool True) = Inr (map mk_byte (lit ''true''))"
    by (simp add: value_bytes_def lit_def utf8_char_def)
  have k: "key_ok (namespaced [116] [107])" "key_ok (namespaced [117] [107])"
    by (simp_all add: namespaced_def key_ok_def is_chunk_key_def lit_def utf8_char_def)
  have "fits (namespaced [116] [107]) (PyBool True)" by (rule fits_small [OF k(1) _ v]) simp_all
  then have ok: "\<forall>x \<in> set ?xs. db_op_ok x" using k true_value(1) by (simp add: db_op_ok_def)
  have st: "logging_ok plain_start" "archive_ok plain_start" by (simp_all add: plain_start_def)
  have c: "db_history_cost plain_env ?xs (\<lambda>_. PyNone) < 2 ^ 31" by simp
  have "fst (db_history plain_env plain_start ?xs (new_database 1 1)) = fst (db_map_history ?xs (\<lambda>_. PyNone))"
    by (rule database_refines_map [OF _ _ st plain_env_ok(1) _ ok c]) (use plain_env_ok(2) in simp_all)
  then show ?thesis by (simp add: set_values_def)
qed

end
