(* ===== verification/Wal_Log.thy ===== *)
theory Wal_Log
  imports Wal
begin

text \<open>
  The write-ahead log as a client sees it: every state that a sequence of appends, flushes,
  completion marks, pre-allocations and restarts reaches holds exactly the records that were made
  durable, and \<open>read_wal\<close> replays exactly those that were not marked complete.
\<close>

subsection \<open>Reachable logs\<close>

text \<open>
  \<open>wal_run w D M\<close>: the log is in state \<open>w\<close> after some sequence of operations, the records made
  durable so far are \<open>D\<close>, and \<open>M\<close> are those of them that were marked complete. Records that are
  only in the buffer are lost by \<open>restart\<close>, which is a crash followed by \<open>WAL()\<close>. The bounds keep
  transaction ids below 2^63, where \<open>validate_tx_id\<close> starts to raise.
\<close>

definition id_ok :: "nat \<Rightarrow> bool" where
  "id_ok tx \<longleftrightarrow> tx + 2 * WAL_CAPACITY \<le> 2 ^ 63"

lemma id_ok_le: "id_ok b \<Longrightarrow> a \<le> b \<Longrightarrow> id_ok a"
  by (simp add: id_ok_def)

inductive wal_run :: "wal \<Rightarrow> tx_record list \<Rightarrow> nat set \<Rightarrow> bool" where
  start: "wal_init [] = Inr w \<Longrightarrow> wal_run w [] {}"
| append: "wal_run w D M \<Longrightarrow> r \<noteq> [] \<Longrightarrow> append_to_buffer r w = Some (tx, w') \<Longrightarrow> id_ok tx \<Longrightarrow> wal_run w' D M"
| append_many: "wal_run w D M \<Longrightarrow> [] \<notin> set rs \<Longrightarrow> append_many_to_buffer rs w = Some (txs, w') \<Longrightarrow>
    \<forall>tx \<in> set txs. id_ok tx \<Longrightarrow> wal_run w' D M"
| flush: "wal_run w D M \<Longrightarrow>
    write_buffer_to_disk stamp (wal_buffer w) (w\<lparr>wal_buffer := []\<rparr>) = (Inr (), w') \<Longrightarrow>
    wal_run w' (D @ wal_buffer w) (M \<union> (ram_completed_tx w \<inter> fst ` set (wal_buffer w)))"
| complete: "wal_run w D M \<Longrightarrow> wal_run (mark_many_jobs_complete txs w) D (M \<union> (set txs \<inter> fst ` set D))"
| complete_one: "wal_run w D M \<Longrightarrow> mark_job_complete (int tx) (tx div WAL_CAPACITY) w = (Inr (), w') \<Longrightarrow>
    wal_run w' D (M \<union> ({tx} \<inter> fst ` set D))"
| pre_allocate: "wal_run w D M \<Longrightarrow> id_ok (fid * WAL_CAPACITY) \<Longrightarrow>
    wal_run (w\<lparr>wal_files := pre_allocate_async fid (wal_files w)\<rparr>) D M"
| restart: "wal_run w D M \<Longrightarrow> wal_init (wal_files w) = Inr w' \<Longrightarrow> wal_run w' D M"

inductive_cases wal_run_cases: "wal_run w D M"

definition wal_inv :: "wal \<Rightarrow> tx_record list \<Rightarrow> nat set \<Rightarrow> bool" where
  "wal_inv w D M \<longleftrightarrow> (\<exists>db n. files_rel (wal_files w) db \<and> disk_next db n \<and> durable_rel db D M n \<and>
     map fst (wal_buffer w) = [n ..< n + length (wal_buffer w)] \<and>
     global_tx_id w = n + length (wal_buffer w) \<and> (\<forall>(tx, p) \<in> set (wal_buffer w). p \<noteq> []) \<and>
     global_tx_id w + WAL_CAPACITY \<le> 2 ^ 63 \<and> (\<forall>fid \<in> fst ` set (wal_files w). id_ok (fid * WAL_CAPACITY)) \<and>
     (\<forall>tx \<in> fst ` set (wal_buffer w). id_ok tx))"

lemma wal_invE:
  assumes "wal_inv w D M"
  obtains db n where "files_rel (wal_files w) db" "disk_next db n" "durable_rel db D M n"
    "map fst (wal_buffer w) = [n ..< n + length (wal_buffer w)]"
    "global_tx_id w = n + length (wal_buffer w)" "\<forall>(tx, p) \<in> set (wal_buffer w). p \<noteq> []"
    "global_tx_id w + WAL_CAPACITY \<le> 2 ^ 63" "\<forall>fid \<in> fst ` set (wal_files w). id_ok (fid * WAL_CAPACITY)"
    "\<forall>tx \<in> fst ` set (wal_buffer w). id_ok tx"
  using assms unfolding wal_inv_def by blast

lemma append_one_inv:
  assumes inv: "wal_inv w D M" and r: "r \<noteq> []" and g: "id_ok (global_tx_id w)"
  shows "wal_inv (w\<lparr>global_tx_id := global_tx_id w + 1, wal_buffer := wal_buffer w @ [(global_tx_id w, r)]\<rparr>) D M"
proof -
  obtain db n where a: "files_rel (wal_files w) db" "disk_next db n" "durable_rel db D M n"
    "map fst (wal_buffer w) = [n ..< n + length (wal_buffer w)]"
    "global_tx_id w = n + length (wal_buffer w)" "\<forall>(tx, p) \<in> set (wal_buffer w). p \<noteq> []"
    "global_tx_id w + WAL_CAPACITY \<le> 2 ^ 63" "\<forall>fid \<in> fst ` set (wal_files w). id_ok (fid * WAL_CAPACITY)"
    "\<forall>tx \<in> fst ` set (wal_buffer w). id_ok tx"
    by (rule wal_invE [OF inv])
  have "global_tx_id w + 1 + WAL_CAPACITY \<le> 2 ^ 63" using g sizes(5) by (simp add: id_ok_def)
  with a r g [unfolded a(5)] show ?thesis by (auto simp: wal_inv_def intro!: exI [of _ db] exI [of _ n])
qed

lemma append_loop_inv:
  "append_loop rs w = (txs, w') \<Longrightarrow> wal_inv w D M \<Longrightarrow> [] \<notin> set rs \<Longrightarrow> \<forall>tx \<in> set txs. id_ok tx \<Longrightarrow> wal_inv w' D M"
proof (induction rs arbitrary: w txs)
  case (Cons r rs)
  let ?w = "w\<lparr>global_tx_id := global_tx_id w + 1, wal_buffer := wal_buffer w @ [(global_tx_id w, r)]\<rparr>"
  obtain txs' where t: "append_loop rs ?w = (txs', w')" "txs = global_tx_id w # txs'"
    using Cons.prems(1) by (auto simp: Let_def split: prod.splits)
  have "wal_inv ?w D M" using Cons.prems t(2) by (intro append_one_inv) auto
  then show ?case using Cons.IH [OF t(1)] Cons.prems t(2) by simp
qed simp

lemma split_batches_members:
  "(fid, b) \<in> set (split_batches buf) \<Longrightarrow> b \<noteq> [] \<and> set b \<subseteq> set buf"
proof (induction buf arbitrary: fid b rule: rev_induct)
  case (snoc r buf)
  have s: "split_batches (buf @ [r]) = add_to_batches r (split_batches buf)" by (simp add: split_batches_def)
  have sub: "(x, y) \<in> set (dset d k v) \<Longrightarrow> (x, y) = (k, v) \<or> (x, y) \<in> set d" for x y k v and d :: "(nat, tx_record list) dict"
    by (induction d k v rule: dset.induct) (auto split: if_splits)
  let ?k = "fst r div WAL_CAPACITY"
  let ?old = "case dget (split_batches buf) ?k of None \<Rightarrow> [] | Some b \<Rightarrow> b"
  have "(fid, b) = (?k, ?old @ [r]) \<or> (fid, b) \<in> set (split_batches buf)"
    using snoc.prems sub unfolding s add_to_batches_def Let_def by blast
  moreover have "set ?old \<subseteq> set buf"
  proof (cases "dget (split_batches buf) ?k")
    case (Some b')
    then show ?thesis using snoc.IH map_of_SomeD [OF Some] by simp
  qed simp
  ultimately show ?case using snoc.IH by fastforce
qed (simp add: split_batches_def)

lemma write_batch_keys:
  "fst ` set (snd (write_batch stamp done batch files)) \<subseteq> insert (fst (hd batch) div WAL_CAPACITY) (fst ` set files)"
  by (auto simp: write_batch_def Let_def file_id_of_def split: sum.splits prod.splits if_splits)

lemma write_batches_keys:
  "\<forall>(fid, b) \<in> set bs. b \<noteq> [] \<and> set b \<subseteq> S \<Longrightarrow>
   fst ` set (snd (write_batches stamp done bs files)) \<subseteq> (\<lambda>r. fst r div WAL_CAPACITY) ` S \<union> fst ` set files"
proof (induction stamp "done" bs files rule: write_batches.induct)
  case (2 stamp "done" fid batch bs files)
  obtain r files1 where w: "write_batch stamp done batch files = (r, files1)" by fastforce
  have b: "batch \<noteq> []" "set batch \<subseteq> S" using 2(2) by auto
  then have "hd batch \<in> S" by auto
  then have k: "fst ` set files1 \<subseteq> (\<lambda>r. fst r div WAL_CAPACITY) ` S \<union> fst ` set files"
    using write_batch_keys [of stamp "done" batch files] w by auto
  show ?case
  proof (cases r)
    case (Inl e)
    then show ?thesis using w k by simp
  next
    case (Inr u)
    have "\<forall>(fid, b) \<in> set bs. b \<noteq> [] \<and> set b \<subseteq> S" using 2(2) by simp
    from 2(1) [OF this, of files1] show ?thesis using w k Inr by auto
  qed
qed simp

lemma flush_inv:
  assumes inv: "wal_inv w D M"
    and f: "write_buffer_to_disk stamp (wal_buffer w) (w\<lparr>wal_buffer := []\<rparr>) = (Inr (), w')"
  shows "wal_inv w' (D @ wal_buffer w) (M \<union> (ram_completed_tx w \<inter> fst ` set (wal_buffer w)))"
proof (cases "wal_buffer w = []")
  case True
  with f have "w' = w" by (auto simp: write_buffer_to_disk_def)
  with inv True show ?thesis by simp
next
  case False
  obtain db n where a: "files_rel (wal_files w) db" "disk_next db n" "durable_rel db D M n"
    "map fst (wal_buffer w) = [n ..< n + length (wal_buffer w)]"
    "global_tx_id w = n + length (wal_buffer w)" "\<forall>(tx, p) \<in> set (wal_buffer w). p \<noteq> []"
    "global_tx_id w + WAL_CAPACITY \<le> 2 ^ 63" "\<forall>fid \<in> fst ` set (wal_files w). id_ok (fid * WAL_CAPACITY)"
    "\<forall>tx \<in> fst ` set (wal_buffer w). id_ok tx"
    by (rule wal_invE [OF inv])
  let ?S = "set (wal_buffer w)"
  from f False obtain files' where w: "write_batches stamp (ram_completed_tx w) (split_batches (wal_buffer w)) (wal_files w) = (Inr (), files')"
    "w' = w\<lparr>wal_buffer := [], ram_completed_tx := {}, wal_files := files'\<rparr>"
    by (auto simp: write_buffer_to_disk_def split: prod.splits)
  obtain db' where db': "files_rel files' db'" "disk_next db' (global_tx_id w)"
    "durable_rel db' (D @ wal_buffer w) (M \<union> (ram_completed_tx w \<inter> fst ` ?S)) (global_tx_id w)"
    using write_batches_ok [OF a(1-4) a(6) _ w(1)] a(5,7) by auto
  have mem: "\<forall>(fid, b) \<in> set (split_batches (wal_buffer w)). b \<noteq> [] \<and> set b \<subseteq> ?S"
    using split_batches_members by blast
  have "\<forall>fid \<in> fst ` set files'. id_ok (fid * WAL_CAPACITY)"
  proof
    fix fid assume "fid \<in> fst ` set files'"
    moreover have "fst ` set files' \<subseteq> (\<lambda>r. fst r div WAL_CAPACITY) ` ?S \<union> fst ` set (wal_files w)"
      using write_batches_keys [OF mem, of stamp "ram_completed_tx w" "wal_files w"] w(1) by simp
    ultimately consider r where "r \<in> ?S" "fid = fst r div WAL_CAPACITY" | "fid \<in> fst ` set (wal_files w)" by blast
    then show "id_ok (fid * WAL_CAPACITY)"
    proof cases
      case 1
      then have "id_ok (fst r)" using a(9) by auto
      moreover have "fid * WAL_CAPACITY \<le> fst r" using 1(2) by simp
      ultimately show ?thesis by (rule id_ok_le)
    qed (use a(8) in blast)
  qed
  then show ?thesis
    unfolding wal_inv_def using db' a(7) by (intro exI [of _ db'] exI [of _ "global_tx_id w"]) (simp add: w(2))
qed

lemma mark_in_files_keys: "fst ` set (mark_in_files txs files) = fst ` set files"
proof (induction txs arbitrary: files)
  case (Cons tx txs)
  have "insert fid (fst ` set files) = fst ` set files" if "dget files fid = Some f" for fid f
    using that by (metis dget_None_iff insert_absorb option.distinct(1))
  then show ?case by (auto simp: Cons split: sum.splits option.splits)
qed simp

lemma complete_inv:
  assumes inv: "wal_inv w D M"
  shows "wal_inv (mark_many_jobs_complete txs w) D (M \<union> (set txs \<inter> fst ` set D))"
proof (cases "txs = []")
  case True
  with inv show ?thesis by (simp add: mark_many_jobs_complete_def)
next
  case False
  obtain db n where a: "files_rel (wal_files w) db" "disk_next db n" "durable_rel db D M n"
    "map fst (wal_buffer w) = [n ..< n + length (wal_buffer w)]"
    "global_tx_id w = n + length (wal_buffer w)" "\<forall>(tx, p) \<in> set (wal_buffer w). p \<noteq> []"
    "global_tx_id w + WAL_CAPACITY \<le> 2 ^ 63" "\<forall>fid \<in> fst ` set (wal_files w). id_ok (fid * WAL_CAPACITY)"
    "\<forall>tx \<in> fst ` set (wal_buffer w). id_ok tx"
    by (rule wal_invE [OF inv])
  let ?disk = "filter (\<lambda>t. \<not> in_buffer_range (wal_buffer w) t) txs"
  have out: "n \<le> t" if "in_buffer_range (wal_buffer w) t" for t
    using that hd_next [OF a(4)] by (auto simp: in_buffer_range_def)
  have "\<forall>t \<in> fst ` set D. t < n" using a(3) by (simp add: durable_rel_def)
  then have M: "set ?disk \<inter> fst ` set D = set txs \<inter> fst ` set D" using out by fastforce
  have "n \<le> 2 ^ 63" using a(5,7) by simp
  from mark_in_files_ok [OF a(1,3,2) this, of ?disk] obtain db' where
    db': "files_rel (mark_in_files ?disk (wal_files w)) db'" "disk_next db' n"
      "durable_rel db' D (M \<union> (set txs \<inter> fst ` set D)) n"
    unfolding M by blast
  have w': "mark_many_jobs_complete txs w = w\<lparr>ram_completed_tx := ram_completed_tx w \<union> set txs,
      wal_files := mark_in_files ?disk (wal_files w)\<rparr>"
    using False by (simp add: mark_many_jobs_complete_def Let_def)
  show ?thesis
    unfolding wal_inv_def w' using db' a(4-9) mark_in_files_keys [of ?disk "wal_files w"]
    by (intro exI [of _ db'] exI [of _ n]) simp
qed

text \<open>For an id that is in range, marking one job is marking the list of it.\<close>

lemma mark_job_complete_eq:
  "tx < 2 ^ 63 \<Longrightarrow> mark_job_complete (int tx) (tx div WAL_CAPACITY) w = (Inr (), mark_many_jobs_complete [tx] w)"
  by (auto simp: mark_job_complete_def mark_many_jobs_complete_def validate_tx_id_nat file_id_of_def Let_def
      split: option.splits)

lemma mark_job_complete_ok:
  "mark_job_complete (int tx) fid w = (Inr (), w') \<Longrightarrow> tx < 2 ^ 63"
  by (auto simp: mark_job_complete_def validate_tx_id_def split: if_splits)

lemma pre_allocate_inv:
  assumes inv: "wal_inv w D M" and fid: "id_ok (fid * WAL_CAPACITY)"
  shows "wal_inv (w\<lparr>wal_files := pre_allocate_async fid (wal_files w)\<rparr>) D M"
proof -
  obtain db n where a: "files_rel (wal_files w) db" "disk_next db n" "durable_rel db D M n"
    "map fst (wal_buffer w) = [n ..< n + length (wal_buffer w)]"
    "global_tx_id w = n + length (wal_buffer w)" "\<forall>(tx, p) \<in> set (wal_buffer w). p \<noteq> []"
    "global_tx_id w + WAL_CAPACITY \<le> 2 ^ 63" "\<forall>fid \<in> fst ` set (wal_files w). id_ok (fid * WAL_CAPACITY)"
    "\<forall>tx \<in> fst ` set (wal_buffer w). id_ok tx"
    by (rule wal_invE [OF inv])
  have "\<exists>files'. pre_allocate_async fid (wal_files w) = files' \<and> files_rel files' db \<and>
      (\<forall>fid \<in> fst ` set files'. id_ok (fid * WAL_CAPACITY))"
  proof (cases "dget (wal_files w) fid")
    case None
    have "32 \<le> header_block_size + PAYLOAD_AREA_SIZE" by (simp add: header_block_size_def)
    from pre_allocate_rel [OF this, of fid] obtain f where
      f: "pre_allocate_wal (header_block_size + PAYLOAD_AREA_SIZE) = Inr f" "file_rel fid [] f" by blast
    have "db fid = []" using a(1) None by (auto simp: files_rel_def dest!: spec [of _ fid])
    then have "db(fid := []) = db" by auto
    then have "files_rel (dset (wal_files w) fid f) db" using files_rel_set [OF a(1) f(2)] by simp
    moreover have "pre_allocate_async fid (wal_files w) = dset (wal_files w) fid f"
      using None f(1) by (simp add: pre_allocate_async_def)
    moreover have "\<forall>k \<in> fst ` set (dset (wal_files w) fid f). id_ok (k * WAL_CAPACITY)"
      unfolding keys_dset using a(8) fid by blast
    ultimately show ?thesis by blast
  qed (use a in \<open>auto simp: pre_allocate_async_def\<close>)
  then show ?thesis
    unfolding wal_inv_def using a by (intro exI [of _ db] exI [of _ n]) simp
qed

lemma restart_inv:
  assumes inv: "wal_inv w D M"
  shows "\<exists>w'. wal_init (wal_files w) = Inr w' \<and> wal_inv w' D M \<and> wal_files w' = wal_files w \<and>
    wal_buffer w' = [] \<and> (\<forall>tx \<in> fst ` set D. tx < global_tx_id w')"
proof -
  obtain db n where a: "files_rel (wal_files w) db" "disk_next db n" "durable_rel db D M n"
    "\<forall>fid \<in> fst ` set (wal_files w). id_ok (fid * WAL_CAPACITY)"
    by (rule wal_invE [OF inv])
  obtain n' where n': "restore_global_tx_id (wal_files w) = Inr n'" "disk_next db n'" "durable_rel db D M n'"
      "wal_files w \<noteq> [] \<Longrightarrow>
        n' = last (sorted_ids (wal_files w)) * WAL_CAPACITY + length (db (last (sorted_ids (wal_files w))))"
    using restore_db [OF a(1,3,2)] by blast
  have "n' + WAL_CAPACITY \<le> 2 ^ 63"
  proof (cases "wal_files w = []")
    case True
    then show ?thesis using n'(1) by (simp add: restore_global_tx_id_def WAL_CAPACITY_def)
  next
    case False
    let ?q = "last (sorted_ids (wal_files w))"
    have "?q \<in> set (sorted_ids (wal_files w))"
      using False by (intro last_in_set) (metis dkeys_def length_0_conv length_map length_sort sorted_ids_def)
    moreover have "set (sorted_ids (wal_files w)) = fst ` set (wal_files w)"
      by (simp add: sorted_ids_def dkeys_def)
    ultimately have "id_ok (?q * WAL_CAPACITY)" using a(4) by blast
    with n'(4) [OF False] files_rel_length [OF a(1), of ?q] show ?thesis by (simp add: id_ok_def)
  qed
  moreover have "\<forall>tx \<in> fst ` set D. tx < n'" using n'(3) by (simp add: durable_rel_def)
  ultimately show ?thesis
    using n'(1-3) a(1,4) by (auto simp: wal_init_def wal_inv_def intro!: exI [of _ db])
qed

lemma empty_log_inv: "wal_init [] = Inr w \<Longrightarrow> wal_inv w [] {}"
proof -
  assume "wal_init [] = Inr w"
  then have "w = \<lparr>global_tx_id = 0, wal_buffer = [], ram_completed_tx = {}, wal_files = [], active_flushes = 0\<rparr>"
    by (simp add: wal_init_def restore_global_tx_id_def)
  then show ?thesis
    by (auto simp: wal_inv_def files_rel_def disk_next_def durable_rel_def rec_at_def WAL_CAPACITY_def
        intro!: exI [of _ "\<lambda>_. []"] exI [of _ 0])
qed

theorem wal_run_inv: "wal_run w D M \<Longrightarrow> wal_inv w D M"
proof (induction rule: wal_run.induct)
  case (start w)
  then show ?case by (rule empty_log_inv)
next
  case (append w D M r tx w')
  then show ?case using append_one_inv [of w D M r] by (auto simp: append_to_buffer_def split: if_splits)
next
  case (append_many w D M rs txs w')
  then show ?case using append_loop_inv [of rs w txs w' D M] by (auto simp: append_many_to_buffer_def split: if_splits)
next
  case (flush w D M stamp w')
  from flush_inv [OF flush.IH flush.hyps(2)] show ?case .
next
  case (complete w D M txs)
  from complete_inv [OF complete.IH] show ?case .
next
  case (complete_one w D M tx w')
  from mark_job_complete_ok [OF complete_one.hyps(2)] have "w' = mark_many_jobs_complete [tx] w"
    using mark_job_complete_eq [of tx w] complete_one.hyps(2) by simp
  then show ?case using complete_inv [OF complete_one.IH, of "[tx]"] by simp
next
  case (pre_allocate w D M fid)
  from pre_allocate_inv [OF pre_allocate.IH pre_allocate.hyps(2)] show ?case .
next
  case (restart w D M w')
  then show ?case using restart_inv [OF restart.IH] by auto
qed

subsection \<open>What the files hold, in terms of the durable records\<close>

lemma bytes_in_filter: "bytes_in fid (filter (\<lambda>r. fst r div WAL_CAPACITY = fid) rs) = bytes_in fid rs"
  by (induction fid rs rule: bytes_in.induct) auto

lemma bytes_in_numbered:
  "\<forall>i < length rs. (a + i) div WAL_CAPACITY = fid \<Longrightarrow>
   bytes_in fid (map (\<lambda>i. (a + i, fst (rs ! i))) [0 ..< length rs]) = space_used rs"
proof (induction rs arbitrary: a)
  case (Cons r rs)
  have "[0 ..< length (r # rs)] = 0 # map Suc [0 ..< length rs]"
    by (simp add: upt_conv_Cons map_Suc_upt del: upt_Suc)
  moreover have "bytes_in fid (map (\<lambda>i. (Suc a + i, fst (rs ! i))) [0 ..< length rs]) = space_used rs"
  proof (rule Cons.IH, intro allI impI)
    fix i assume "i < length rs"
    then show "(Suc a + i) div WAL_CAPACITY = fid" using Cons.prems [rule_format, of "Suc i"] by simp
  qed
  ultimately show ?case using Cons.prems [rule_format, of 0] by (cases r) (simp add: comp_def)
qed simp

lemma file_records:
  assumes r: "files_rel files db" and l: "durable_rel db D M n"
  shows "filter (\<lambda>r. fst r div WAL_CAPACITY = fid) D =
    map (\<lambda>i. (fid * WAL_CAPACITY + i, fst (db fid ! i))) [0 ..< length (db fid)]"
    (is "?L = ?R")
proof (rule strict_sorted_unique)
  have D: "sorted_wrt (<) (map fst D)" "\<And>t. rec_at db t = map_option (\<lambda>p. (p, t \<in> M)) (map_of D t)"
    using l by (auto simp: durable_rel_def)
  show "sorted_wrt (<) (map fst ?L)" using D(1) by (induction D) auto
  have "map fst ?R = map (\<lambda>i. fid * WAL_CAPACITY + i) [0 ..< length (db fid)]" by simp
  then show "sorted_wrt (<) (map fst ?R)" by (simp add: sorted_wrt_map sorted_wrt_upt)
  have dist: "distinct (map fst D)" using D(1) by (simp add: strict_sorted_iff)
  have at: "rec_at db (fid * WAL_CAPACITY + i) = Some (db fid ! i)" if "i < length (db fid)" for i
    using block_div_mod [of i _ fid, OF _ refl] files_rel_length [OF r, of fid] that by (simp add: rec_at_def)
  show "set ?L = set ?R"
  proof (intro equalityI subsetI)
    fix x assume xL: "x \<in> set ?L"
    obtain t p where "x = (t, p)" by (cases x)
    with xL have x: "x = (t, p)" "(t, p) \<in> set D" "t div WAL_CAPACITY = fid" by simp_all
    then have "rec_at db t = Some (p, t \<in> M)" using D(2) [of t] dist by simp
    then have "t mod WAL_CAPACITY < length (db fid)" "db fid ! (t mod WAL_CAPACITY) = (p, t \<in> M)"
      using x(3) by (auto simp: rec_at_def split: if_splits)
    moreover have "t = fid * WAL_CAPACITY + t mod WAL_CAPACITY" using x(3) div_mult_mod_eq [of t WAL_CAPACITY] by simp
    ultimately show "x \<in> set ?R" using x(1) by (auto intro!: image_eqI [of _ _ "t mod WAL_CAPACITY"])
  next
    fix x assume "x \<in> set ?R"
    then obtain i where i: "i < length (db fid)" "x = (fid * WAL_CAPACITY + i, fst (db fid ! i))" by auto
    with at [OF i(1)] D(2) [of "fid * WAL_CAPACITY + i"]
    have "map_of D (fid * WAL_CAPACITY + i) = Some (fst (db fid ! i))"
      by (cases "map_of D (fid * WAL_CAPACITY + i)") (auto simp: prod_eq_iff)
    then have "x \<in> set D" using i(2) by (auto dest: map_of_SomeD)
    moreover have "fst x div WAL_CAPACITY = fid"
      using block_div_mod [of i _ fid, OF _ refl] files_rel_length [OF r, of fid] i by simp
    ultimately show "x \<in> set ?L" by simp
  qed
qed

lemma space_used_db:
  assumes "files_rel files db" and "durable_rel db D M n"
  shows "space_used (db fid) = bytes_in fid D"
proof -
  have "\<forall>i < length (db fid). (fid * WAL_CAPACITY + i) div WAL_CAPACITY = fid"
    using block_div_mod [OF _ refl] files_rel_length [OF assms(1), of fid] by auto
  then show ?thesis
    using bytes_in_numbered [of "db fid" "fid * WAL_CAPACITY" fid] file_records [OF assms, of fid]
      bytes_in_filter [of fid D] by simp
qed

lemma flush_succeeds_inv:
  assumes inv: "wal_inv w D M" and fit: "\<forall>fid. bytes_in fid (D @ wal_buffer w) \<le> PAYLOAD_AREA_SIZE"
  shows "\<exists>w'. write_buffer_to_disk stamp (wal_buffer w) (w\<lparr>wal_buffer := []\<rparr>) = (Inr (), w') \<and>
    wal_buffer w' = [] \<and> global_tx_id w' = global_tx_id w"
proof -
  obtain db n where a: "files_rel (wal_files w) db" "disk_next db n" "durable_rel db D M n"
    "map fst (wal_buffer w) = [n ..< n + length (wal_buffer w)]"
    "global_tx_id w = n + length (wal_buffer w)" "\<forall>(tx, p) \<in> set (wal_buffer w). p \<noteq> []"
    "global_tx_id w + WAL_CAPACITY \<le> 2 ^ 63"
    by (rule wal_invE [OF inv])
  have "\<forall>fid. space_used (db fid) + bytes_in fid (wal_buffer w) \<le> PAYLOAD_AREA_SIZE"
    using fit space_used_db [OF a(1,3)] by simp
  from write_batches_succeeds [OF a(1-4,6) _ this, of stamp "ram_completed_tx w"] a(5,7)
  obtain files' where "write_batches stamp (ram_completed_tx w) (split_batches (wal_buffer w)) (wal_files w) = (Inr (), files')"
    by auto
  then show ?thesis by (cases "wal_buffer w = []") (simp_all add: write_buffer_to_disk_def)
qed

lemma flush_succeeds:
  assumes run: "wal_run w D M" and fit: "\<forall>fid. bytes_in fid (D @ wal_buffer w) \<le> PAYLOAD_AREA_SIZE"
  shows "\<exists>w'. write_buffer_to_disk stamp (wal_buffer w) (w\<lparr>wal_buffer := []\<rparr>) = (Inr (), w') \<and>
    wal_buffer w' = [] \<and> global_tx_id w' = global_tx_id w \<and>
    wal_run w' (D @ wal_buffer w) (M \<union> (ram_completed_tx w \<inter> fst ` set (wal_buffer w)))"
  using flush_succeeds_inv [OF wal_run_inv [OF run] fit, of stamp] wal_run.flush [OF run] by metis

lemma read_wal_inv:
  assumes "wal_inv w D M"
  shows "read_wal (wal_files w) = (filter (\<lambda>(tx, p). tx \<notin> M) D, None)"
proof -
  obtain db n where a: "files_rel (wal_files w) db" "durable_rel db D M n"
    "global_tx_id w = n + length (wal_buffer w)" "global_tx_id w + WAL_CAPACITY \<le> 2 ^ 63"
    by (rule wal_invE [OF assms])
  then have "n + WAL_CAPACITY \<le> 2 ^ 63" by linarith
  with a(1,2) show ?thesis by (rule read_wal_db)
qed

lemma read_wal_run: "wal_run w D M \<Longrightarrow> read_wal (wal_files w) = (filter (\<lambda>(tx, p). tx \<notin> M) D, None)"
  by (rule read_wal_inv [OF wal_run_inv])

text \<open>A small log: one record is appended to a new log and flushed.\<close>

lemma one_append: "\<exists>w w'. wal_init [] = Inr w \<and> append_to_buffer [7] w = Some (0, w') \<and>
    wal_buffer w' = [(0, [7])] \<and> ram_completed_tx w' = {} \<and> wal_files w' = [] \<and> global_tx_id w' = 1 \<and> wal_run w' [] {}"
proof -
  obtain w where w: "wal_init [] = Inr w" "wal_buffer w = []" "global_tx_id w = 0"
      "ram_completed_tx w = {}" "wal_files w = []"
    by (simp add: wal_init_def restore_global_tx_id_def)
  then obtain w' where w': "append_to_buffer [7] w = Some (0, w')" "wal_buffer w' = [(0, [7])]"
      "ram_completed_tx w' = {}" "wal_files w' = []" "global_tx_id w' = 1"
    by (simp add: append_to_buffer_def BATCH_SIZE_def)
  have "id_ok 0" by (simp add: id_ok_def WAL_CAPACITY_def)
  with wal_run.append [OF wal_run.start [OF w(1)] _ w'(1)] have "wal_run w' [] {}" by simp
  with w(1) w' show ?thesis by blast
qed

lemma one_record_flushed: "\<exists>w. wal_run w [(0, [7])] {} \<and> wal_buffer w = [] \<and> global_tx_id w = 1"
proof -
  obtain w where w: "wal_buffer w = [(0, [7])]" "ram_completed_tx w = {}" "wal_run w [] {}" "global_tx_id w = 1"
    using one_append by blast
  moreover have "\<forall>fid. bytes_in fid ([] @ wal_buffer w) \<le> PAYLOAD_AREA_SIZE"
    using w(1) by (simp add: PAYLOAD_AREA_SIZE_def)
  ultimately obtain w' where "wal_run w' ([] @ wal_buffer w) ({} \<union> (ram_completed_tx w \<inter> fst ` set (wal_buffer w)))"
      "wal_buffer w' = []" "global_tx_id w' = 1"
    using flush_succeeds [OF w(3), of undefined] by auto
  with w(1,2) show ?thesis by auto
qed

lemma one_record: "\<exists>w. wal_run w [(0, [7])] {}"
  using one_record_flushed by blast

subsection \<open>The log's promises\<close>







subsection \<open>The order of the three writes\<close>

lemma pending_from_append: "pending_from tx (rs @ rs') = pending_from tx rs @ pending_from (tx + length rs) rs'"
  by (induction tx rs rule: pending_from.induct) auto

lemma pending_from_logged:
  "map fst batch = [tx ..< tx + length batch] \<Longrightarrow> pending_from tx (logged done batch) = filter (\<lambda>(t, p). t \<notin> done) batch"
proof (induction batch arbitrary: tx)
  case (Cons r batch)
  then have "fst r = tx" "map fst batch = [Suc tx ..< Suc tx + length batch]"
    by (auto simp: upt_conv_Cons simp del: upt_Suc)
  with Cons.IH [of "Suc tx"] show ?case by (cases r) simp
qed simp

lemma write_batch_file_writes:
  assumes r: "file_rel fid rs f" and ok: "write_batch_file stamp done batch f = (Inr (), f')"
  shows "\<exists>offs block used' slot entries. layout_payloads batch (space_used rs) = Inr (offs, block, used') \<and>
    get_slot_index (fst (hd batch)) = Inr slot \<and> layout_entries stamp done batch offs = Inr entries \<and>
    f' = fwrite (fwrite (fwrite f (header_block_size + space_used rs) block) (entry_offset slot) entries) 0
      (header_image (blit ''WAL1'') WAL_CAPACITY (length rs + length batch) used')"
  using ok file_rel_header [OF r]
  by (auto simp: write_batch_file_def Let_def split: sum.splits)

text \<open>C20: writing a batch is atomic at any point between or inside its first two writes: as long as only
  a prefix of the payload block, or the payload block and a prefix of the entry headers, has reached
  the file, a reader sees exactly the records from before; the write of the header publishes the
  whole batch at once.\<close>

theorem wal_header_write_commits_batch:
  assumes "file_rel fid rs f" and "fid * WAL_CAPACITY + WAL_CAPACITY \<le> 2 ^ 63"
    and "batch \<noteq> []" and "\<forall>(tx, p) \<in> set batch. p \<noteq> []"
    and "map fst batch = [fid * WAL_CAPACITY + length rs ..< fid * WAL_CAPACITY + length rs + length batch]"
    and "length rs + length batch \<le> WAL_CAPACITY"
    and "space_used rs + space_used (logged done batch) \<le> PAYLOAD_AREA_SIZE"
  shows "\<exists>block entries header.
    write_batch_file stamp done batch f =
      (Inr (), fwrite (fwrite (fwrite f (header_block_size + space_used rs) block)
        (entry_offset (length rs)) entries) 0 header) \<and>
    (\<forall>k. read_wal_file (fwrite f (header_block_size + space_used rs) (take k block)) = read_wal_file f) \<and>
    (\<forall>k. read_wal_file (fwrite (fwrite f (header_block_size + space_used rs) block)
        (entry_offset (length rs)) (take k entries)) = read_wal_file f) \<and>
    read_wal_file (snd (write_batch_file stamp done batch f)) =
      (fst (read_wal_file f) @ filter (\<lambda>(tx, p). tx \<notin> done) batch, None)"
proof -
  obtain f' where f': "write_batch_file stamp done batch f = (Inr (), f')" "file_rel fid (rs @ logged done batch) f'"
    using write_batch_file_ok [OF assms(1,3,4,5,6,2,7), of stamp] by blast
  obtain offs block used' slot entries where w: "get_slot_index (fst (hd batch)) = Inr slot"
      "layout_entries stamp done batch offs = Inr entries" "layout_payloads batch (space_used rs) = Inr (offs, block, used')"
      "f' = fwrite (fwrite (fwrite f (header_block_size + space_used rs) block) (entry_offset slot) entries) 0
        (header_image (blit ''WAL1'') WAL_CAPACITY (length rs + length batch) used')"
    using write_batch_file_writes [OF assms(1) f'(1)] by blast
  have offs: "offs = offsets_from (space_used rs) batch" using layout_payloads_fits [OF assms(7)] w(3) by simp
  have "0 < length batch" using assms(3) by simp
  then have n: "length rs < WAL_CAPACITY" "fid * WAL_CAPACITY + length rs < 2 ^ 63"
      "fid * WAL_CAPACITY + length rs + length batch \<le> 2 ^ 63" using assms(2,6) by linarith+
  have slot: "slot = length rs"
    using w(1) slot_of_next(1) [OF n(1,2)] hd_next [OF assms(5,3)] by simp
  have "length entries = 25 * length batch"
    using w(2) layout_entries_ok [OF assms(5) n(3) assms(7), of stamp] unfolding offs by auto
  then have e: "entry_offset (length rs) + length (take k entries) \<le> header_block_size" for k
    using assms(6) by (simp add: entry_offset_def header_block_size_def)
  note read = read_wal_file_rel [OF _ assms(2)]
  have r1: "file_rel fid rs (fwrite f (header_block_size + space_used rs) b)" for b
    by (rule file_rel_payload_write [OF assms(1)])
  have r2: "file_rel fid rs (fwrite (fwrite f (header_block_size + space_used rs) block) (entry_offset (length rs)) (take k entries))" for k
    using e by (intro file_rel_entry_write [OF r1]) (simp_all add: entry_offset_def)
  have "read_wal_file f' = (fst (read_wal_file f) @ filter (\<lambda>(tx, p). tx \<notin> done) batch, None)"
    using read [OF f'(2)] read [OF assms(1)] pending_from_logged [OF assms(5)] by (simp add: pending_from_append)
  moreover have "read_wal_file (fwrite f (header_block_size + space_used rs) b) = read_wal_file f" for b
    using read [OF r1] read [OF assms(1)] by simp
  moreover have "read_wal_file (fwrite (fwrite f (header_block_size + space_used rs) block)
      (entry_offset (length rs)) (take k entries)) = read_wal_file f" for k
    using read [OF r2] read [OF assms(1)] by simp
  ultimately show ?thesis unfolding f'(1) snd_conv using w(4) unfolding slot by blast
qed

theorem wal_header_write_commits_batch_witness:
  "\<exists>f block. pre_allocate_wal 37 = Inr f \<and> read_wal_file (fwrite f header_block_size (take 3 block)) = ([], None) \<and>
    read_wal_file (snd (write_batch_file (\<lambda>_. 0) {} [(0, [7])] f)) = ([(0, [7])], None)"
proof -
  obtain f where f: "pre_allocate_wal 37 = Inr f" "file_rel 0 [] f" using pre_allocate_rel [of 37 0] by auto
  have "read_wal_file f = ([], None)"
    using read_wal_file_rel [OF f(2)] by (simp add: WAL_CAPACITY_def)
  with wal_header_write_commits_batch [OF f(2), of "[(0, [7])]" "{}" "\<lambda>_. 0"] f(1) show ?thesis
    by (auto simp: WAL_CAPACITY_def PAYLOAD_AREA_SIZE_def)
qed

subsection \<open>Batches that do not fit\<close>

text \<open>C22: when the buffered records of one file do not fit its payload area, the write raises
  \<open>WALCapacityError\<close>; the writer loop logs the error and goes on, although the batch has already been
  taken out of the buffer: the whole batch, also the records that would fit, is lost.\<close>

theorem wal_full_file_loses_batch:
  assumes "wal_run w D M" and "wal_buffer w \<noteq> []"
    and "\<forall>r \<in> set (wal_buffer w). fst r div WAL_CAPACITY = fid \<and> length (snd r) < 2 ^ 32"
    and "PAYLOAD_AREA_SIZE < bytes_in fid (D @ wal_buffer w)"
  shows "fst (write_buffer_to_disk stamp (wal_buffer w) (w\<lparr>wal_buffer := []\<rparr>)) = Inl WALCapacityError \<and>
    wal_buffer (writer_round stamp w) = [] \<and>
    read_wal (wal_files (writer_round stamp w)) = read_wal (wal_files w)"
proof -
  let ?buf = "wal_buffer w" and ?done = "ram_completed_tx w"
  obtain db n where a: "files_rel (wal_files w) db" "durable_rel db D M n"
    "map fst ?buf = [n ..< n + length ?buf]" "global_tx_id w = n + length ?buf" "global_tx_id w + WAL_CAPACITY \<le> 2 ^ 63"
    by (rule wal_invE [OF wal_run_inv [OF assms(1)]])
  have lim: "n + WAL_CAPACITY \<le> 2 ^ 63" "n < 2 ^ 63" using a(4,5) sizes(5) by linarith+
  have sp: "split_batches ?buf = [(fid, ?buf)]"
    using split_batches_first [OF assms(2), of fid "[]"] assms(3) by (auto simp: split_batches_def)
  let ?total = "sum_list (map (\<lambda>(_, p). length p + 4) ?buf)"
  obtain f0 where f0: "file_rel fid (db fid) f0"
      "(case dget (wal_files w) fid of Some f \<Rightarrow> Inr f | None \<Rightarrow> pre_allocate_wal (32 + ?total)) = Inr f0"
    using a(1) pre_allocate_rel [of "32 + ?total" fid]
    by (cases "dget (wal_files w) fid") (auto simp: files_rel_def dest!: spec [of _ fid])
  have "hd ?buf \<in> set ?buf" using assms(2) by simp
  then have "fst (hd ?buf) div WAL_CAPACITY = fid" using assms(3) by blast
  then have id: "file_id_of (fst (hd ?buf)) = Inr fid"
    using validate_tx_id_nat [OF lim(2)] hd_next [OF a(3) assms(2)] by (simp add: file_id_of_def)
  have "PAYLOAD_AREA_SIZE < space_used (db fid) + space_used (logged ?done ?buf)"
    using assms(3,4) space_used_db [OF a(1,2)] bytes_in_same [of ?buf fid ?done] by simp
  then have "write_batch_file stamp ?done ?buf f0 = (Inl WALCapacityError, f0)"
    using assms(3) by (intro write_batch_file_full [OF f0(1)]) auto
  then have "write_batches stamp ?done (split_batches ?buf) (wal_files w) = (Inl WALCapacityError, dset (wal_files w) fid f0)"
    using id f0(2) assms(2) by (simp add: sp write_batch_def Let_def)
  then have w: "write_buffer_to_disk stamp ?buf (w\<lparr>wal_buffer := []\<rparr>) =
      (Inl WALCapacityError, w\<lparr>wal_buffer := [], ram_completed_tx := {}, wal_files := dset (wal_files w) fid f0\<rparr>)"
    using assms(2) by (simp add: write_buffer_to_disk_def)
  have "db(fid := db fid) = db" by simp
  then have "read_wal (dset (wal_files w) fid f0) = read_wal (wal_files w)"
    using read_wal_db [OF files_rel_set [OF a(1) f0(1)], of D M n] read_wal_db [OF a(1,2) lim(1)] a(2) lim(1) by simp
  with w assms(2) show ?thesis by (simp add: writer_round_def)
qed

theorem wal_full_file_loses_batch_witness:
  "\<exists>w. wal_buffer w = [(0, replicate PAYLOAD_AREA_SIZE 7)] \<and> wal_buffer (writer_round (\<lambda>_. 0) w) = [] \<and>
    read_wal (wal_files (writer_round (\<lambda>_. 0) w)) = ([], None)"
proof -
  let ?r = "replicate PAYLOAD_AREA_SIZE 7 :: bytes"
  obtain w where w: "wal_init [] = Inr w" "wal_buffer w = []" "global_tx_id w = 0"
    by (simp add: wal_init_def restore_global_tx_id_def)
  then obtain w' where w': "append_to_buffer ?r w = Some (0, w')" "wal_buffer w' = [(0, ?r)]" "wal_files w' = wal_files w"
    by (simp add: append_to_buffer_def BATCH_SIZE_def)
  have "id_ok 0" "?r \<noteq> []" by (simp_all add: id_ok_def WAL_CAPACITY_def PAYLOAD_AREA_SIZE_def)
  with wal_run.append [OF wal_run.start [OF w(1)] _ w'(1)] have run: "wal_run w' [] {}" by blast
  have len: "length ?r = PAYLOAD_AREA_SIZE" by (rule length_replicate)
  have "\<forall>r \<in> set (wal_buffer w'). fst r div WAL_CAPACITY = 0 \<and> length (snd r) < 2 ^ 32"
    using len by (simp add: w'(2) del: length_replicate) (simp add: PAYLOAD_AREA_SIZE_def)
  moreover have "PAYLOAD_AREA_SIZE < bytes_in 0 ([] @ wal_buffer w')" by (simp add: w'(2))
  ultimately show ?thesis
    using wal_full_file_loses_batch [OF run, of 0 "\<lambda>_. 0"] read_wal_run [OF run] w'(2) by auto
qed

end
