(* ===== verification/Recovery.thy ===== *)
theory Recovery
  imports Database Wal_Log
begin

text \<open>
  What a start of the database recovers from its log, and what the log no longer holds after it.
\<close>

subsection \<open>Replaying\<close>

text \<open>The values that the records of the log stand for, the last one of a key counting.\<close>

definition replay_one :: "tx_record \<Rightarrow> key_map \<Rightarrow> key_map" where
  "replay_one rec S = (case unpack_kv (snd rec) of Inl _ \<Rightarrow> S | Inr (k, v) \<Rightarrow> S((recovery_table k, k) := v))"

definition replayed :: "tx_record list \<Rightarrow> key_map \<Rightarrow> key_map" where
  "replayed recs S = fold replay_one recs S"

text \<open>The records that the router writes: packed pairs that fit in a page.\<close>

definition sound_record :: "tx_record \<Rightarrow> bool" where
  "sound_record rec \<longleftrightarrow> (\<exists>k v. k \<noteq> [] \<and> packs k v (snd rec) \<and> length (snd rec) \<le> 4072)"

lemma recovery_table_not_Nil [simp]: "recovery_table key \<noteq> []"
  by (simp add: recovery_table_def Let_def lit_def)

lemma recover_insert_ok:
  assumes inv: "router_inv n S (\<lambda>x. {S x}) r" and e: "env_ok e" and t: "t \<noteq> []" and c: "cache (rcache r) = []"
    and b: "packs k v b" "length b \<le> 4072" "k \<noteq> []"
  obtains r' where "recover_insert e t k b r = (Inr (), r')" "router_inv (Suc n) (S((t, k) := v)) (\<lambda>x. {(S((t, k) := v)) x}) r'"
    "rwal r' = rwal r" "rcache r' = rcache r" "max_memtable_size r' = max_memtable_size r" "table_files r' = table_files r"
proof -
  obtain r1 tb where 1: "get_table_state e t r = (Inr (), r1)" "router_inv n S (\<lambda>x. {S x}) r1" "dget (tables r1) t = Some tb"
    "rcache r1 = rcache r" "max_memtable_size r1 = max_memtable_size r" "rwal r1 = rwal r" "table_files r1 = table_files r"
    using get_table_state_ok [OF inv e t] by metis
  obtain m where m: "memtable_insert k b (active_memtable tb) = (Inr (), m)"
    "\<And>txs w. router_inv (Suc n) (S((t, k) := v)) ((\<lambda>x. {S x})((t, k) := insert v {S (t, k)}))
        (put_table t (tb\<lparr>active_memtable := m, active_tx_ids := txs\<rparr>) (r1\<lparr>rwal := w\<rparr>))"
    using table_insert_inv [OF 1(2) t 1(3) b] by blast
  let ?r = "put_table t (tb\<lparr>active_memtable := m\<rparr>) r1"
  have eq: "put_table t (tb\<lparr>active_memtable := m, active_tx_ids := active_tx_ids tb\<rparr>) (r1\<lparr>rwal := rwal r1\<rparr>) = ?r" by simp
  have "router_inv (Suc n) (S((t, k) := v)) ((\<lambda>x. {S x})((t, k) := insert v {S (t, k)})) ?r"
    using m(2) [of "active_tx_ids tb" "rwal r1"] unfolding eq .
  then have "router_inv (Suc n) (S((t, k) := v)) (((\<lambda>x. {S x})((t, k) := insert v {S (t, k)}))((t, k) := {(S((t, k) := v)) (t, k)})) ?r"
    by (rule router_inv_narrow) (use c 1(4) in simp)
  moreover have "((\<lambda>x. {S x})((t, k) := insert v {S (t, k)}))((t, k) := {(S((t, k) := v)) (t, k)}) = (\<lambda>x. {(S((t, k) := v)) x})"
    by (simp add: fun_eq_iff)
  ultimately have "router_inv (Suc n) (S((t, k) := v)) (\<lambda>x. {(S((t, k) := v)) x}) ?r" by simp
  moreover have "recover_insert e t k b r = (Inr (), ?r)" using 1(1,3) m(1) by (simp add: recover_insert_def on_table_def)
  ultimately show thesis using that [of ?r] 1 by simp
qed

text \<open>The log after the marks.\<close>

definition marks :: "nat list \<Rightarrow> wal \<Rightarrow> wal" where
  "marks txs w = fold (\<lambda>tx. mark_many_jobs_complete [tx]) txs w"

lemma recover_one_ok:
  assumes inv: "router_inv n S (\<lambda>x. {S x}) r" and e: "env_ok e" and c: "cache (rcache r) = []"
    and rec: "sound_record rec" "fst rec < 2 ^ 63"
  obtains r' where "recover_one e rec (i, r) = (Suc i, r')"
    "router_inv (Suc n) (replay_one rec S) (\<lambda>x. {replay_one rec S x}) r'"
    "rwal r' = marks [fst rec] (rwal r)" "rcache r' = rcache r" "table_files r' = table_files r"
proof -
  obtain k v where b: "packs k v (snd rec)" "length (snd rec) \<le> 4072" "k \<noteq> []" using rec(1) by (auto simp: sound_record_def)
  let ?t = "recovery_table k"
  obtain r1 where 1: "recover_insert e ?t k (snd rec) r = (Inr (), r1)"
    "router_inv (Suc n) (S((?t, k) := v)) (\<lambda>x. {(S((?t, k) := v)) x}) r1" "rwal r1 = rwal r" "rcache r1 = rcache r"
    "table_files r1 = table_files r"
    by (rule recover_insert_ok [OF inv e recovery_table_not_Nil c b])
  have u: "unpack_kv (snd rec) = Inr (k, v)" by (rule unpack_packed [OF b(1)])
  then have s: "replay_one rec S = S((?t, k) := v)" by (simp add: replay_one_def)
  have fid: "file_id_of (fst rec) = Inr (fst rec div WAL_CAPACITY)"
    using rec(2) by (simp add: file_id_of_def validate_tx_id_def)
  let ?r = "r1\<lparr>rwal := marks [fst rec] (rwal r1)\<rparr>"
  have "mark_recovered (fst rec) r1 = (Inr (), ?r)"
    using fid mark_job_complete_eq [OF rec(2)] by (simp add: mark_recovered_def marks_def)
  then have "recover_one e rec (i, r) = (Suc i, ?r)" using u 1(1) by (simp add: recover_one_def)
  moreover have "router_inv (Suc n) (replay_one rec S) (\<lambda>x. {replay_one rec S x}) ?r"
    unfolding s by (rule router_inv_wal [OF 1(2)])
  ultimately show thesis using that 1(3-5) by simp
qed

lemma recover_fold_ok:
  assumes "router_inv n S (\<lambda>x. {S x}) r" and "env_ok e" and "cache (rcache r) = []"
    and "\<forall>rec \<in> set recs. sound_record rec \<and> fst rec < 2 ^ 63"
  shows "\<exists>r'. fold (recover_one e) recs (i, r) = (i + length recs, r') \<and>
    router_inv (n + length recs) (replayed recs S) (\<lambda>x. {replayed recs S x}) r' \<and>
    rwal r' = marks (map fst recs) (rwal r) \<and> rcache r' = rcache r"
  using assms
proof (induction recs arbitrary: n S r i)
  case Nil
  then show ?case by (simp add: replayed_def marks_def)
next
  case (Cons rec recs)
  have rec: "sound_record rec" "fst rec < 2 ^ 63" using Cons.prems(4) by simp_all
  obtain r1 where 1: "recover_one e rec (i, r) = (Suc i, r1)"
    "router_inv (Suc n) (replay_one rec S) (\<lambda>x. {replay_one rec S x}) r1"
    "rwal r1 = marks [fst rec] (rwal r)" "rcache r1 = rcache r" "table_files r1 = table_files r"
    by (rule recover_one_ok [OF Cons.prems(1-3) rec])
  have "cache (rcache r1) = []" "\<forall>rec \<in> set recs. sound_record rec \<and> fst rec < 2 ^ 63" using Cons.prems(3,4) 1(4) by simp_all
  from Cons.IH [OF 1(2) Cons.prems(2) this, of "Suc i"] 1 show ?case by (auto simp: replayed_def marks_def)
qed

lemma marks_inv: "wal_inv w D M \<Longrightarrow> wal_inv (marks txs w) D (M \<union> (set txs \<inter> fst ` set D))"
proof (induction txs arbitrary: w M)
  case (Cons tx txs)
  from Cons.IH [OF complete_inv [OF Cons.prems, of "[tx]"]] show ?case
    by (simp add: marks_def Int_insert_left Un_assoc split: if_splits)
qed (simp add: marks_def)

lemma wal_inv_ids: "wal_inv w D M \<Longrightarrow> rec \<in> set D \<Longrightarrow> fst rec < 2 ^ 63"
proof -
  assume inv: "wal_inv w D M" and rec: "rec \<in> set D"
  obtain db n where "durable_rel db D M n" "global_tx_id w = n + length (wal_buffer w)"
    "global_tx_id w + WAL_CAPACITY \<le> 2 ^ 63" by (rule wal_invE [OF inv])
  then show "fst rec < 2 ^ 63" using rec by (auto simp: durable_rel_def)
qed

subsection \<open>Opening a database on the files of an earlier run\<close>

abbreviation pending :: "tx_record list \<Rightarrow> nat set \<Rightarrow> tx_record list" where
  "pending D M \<equiv> filter (\<lambda>(tx, p). tx \<notin> M) D"

text \<open>The tables' files hold the values \<open>S\<close>.\<close>

definition tables_hold :: "nat \<Rightarrow> key_map \<Rightarrow> (pystr \<Rightarrow> pyfile option) \<Rightarrow> bool" where
  "tables_hold n S files \<longleftrightarrow> (\<forall>t. t \<noteq> [] \<longrightarrow> file_holds n (\<lambda>k. S (t, k)) t (files t))"

lemma router_started:
  assumes "router_init w mx cap files = Inr r" and "tables_hold n S files"
  shows "router_inv n S (\<lambda>x. {S x}) r" and "cache (rcache r) = []" and "rwal r = w" and "tables r = []" and "table_files r = files"
proof -
  have r: "r = \<lparr>tables = [], rwal = w, rcache = lfu_init cap, max_memtable_size = mx, table_files = files\<rparr>" "1 \<le> mx"
    using assms(1) by (auto simp: router_init_def split: if_splits)
  have "\<exists>s. lfu_rel (lfu_init cap) (s :: (pystr \<times> pystr, pyval) entries)" using lfu_init_rel by blast
  then show "router_inv n S (\<lambda>x. {S x}) r" "cache (rcache r) = []" "rwal r = w" "tables r = []" "table_files r = files"
    using r assms(2) by (simp_all add: router_inv_def lfu_init_def tables_hold_def)
qed

lemma open_recovers:
  assumes w: "wal_inv w D M" "disk_log d = wal_files w" and e: "env_ok e" and st: "logging_ok st" "archive_ok st"
    and d: "engine d = None" "1 \<le> memtable_size d" "1 \<le> cache_capacity d" "tables_hold n S (disk_tables d)"
    and rec: "\<forall>rec \<in> set (pending D M). sound_record rec"
  obtains r0 r where "ensure_initialized e st d = (Inr (), d\<lparr>engine := Some r\<rparr>)"
    "router_init (rwal r0) (memtable_size d) (cache_capacity d) (disk_tables d) = Inr r0"
    "fold (recover_one e) (pending D M) (0, r0) = (length (pending D M), r)"
    "router_inv (n + length (pending D M)) (replayed (pending D M) S) (\<lambda>x. {replayed (pending D M) S x}) r"
    "wal_inv (rwal r) D (fst ` set D)"
proof -
  obtain w' where w': "wal_init (wal_files w) = Inr w'" "wal_inv w' D M" "wal_files w' = wal_files w"
    using restart_inv [OF w(1)] by blast
  obtain r0 where r0: "router_init w' (memtable_size d) (cache_capacity d) (disk_tables d) = Inr r0"
    using d(2,3) by (simp add: router_init_def)
  note s = router_started [OF r0 d(4)]
  have "\<forall>rec \<in> set (pending D M). sound_record rec \<and> fst rec < 2 ^ 63" using rec wal_inv_ids [OF w(1)] by simp
  from recover_fold_ok [OF s(1) e s(2) this, of 0] obtain r where
    r: "fold (recover_one e) (pending D M) (0, r0) = (length (pending D M), r)"
    "router_inv (n + length (pending D M)) (replayed (pending D M) S) (\<lambda>x. {replayed (pending D M) S x}) r"
    "rwal r = marks (map fst (pending D M)) (rwal r0)" by auto
  have "fst (read_wal (wal_files (rwal r0))) = pending D M"
    unfolding s(3) by (simp add: read_wal_inv [OF w'(2)])
  then have "recover_transactions e r0 = (length (pending D M), r)" using r(1) by (simp add: recover_transactions_def)
  then have i: "ensure_initialized e st d = (Inr (), d\<lparr>engine := Some r\<rparr>)"
    using d(1) st w(2) w'(1) r0 by (simp add: ensure_initialized_def)
  have M: "M \<subseteq> fst ` set D"
    by (rule wal_invE [OF w(1)]) (simp add: durable_rel_def)
  have "M \<union> (set (map fst (pending D M)) \<inter> fst ` set D) = fst ` set D" using M by force
  then have "wal_inv (rwal r) D (fst ` set D)"
    using marks_inv [OF w'(2), of "map fst (pending D M)"] r(3) s(3) by simp
  with i r(1,2) r0 s(3) show thesis using that by metis
qed

lemma nothing_pending: "wal_inv w D (fst ` set D) \<Longrightarrow> read_wal (wal_files w) = ([], None)"
proof -
  assume "wal_inv w D (fst ` set D)"
  moreover have "pending D (fst ` set D) = []" by (force simp: filter_empty_conv)
  ultimately show "read_wal (wal_files w) = ([], None)" using read_wal_inv by metis
qed


text \<open>A log with one record.\<close>

lemma one_logged:
  assumes "b \<noteq> []" and "length b \<le> 4072"
  shows "\<exists>w. wal_run w [(0, b)] {}"
proof -
  obtain w where w: "wal_init [] = Inr w" "wal_buffer w = []" "global_tx_id w = 0" "ram_completed_tx w = {}"
    by (simp add: wal_init_def restore_global_tx_id_def)
  then obtain w' where w': "append_to_buffer b w = Some (0, w')" "wal_buffer w' = [(0, b)]" "ram_completed_tx w' = {}"
    by (simp add: append_to_buffer_def BATCH_SIZE_def)
  have "id_ok 0" by (simp add: id_ok_def WAL_CAPACITY_def)
  with wal_run.append [OF wal_run.start [OF w(1)] assms(1) w'(1)] have run: "wal_run w' [] {}" by simp
  have "\<forall>fid. bytes_in fid ([] @ wal_buffer w') \<le> PAYLOAD_AREA_SIZE"
    using w'(2) assms(2) by (simp add: PAYLOAD_AREA_SIZE_def)
  with flush_succeeds [OF run this, of undefined] w'(2,3) show ?thesis by auto
qed

text \<open>The record of the key \<open>k\<close> in the table \<open>t\<close>, as the database writes it.\<close>

lemma example_record:
  obtains b where "packs (namespaced [116] [107]) (PyBool True) b" "sound_record (0, b)" "length b \<le> 4072" "b \<noteq> []"
    "recovery_table (namespaced [116] [107]) = [116]" "namespaced [116] [107] \<noteq> []"
proof -
  have v: "value_bytes (PyBool True) = Inr (map mk_byte (lit ''true''))"
    by (simp add: value_bytes_def lit_def utf8_char_def)
  have k: "key_ok (namespaced [116] [107])" by (simp add: namespaced_def key_ok_def is_chunk_key_def lit_def utf8_char_def)
  have "fits (namespaced [116] [107]) (PyBool True)" by (rule fits_small [OF k _ v]) simp_all
  then obtain b where b: "packs (namespaced [116] [107]) (PyBool True) b" "length b \<le> 4072" by (auto simp: fits_def)
  moreover have "b \<noteq> []" using b(1) by (rule packed_not_Nil)
  moreover have "sound_record (0, b)" unfolding sound_record_def snd_conv using b namespaced_simps(1) by blast
  moreover have "recovery_table (namespaced [116] [107]) = [116]" by (simp add: recovery_table_def namespaced_def)
  ultimately show thesis using that by simp
qed


subsection \<open>After the recovery\<close>

text \<open>Recovery writes to no table file.\<close>

lemma recover_insert_disk:
  assumes inv: "router_inv n S (\<lambda>x. {S x}) r" and e: "env_ok e" and t: "t \<noteq> []" and k: "k \<noteq> []"
    and h: "tables_hold n D (disk_files r)" and s: "\<And>t. t \<noteq> [] \<Longrightarrow> dget (tables r) t = None \<Longrightarrow> (\<lambda>k. S (t, k)) = (\<lambda>k. D (t, k))"
    and b: "packs k v b" "length b \<le> 4072" and r': "recover_insert e t k b r = (x, r')"
  shows "tables_hold n D (disk_files r') \<and> (\<forall>t'. t' \<noteq> t \<longrightarrow> dget (tables r') t' = dget (tables r) t') \<and>
    dget (tables r') t \<noteq> None"
proof -
  obtain r1 tb where 1: "get_table_state e t r = (Inr (), r1)" "router_inv n S (\<lambda>x. {S x}) r1" "dget (tables r1) t = Some tb"
    "\<And>t'. t' \<noteq> t \<Longrightarrow> dget (tables r1) t' = dget (tables r) t'" "table_files r1 = table_files r"
    "dget (tables r) t \<noteq> None \<Longrightarrow> r1 = r"
    using get_table_state_ok [OF inv e t] by metis
  obtain m where m: "r' = put_table t (tb\<lparr>active_memtable := m\<rparr>) r1"
    using r' 1(1,3) by (auto simp: recover_insert_def on_table_def split: prod.splits)
  have "tables_hold n D (disk_files r1)"
  proof (cases "dget (tables r) t")
    case (Some tb0)
    then show ?thesis using 1(6) h by simp
  next
    case None
    obtain hd ix where "r1 = put_table t (new_table\<lparr>handler_of := Some hd, disk_index := ix\<rparr>) r"
      by (rule open_fresh [OF 1(1) None])
    then have "tb = new_table\<lparr>handler_of := Some hd, disk_index := ix\<rparr>" using 1(3) by simp
    then have new: "entries (active_memtable tb) = 0" "immutable_memtable tb = None"
      by (simp_all add: new_table_def new_memtable_def)
    obtain h where hh: "handler_of tb = Some h" "file_holds n (\<lambda>k. S (t, k)) t (Some (tbl_file h))"
      by (rule table_file_holds [OF router_table [OF 1(2) t 1(3)] new])
    have other: "disk_files r1 t' = disk_files r t'" if "t' \<noteq> t" for t'
      by (simp add: disk_files_def 1(4,5) that cong: option.case_cong)
    have "disk_files r1 t = Some (tbl_file h)" using 1(3) hh(1) by (simp add: disk_files_def)
    then have "file_holds n (\<lambda>k. D (t', k)) t' (disk_files r1 t')" if "t' \<noteq> []" for t'
      using h that hh(2) s [OF t None] other by (cases "t' = t") (simp_all add: tables_hold_def)
    then show ?thesis by (simp add: tables_hold_def)
  qed
  moreover have "disk_files r' = disk_files r1" using 1(3) by (auto simp: m disk_files_def fun_eq_iff cong: option.case_cong)
  ultimately show ?thesis using 1(4) m by simp
qed

lemma recover_one_disk:
  assumes inv: "router_inv n S (\<lambda>x. {S x}) r" and e: "env_ok e" and rec: "sound_record rec"
    and h: "tables_hold n D (disk_files r)" and s: "\<And>t. t \<noteq> [] \<Longrightarrow> dget (tables r) t = None \<Longrightarrow> (\<lambda>k. S (t, k)) = (\<lambda>k. D (t, k))"
    and r': "recover_one e rec (i, r) = (j, r')"
  shows "tables_hold n D (disk_files r')"
    and "t \<noteq> [] \<Longrightarrow> dget (tables r') t = None \<Longrightarrow> (\<lambda>k. replay_one rec S (t, k)) = (\<lambda>k. D (t, k))"
proof -
  obtain k v where b: "packs k v (snd rec)" "length (snd rec) \<le> 4072" "k \<noteq> []" using rec by (auto simp: sound_record_def)
  let ?t = "recovery_table k"
  have u: "unpack_kv (snd rec) = Inr (k, v)" by (rule unpack_packed [OF b(1)])
  obtain x r1 where x: "recover_insert e ?t k (snd rec) r = (x, r1)" by fastforce
  note d = recover_insert_disk [OF inv e recovery_table_not_Nil b(3) h s b(1,2) x]
  have "tables r' = tables r1 \<and> table_files r' = table_files r1"
    using r' u x by (cases x) (auto simp: recover_one_def mark_recovered_def split: sum.splits prod.splits)
  then have eq: "disk_files r' = disk_files r1" "tables r' = tables r1"
    by (simp_all add: disk_files_def fun_eq_iff cong: option.case_cong)
  then show "tables_hold n D (disk_files r')" using d by simp
  assume t: "t \<noteq> []" "dget (tables r') t = None"
  then have "t \<noteq> ?t" using d eq(2) by auto
  then show "(\<lambda>k. replay_one rec S (t, k)) = (\<lambda>k. D (t, k))"
    using d s [OF t(1)] t eq(2) u by (simp add: replay_one_def fun_eq_iff)
qed

lemma recover_fold_disk:
  assumes "router_inv n S (\<lambda>x. {S x}) r" and "env_ok e" and "cache (rcache r) = []"
    and "\<forall>rec \<in> set recs. sound_record rec \<and> fst rec < 2 ^ 63" and "tables_hold m D (disk_files r)" and "n \<le> m"
    and "m + length recs \<le> m'"
    and "\<And>t. t \<noteq> [] \<Longrightarrow> dget (tables r) t = None \<Longrightarrow> (\<lambda>k. S (t, k)) = (\<lambda>k. D (t, k))"
    and "fold (recover_one e) recs (i, r) = (j, r')"
  shows "tables_hold m' D (disk_files r')"
  using assms
proof (induction recs arbitrary: n m S r i)
  case Nil
  then show ?case using file_holds_mono by (fastforce simp: tables_hold_def)
next
  case (Cons rec recs)
  have rec: "sound_record rec" "fst rec < 2 ^ 63" using Cons.prems(4) by simp_all
  obtain r1 where 1: "recover_one e rec (i, r) = (Suc i, r1)"
    "router_inv (Suc n) (replay_one rec S) (\<lambda>x. {replay_one rec S x}) r1" "rcache r1 = rcache r"
    using recover_one_ok [OF Cons.prems(1-3) rec] by metis
  have inv: "router_inv m S (\<lambda>x. {S x}) r" by (rule router_inv_mono [OF Cons.prems(1,6)]) simp
  note d = recover_one_disk [OF inv Cons.prems(2) rec(1) Cons.prems(5,8) 1(1)]
  have "tables_hold (Suc m) D (disk_files r1)" using d(1) file_holds_mono by (fastforce simp: tables_hold_def)
  moreover have "cache (rcache r1) = []" "\<forall>rec \<in> set recs. sound_record rec \<and> fst rec < 2 ^ 63"
    "Suc n \<le> Suc m" "Suc m + length recs \<le> m'" "fold (recover_one e) recs (Suc i, r1) = (j, r')"
    using Cons.prems(3,4,6,7,9) 1(1,3) by simp_all
  ultimately show ?case using Cons.IH [OF 1(2) Cons.prems(2) _ _ _ _ _ d(2)] by blast
qed

text \<open>C6: Recovery is not durable: a start marks what it recovers as complete in the log but keeps it only in
  the memtables, so that a crash before a flush leaves neither the log nor the table files with it, and
  the next start reads \<open>None\<close> for every key.\<close>

theorem recovered_records_lost_at_next_crash:
  assumes "wal_run w D M" and "\<forall>rec \<in> set D. sound_record rec" and "env_ok e"
    and "logging_ok st" and "archive_ok st" and "1 \<le> memtable_size d" and "1 \<le> cache_capacity d"
    and "engine d = None" and "disk_log d = wal_files w" and "disk_tables d = (\<lambda>_. None)"
    and "ensure_initialized e st d = (x, d1)"
  shows "\<exists>r. ensure_initialized e st (db_crash d1) = (Inr (), (db_crash d1)\<lparr>engine := Some r\<rparr>) \<and>
    (\<forall>t k. t \<noteq> [] \<and> k \<noteq> [] \<longrightarrow> fst (get_internal e t k r) = Inr PyNone)"
proof -
  let ?P = "pending D M"
  have th: "tables_hold 0 (\<lambda>_. PyNone) (disk_tables d)" using assms(10) by (simp add: tables_hold_def file_holds_def)
  have rec: "\<forall>rec \<in> set ?P. sound_record rec" using assms(2) by simp
  obtain r0 r where r: "ensure_initialized e st d = (Inr (), d\<lparr>engine := Some r\<rparr>)"
    "router_init (rwal r0) (memtable_size d) (cache_capacity d) (disk_tables d) = Inr r0"
    "fold (recover_one e) ?P (0, r0) = (length ?P, r)" "wal_inv (rwal r) D (fst ` set D)"
    by (rule open_recovers [OF wal_run_inv [OF assms(1)] assms(9,3,4,5,8,6,7) th rec])
  note s = router_started [OF r(2) th]
  have df: "disk_files r0 = disk_tables d" by (simp add: disk_files_def s(4,5) fun_eq_iff)
  have ok: "\<forall>rec \<in> set ?P. sound_record rec \<and> fst rec < 2 ^ 63"
    using rec wal_inv_ids [OF wal_run_inv [OF assms(1)]] by simp
  have files: "tables_hold (length ?P) (\<lambda>_. PyNone) (disk_files r)"
    by (rule recover_fold_disk [OF s(1) assms(3) s(2) ok th [folded df] _ _ _ r(3)]) simp_all
  let ?d = "db_crash d1"
  have d1: "?d = d\<lparr>engine := None, disk_log := wal_files (rwal r), disk_tables := disk_files r\<rparr>"
    using assms(11) r(1) by (auto simp: db_crash_def)
  have none: "pending D (fst ` set D) = []" by (force simp: filter_empty_conv)
  have d: "disk_log ?d = wal_files (rwal r)" "engine ?d = None" "1 \<le> memtable_size ?d" "1 \<le> cache_capacity ?d"
    "tables_hold (length ?P) (\<lambda>_. PyNone) (disk_tables ?d)" using d1 assms(6,7) files by simp_all
  obtain r2 where r2: "ensure_initialized e st ?d = (Inr (), ?d\<lparr>engine := Some r2\<rparr>)"
    "router_inv (length ?P + length (pending D (fst ` set D))) (replayed (pending D (fst ` set D)) (\<lambda>_. PyNone))
       (\<lambda>x. {replayed (pending D (fst ` set D)) (\<lambda>_. PyNone) x}) r2"
    by (rule open_recovers [OF r(4) d(1) assms(3-5) d(2-5)]) (simp_all add: none)
  have "fst (get_internal e t k r2) = Inr PyNone" if "t \<noteq> []" "k \<noteq> []" for t k
    using get_internal_ok [OF r2(2) assms(3) that] unfolding none by (metis fst_conv replayed_def fold_simps(1) singletonD)
  with r2(1) show ?thesis by blast
qed

theorem recovered_records_lost_at_next_crash_witness:
  "\<exists>w b d d1 r. wal_run w [(0, b)] {} \<and> disk_log d = wal_files w \<and>
    ensure_initialized plain_env plain_start d = (Inr (), d1) \<and>
    ensure_initialized plain_env plain_start (db_crash d1) = (Inr (), (db_crash d1)\<lparr>engine := Some r\<rparr>) \<and>
    fst (get_internal plain_env [116] (namespaced [116] [107]) r) = Inr PyNone"
proof -
  obtain b where b: "packs (namespaced [116] [107]) (PyBool True) b" "sound_record (0, b)" "length b \<le> 4072" "b \<noteq> []"
    "recovery_table (namespaced [116] [107]) = [116]" "namespaced [116] [107] \<noteq> []" by (rule example_record)
  obtain w where w: "wal_run w [(0, b)] {}" using one_logged [OF b(4,3)] by blast
  let ?d = "(new_database 3 2)\<lparr>disk_log := wal_files w\<rparr>"
  have st: "logging_ok plain_start" "archive_ok plain_start" by (simp_all add: plain_start_def)
  have d: "1 \<le> memtable_size ?d" "1 \<le> cache_capacity ?d" "engine ?d = None" "disk_log ?d = wal_files w"
    "disk_tables ?d = (\<lambda>_. None)" by (simp_all add: new_database_def)
  have rec: "\<forall>rec \<in> set [(0, b)]. sound_record rec" using b(2) by simp
  have rec': "\<forall>rec \<in> set (pending [(0, b)] {}). sound_record rec" using b(2) by simp
  have th: "tables_hold 0 (\<lambda>_. PyNone) (disk_tables ?d)" using d(5) by (simp add: tables_hold_def file_holds_def)
  obtain r1 where r1: "ensure_initialized plain_env plain_start ?d = (Inr (), ?d\<lparr>engine := Some r1\<rparr>)"
    by (rule open_recovers [OF wal_run_inv [OF w] d(4) plain_env_ok(1) st d(3,1,2) th rec'])
  from recovered_records_lost_at_next_crash [OF w rec plain_env_ok(1) st d r1] b(6) obtain r where
    "ensure_initialized plain_env plain_start (db_crash (?d\<lparr>engine := Some r1\<rparr>)) =
      (Inr (), (db_crash (?d\<lparr>engine := Some r1\<rparr>))\<lparr>engine := Some r\<rparr>)"
    "fst (get_internal plain_env [116] (namespaced [116] [107]) r) = Inr PyNone" by auto
  with w d(4) r1 show ?thesis by blast
qed

end
