(* ===== verification/Ghost_Log.thy ===== *)
theory Ghost_Log
  imports Recovery
begin

text \<open>
  The invariant behind the database's durability: a ghost log lists every record ever appended with its
  key and value, and says of each table which records are flushed, which are in the immutable memtable
  and which in the active one. The router's operations and the stages of a flush keep it.
\<close>

subsection \<open>The ghost log\<close>

type_synonym log_entry = "nat \<times> pystr \<times> pyval"

definition entry_of :: "log_entry \<Rightarrow> tx_record \<Rightarrow> bool" where
  "entry_of x rec \<longleftrightarrow> fst rec = fst x \<and> fst (snd x) \<noteq> [] \<and> packs (fst (snd x)) (snd (snd x)) (snd rec) \<and> length (snd rec) \<le> 4072"

definition last_value :: "log_entry list \<Rightarrow> pystr \<Rightarrow> pyval option" where
  "last_value L k = map_of (rev (map snd L)) k"

text \<open>The entries of one table, and the values that the log stands for.\<close>

definition of_table :: "pystr \<Rightarrow> log_entry list \<Rightarrow> log_entry list" where
  "of_table t L = filter (\<lambda>x. recovery_table (fst (snd x)) = t) L"

definition log_value :: "log_entry list \<Rightarrow> key_map" where
  "log_value L = (\<lambda>(t, k). case last_value (of_table t L) k of None \<Rightarrow> PyNone | Some v \<Rightarrow> v)"

abbreviation log_keys :: "log_entry list \<Rightarrow> pystr set" where
  "log_keys L \<equiv> (\<lambda>x. fst (snd x)) ` set L"

lemma last_value_append:
  "last_value (L @ L') k = (case last_value L' k of None \<Rightarrow> last_value L k | Some v \<Rightarrow> Some v)"
  by (auto simp: last_value_def map_add_def split: option.split)

lemma last_value_None: "last_value L k = None \<longleftrightarrow> k \<notin> log_keys L"
  by (force simp: last_value_def map_of_eq_None_iff)

lemma of_table_append [simp]: "of_table t (L @ L') = of_table t L @ of_table t L'"
  by (simp add: of_table_def)

lemma of_table_Nil [simp]: "of_table t [] = []"
  by (simp add: of_table_def)

lemma log_value_snoc:
  assumes "recovery_table k = t"
  shows "log_value (L @ [(tx, k, v)]) = (log_value L)((t, k) := v)"
  using assms by (auto simp: log_value_def fun_eq_iff of_table_def last_value_append) (auto simp: last_value_def)

text \<open>What a replay of the log's records makes of the values \<open>S\<close>.\<close>

lemma replayed_entries:
  assumes "list_all2 entry_of L recs"
  shows "replayed recs S (t, k) = (case last_value (of_table t L) k of None \<Rightarrow> S (t, k) | Some v \<Rightarrow> v)"
  using assms
proof (induction L recs arbitrary: S rule: list_all2_induct)
  case Nil
  then show ?case by (simp add: replayed_def last_value_def)
next
  case (Cons x L rec recs)
  obtain tx k' v where x: "x = (tx, k', v)" by (cases x)
  then have "unpack_kv (snd rec) = Inr (k', v)" using Cons.hyps(1) by (simp add: entry_of_def unpack_packed)
  then have "replayed (rec # recs) S = replayed recs (S((recovery_table k', k') := v))"
    by (simp add: replayed_def replay_one_def)
  moreover have "of_table t (x # L) = of_table t [x] @ of_table t L" by (simp add: of_table_def)
  ultimately show ?case
    using Cons.IH x by (auto simp: last_value_append of_table_def split: option.split) (auto simp: last_value_def)
qed

subsection \<open>The log part of the state\<close>

text \<open>
  The entries \<open>F\<close> of a table are flushed and marked complete, \<open>I\<close> are those of the immutable memtable
  and \<open>A\<close> those of the active one; \<open>done\<close> are the transactions marked so far.
\<close>

definition table_split ::
  "log_entry list \<Rightarrow> nat set \<Rightarrow> table \<Rightarrow> log_entry list \<Rightarrow> log_entry list \<Rightarrow> log_entry list \<Rightarrow> bool" where
  "table_split L dn tb F I A \<longleftrightarrow> L = F @ I @ A \<and> active_tx_ids tb = map fst A \<and>
     (\<forall>k. mem_value (active_memtable tb) k \<noteq> None \<longrightarrow> k \<in> log_keys A) \<and>
     (immutable_memtable tb = None \<longrightarrow> I = []) \<and>
     (\<forall>m. immutable_memtable tb = Some m \<longrightarrow>
        immutable_tx_ids tb = Some (map fst I) \<and> (\<forall>k. mem_value m k \<noteq> None \<longrightarrow> k \<in> log_keys I)) \<and>
     (\<forall>ups dels txs. job tb = Some (Written ups dels txs) \<longrightarrow> txs = map fst I) \<and>
     (\<forall>txs. job tb = Some (Indexed txs) \<longrightarrow> txs = map fst I) \<and>
     fst ` set F \<subseteq> dn \<and> fst ` set (I @ A) \<inter> dn = {}"

definition table_log :: "log_entry list \<Rightarrow> nat set \<Rightarrow> table \<Rightarrow> bool" where
  "table_log L dn tb \<longleftrightarrow> (\<exists>F I A. table_split L dn tb F I A)"

lemma table_splitD:
  assumes "table_split L dn tb F I A"
  shows "L = F @ I @ A" and "active_tx_ids tb = map fst A"
    and "mem_value (active_memtable tb) k \<noteq> None \<Longrightarrow> k \<in> log_keys A"
    and "immutable_memtable tb = None \<Longrightarrow> I = []"
    and "immutable_memtable tb = Some m \<Longrightarrow> immutable_tx_ids tb = Some (map fst I)"
    and "immutable_memtable tb = Some m \<Longrightarrow> mem_value m k \<noteq> None \<Longrightarrow> k \<in> log_keys I"
    and "job tb = Some (Written ups dels txs) \<Longrightarrow> txs = map fst I"
    and "job tb = Some (Indexed txs) \<Longrightarrow> txs = map fst I"
    and "fst ` set F \<subseteq> dn" and "fst ` set (I @ A) \<inter> dn = {}"
  using assms by (simp_all add: table_split_def)

lemma table_logI:
  assumes "L = F @ I @ A" "active_tx_ids tb = map fst A"
    "\<And>k. mem_value (active_memtable tb) k \<noteq> None \<Longrightarrow> k \<in> log_keys A"
    "immutable_memtable tb = None \<Longrightarrow> I = []"
    "\<And>m. immutable_memtable tb = Some m \<Longrightarrow> immutable_tx_ids tb = Some (map fst I)"
    "\<And>m k. immutable_memtable tb = Some m \<Longrightarrow> mem_value m k \<noteq> None \<Longrightarrow> k \<in> log_keys I"
    "\<And>ups dels txs. job tb = Some (Written ups dels txs) \<Longrightarrow> txs = map fst I"
    "\<And>txs. job tb = Some (Indexed txs) \<Longrightarrow> txs = map fst I"
    "fst ` set F \<subseteq> dn" "fst ` set (I @ A) \<inter> dn = {}"
  shows "table_log L dn tb"
proof -
  have "\<forall>k. mem_value (active_memtable tb) k \<noteq> None \<longrightarrow> k \<in> log_keys A"
    "\<forall>m. immutable_memtable tb = Some m \<longrightarrow>
      immutable_tx_ids tb = Some (map fst I) \<and> (\<forall>k. mem_value m k \<noteq> None \<longrightarrow> k \<in> log_keys I)"
    "\<forall>ups dels txs. job tb = Some (Written ups dels txs) \<longrightarrow> txs = map fst I"
    "\<forall>txs. job tb = Some (Indexed txs) \<longrightarrow> txs = map fst I" "immutable_memtable tb = None \<longrightarrow> I = []"
    using assms(3-8) by blast+
  then have "table_split L dn tb F I A" unfolding table_split_def using assms(1,2,9,10) by (intro conjI)
  then show ?thesis unfolding table_log_def by blast
qed

definition log_inv :: "log_entry list \<Rightarrow> tx_record list \<Rightarrow> nat set \<Rightarrow> wal \<Rightarrow> bool" where
  "log_inv L D M w \<longleftrightarrow> wal_inv w D M \<and> list_all2 entry_of L (D @ wal_buffer w) \<and> global_tx_id w = length L \<and>
     (\<forall>tx \<in> ram_completed_tx w. tx < global_tx_id w \<and> (tx \<in> fst ` set D \<longrightarrow> tx \<in> M)) \<and> map fst L = [0 ..< length L]"

definition dur_inv :: "log_entry list \<Rightarrow> tx_record list \<Rightarrow> nat set \<Rightarrow> router \<Rightarrow> bool" where
  "dur_inv L D M r \<longleftrightarrow> log_inv L D M (rwal r) \<and>
     (\<forall>t. case dget (tables r) t of
        None \<Rightarrow> of_table t L = []
      | Some tb \<Rightarrow> table_log (of_table t L) (M \<union> ram_completed_tx (rwal r)) tb)"

text \<open>Steps that only open tables, read pages and use the cache.\<close>

definition log_part where
  "log_part tb = (active_memtable tb, immutable_memtable tb, active_tx_ids tb, immutable_tx_ids tb, job tb)"

definition quiet :: "router \<Rightarrow> router \<Rightarrow> bool" where
  "quiet r r' \<longleftrightarrow> rwal r' = rwal r \<and>
     (\<forall>t. map_option log_part (dget (tables r') t) = map_option log_part (dget (tables r) t) \<or>
          dget (tables r) t = None \<and> map_option log_part (dget (tables r') t) = Some (log_part new_table))"

lemma quiet_refl [simp]: "quiet r r"
  by (simp add: quiet_def)

lemma quiet_trans:
  assumes "quiet r r1" and "quiet r1 r2"
  shows "quiet r r2"
proof -
  have "map_option log_part (dget (tables r2) t) = map_option log_part (dget (tables r) t) \<or>
      dget (tables r) t = None \<and> map_option log_part (dget (tables r2) t) = Some (log_part new_table)" for t
    using assms unfolding quiet_def by (metis option.map_disc_iff option.distinct(1) option.simps(8))
  then show ?thesis using assms by (simp add: quiet_def)
qed

lemma table_log_part: "log_part tb = log_part tb' \<Longrightarrow> table_log L dn tb = table_log L dn tb'"
  by (simp add: table_log_def table_split_def log_part_def)

lemma table_log_new [simp]: "table_log [] dn new_table"
  by (simp add: table_log_def table_split_def new_table_def)

lemma dur_quiet:
  assumes inv: "dur_inv L D M r" and q: "quiet r r'"
  shows "dur_inv L D M r'"
proof -
  have w: "rwal r' = rwal r" using q by (simp add: quiet_def)
  have "case dget (tables r') t of None \<Rightarrow> of_table t L = []
      | Some tb \<Rightarrow> table_log (of_table t L) (M \<union> ram_completed_tx (rwal r')) tb" for t
  proof (cases "dget (tables r') t")
    case None
    then have "dget (tables r) t = None" using q by (auto simp: quiet_def dest!: spec [of _ t])
    then show ?thesis using inv None by (auto simp: dur_inv_def dest!: spec [of _ t])
  next
    case (Some tb')
    show ?thesis
    proof (cases "dget (tables r) t")
      case None
      then have "log_part tb' = log_part new_table" "of_table t L = []"
        using q inv Some by (auto simp: quiet_def dur_inv_def dest!: spec [of _ t])
      then show ?thesis using Some table_log_part [of tb' new_table] by simp
    next
      case (Some tb)
      then have "log_part tb' = log_part tb" "table_log (of_table t L) (M \<union> ram_completed_tx (rwal r)) tb"
        using q inv \<open>dget (tables r') t = Some tb'\<close> by (auto simp: quiet_def dur_inv_def dest!: spec [of _ t])
      then show ?thesis using \<open>dget (tables r') t = Some tb'\<close> w table_log_part [of tb' tb] by simp
    qed
  qed
  then show ?thesis using inv w by (simp add: dur_inv_def)
qed

subsubsection \<open>Reads are quiet\<close>

lemma quiet_put:
  assumes "dget (tables r) t = Some tb" and "log_part tb' = log_part tb"
  shows "quiet r (put_table t tb' r)"
  using assms by (simp add: quiet_def)

lemma quiet_cache [simp]: "quiet r (r\<lparr>rcache := c\<rparr>)"
  by (simp add: quiet_def)

lemma quiet_bind:
  assumes "quiet r (snd p)" and "\<And>x s. p = (Inr x, s) \<Longrightarrow> quiet s (snd (f x s))"
  shows "quiet r (snd (bind_step p f))"
proof (cases p)
  case (Pair a s)
  then show ?thesis using assms by (cases a) (auto intro: quiet_trans)
qed

lemma quiet_get_table_state: "quiet r (snd (get_table_state e t r))"
proof (cases "dget (tables r) t")
  case None
  have "log_part tb = log_part new_table \<Longrightarrow> quiet r (put_table t tb r)" for tb using None by (simp add: quiet_def)
  then show ?thesis
    using None by (auto simp: get_table_state_def log_part_def split: sum.split prod.split)
qed (simp add: get_table_state_def)

lemma quiet_on_table: "(\<And>tb. dget (tables r) t = Some tb \<Longrightarrow> quiet r (snd (f tb))) \<Longrightarrow> quiet r (snd (on_table t r f))"
  by (cases "dget (tables r) t") (simp_all add: on_table_def)

lemma quiet_on_handler: "quiet r (snd (on_handler t r f))"
  unfolding on_handler_def
  by (intro quiet_on_table) (auto simp: log_part_def intro: quiet_put split: option.split prod.split)

lemma quiet_cache_put: "quiet r (snd (cache_put k v r))"
  by (auto simp: cache_put_def split: prod.split)

lemma quiet_cache_get: "quiet r (snd (cache_get k r))"
  by (auto simp: cache_get_def split: prod.split sum.split)

lemma quiet_read_from_disk: "quiet r (snd (read_from_disk e t key r))"
  unfolding read_from_disk_def by (intro quiet_bind quiet_get_table_state quiet_on_handler)

lemma quiet_cache_found: "quiet r (snd (cache_found k v r))"
  by (auto simp: cache_found_def intro!: quiet_bind quiet_cache_put)

lemmas quiet_steps = quiet_get_table_state quiet_cache_get quiet_cache_put quiet_read_from_disk quiet_cache_found

lemma quiet_get_internal: "quiet r (snd (get_internal e t key r))"
proof -
  have d: "quiet s (snd (bind_step (read_from_disk e t key s) (cache_found (t, key))))" for s
    by (intro quiet_bind quiet_steps)
  have a: "quiet s (snd (bind_step (cache_put (t, key) v s) (\<lambda>_ s'. (Inr v, s'))))" for s v
    by (intro quiet_bind quiet_steps) simp
  show ?thesis unfolding get_internal_def
    using a d quiet_cache_found
    by (auto intro!: quiet_bind quiet_steps quiet_on_table split: sum.split bool.split)
qed

lemma quiet_get_raw_manifest: "quiet r (snd (get_raw_manifest e t key r))"
  unfolding get_raw_manifest_def Let_def
  by (auto intro!: quiet_bind quiet_steps quiet_on_table split: sum.split bool.split option.split prod.split)

lemma quiet_read_chunks: "quiet r (snd (read_chunks e t key i n r))"
proof (induction n arbitrary: i r)
  case (Suc n)
  have "quiet s (snd (bind_step (read_chunks e t key (Suc i) n s) (\<lambda>rest s'. (Inr (map_option (\<lambda>bs. b @ bs) rest), s'))))" for s b
    by (intro quiet_bind Suc.IH) simp
  then show ?case by (auto intro!: quiet_bind quiet_get_internal split: sum.split)
qed simp

lemma quiet_rebuild: "quiet r (snd (rebuild e t key v r))"
proof -
  have "quiet s (snd (bind_step (cache_put (t, key) x s) (\<lambda>_ s'. (Inr x, s'))))" for s x
    by (intro quiet_bind quiet_steps) simp
  then show ?thesis
    by (auto simp: rebuild_def intro!: quiet_bind quiet_read_chunks split: sum.split option.split)
qed

lemma quiet_router_get: "quiet r (snd (router_get e t key r))"
proof -
  have "quiet s (snd (case rebuild e t key v s of (Inl _, s') \<Rightarrow> (Inr PyNone, s') | (Inr x, s') \<Rightarrow> (Inr x, s')))" for s v
    using quiet_rebuild [of s e t key v] by (auto split: prod.split sum.split)
  then show ?thesis by (auto simp: router_get_def intro!: quiet_bind quiet_get_internal)
qed

subsection \<open>The stages of a flush and the log\<close>

lemma log_inv_flushes [simp]: "log_inv L D M (w\<lparr>active_flushes := x\<rparr>) = log_inv L D M w"
  by (simp add: log_inv_def wal_inv_def)

lemma dur_put:
  assumes inv: "dur_inv L D M r" and w: "log_inv L' D' M' (rwal r')"
    and same: "\<And>t'. t' \<noteq> t \<Longrightarrow> dget (tables r') t' = dget (tables r) t' \<and> of_table t' L' = of_table t' L"
    and tb: "dget (tables r') t = Some tb" "table_log (of_table t L') (M' \<union> ram_completed_tx (rwal r')) tb"
    and others: "\<And>t' tb'. t' \<noteq> t \<Longrightarrow> table_log (of_table t' L) (M \<union> ram_completed_tx (rwal r)) tb' \<Longrightarrow>
      table_log (of_table t' L) (M' \<union> ram_completed_tx (rwal r')) tb'"
  shows "dur_inv L' D' M' r'"
proof -
  have "case dget (tables r') t' of None \<Rightarrow> of_table t' L' = []
      | Some tb \<Rightarrow> table_log (of_table t' L') (M' \<union> ram_completed_tx (rwal r')) tb" for t'
  proof (cases "t' = t")
    case True
    then show ?thesis using tb by simp
  next
    case False
    then show ?thesis using same [OF False] others [OF False] inv
      by (cases "dget (tables r) t'") (auto simp: dur_inv_def dest!: spec [of _ t'])
  qed
  then show ?thesis using w by (simp add: dur_inv_def)
qed

text \<open>A step that changes only the table's job or handler.\<close>

lemma table_log_job:
  assumes "table_log L dn tb"
    and same: "active_memtable tb' = active_memtable tb" "immutable_memtable tb' = immutable_memtable tb"
      "active_tx_ids tb' = active_tx_ids tb" "immutable_tx_ids tb' = immutable_tx_ids tb"
    and j: "\<And>ups dels txs. job tb' = Some (Written ups dels txs) \<Longrightarrow> immutable_memtable tb \<noteq> None \<and> immutable_tx_ids tb = Some txs"
      "\<And>txs. job tb' = Some (Indexed txs) \<Longrightarrow> \<exists>ups dels. job tb = Some (Written ups dels txs)"
  shows "table_log L dn tb'"
proof -
  obtain F I A where sp: "table_split L dn tb F I A" using assms(1) by (auto simp: table_log_def)
  note a = table_splitD [OF sp]
  show ?thesis
  proof (rule table_logI [OF a(1)])
    show "txs = map fst I" if "job tb' = Some (Written ups dels txs)" for ups dels txs
      using j(1) [OF that] a(5) by auto
    show "txs = map fst I" if "job tb' = Some (Indexed txs)" for txs using j(2) [OF that] a(7) by blast
  qed (use a same in auto)
qed

lemma dur_job:
  assumes inv: "dur_inv L D M r" and w: "rwal r' = (rwal r)\<lparr>active_flushes := x\<rparr>" and tb: "dget (tables r) t = Some tb"
    and r': "tables r' = dset (tables r) t tb'"
    and same: "active_memtable tb' = active_memtable tb" "immutable_memtable tb' = immutable_memtable tb"
      "active_tx_ids tb' = active_tx_ids tb" "immutable_tx_ids tb' = immutable_tx_ids tb"
    and j: "\<And>ups dels txs. job tb' = Some (Written ups dels txs) \<Longrightarrow> immutable_memtable tb \<noteq> None \<and> immutable_tx_ids tb = Some txs"
      "\<And>txs. job tb' = Some (Indexed txs) \<Longrightarrow> \<exists>ups dels. job tb = Some (Written ups dels txs)"
  shows "dur_inv L D M r'"
proof (rule dur_put [OF inv, of _ _ _ r' t tb'])
  have "log_inv L D M (rwal r)" and tl: "table_log (of_table t L) (M \<union> ram_completed_tx (rwal r)) tb"
    using inv tb by (auto simp: dur_inv_def dest!: spec [of _ t])
  then show "log_inv L D M (rwal r')" using w by simp
  have ram: "ram_completed_tx (rwal r') = ram_completed_tx (rwal r)" using w by simp
  show "table_log (of_table t L) (M \<union> ram_completed_tx (rwal r')) tb'"
    unfolding ram by (rule table_log_job [OF tl same j])
qed (use r' w in simp_all)

lemma log_inv_marked:
  assumes inv: "log_inv L D M w" and txs: "set txs \<subseteq> {..< length L}"
  shows "log_inv L D (M \<union> (set txs \<inter> fst ` set D)) (mark_many_jobs_complete txs w)"
    and "ram_completed_tx (mark_many_jobs_complete txs w) = ram_completed_tx w \<union> set txs"
proof -
  have w: "wal_buffer (mark_many_jobs_complete txs w) = wal_buffer w"
    "global_tx_id (mark_many_jobs_complete txs w) = global_tx_id w"
    and ram: "ram_completed_tx (mark_many_jobs_complete txs w) = ram_completed_tx w \<union> set txs"
    by (auto simp: mark_many_jobs_complete_def Let_def)
  show "ram_completed_tx (mark_many_jobs_complete txs w) = ram_completed_tx w \<union> set txs" by (rule ram)
  show "log_inv L D (M \<union> (set txs \<inter> fst ` set D)) (mark_many_jobs_complete txs w)"
    using inv complete_inv [of w D M txs] txs unfolding log_inv_def w ram by auto
qed

lemma of_table_members: "x \<in> set (of_table t L) \<longleftrightarrow> x \<in> set L \<and> recovery_table (fst (snd x)) = t"
  by (auto simp: of_table_def)

lemma log_txs_distinct:
  assumes "map fst L = [0 ..< length L]"
  shows "distinct (map fst (of_table t L))" and "t' \<noteq> t \<Longrightarrow> fst ` set (of_table t' L) \<inter> fst ` set (of_table t L) = {}"
proof -
  have d: "distinct (map fst L)" unfolding assms by simp
  then show "distinct (map fst (of_table t L))" by (simp add: of_table_def distinct_map_filter)
  show "fst ` set (of_table t' L) \<inter> fst ` set (of_table t L) = {}" if ne: "t' \<noteq> t"
  proof -
    have "x = y" if "x \<in> set L" "y \<in> set L" "fst x = fst y" for x y
      using d that unfolding distinct_map inj_on_def by blast
    moreover have "\<exists>x \<in> set L. recovery_table (fst (snd x)) = s \<and> fst x = i" if "i \<in> fst ` set (of_table s L)" for s i
      using that by (force simp: of_table_members)
    ultimately show ?thesis using ne by (metis disjoint_iff)
  qed
qed

lemma table_log_more:
  assumes "table_log L dn tb" and "fst ` set L \<inter> txs = {}"
  shows "table_log L (dn \<union> txs) tb"
proof -
  obtain F I A where sp: "table_split L dn tb F I A" using assms(1) by (auto simp: table_log_def)
  note a = table_splitD [OF sp]
  have "fst ` set (I @ A) \<inter> txs = {}" using assms(2) a(1) by auto
  then have "fst ` set (I @ A) \<inter> (dn \<union> txs) = {}" using a(10) by blast
  moreover have "fst ` set F \<subseteq> dn \<union> txs" using a(9) by blast
  ultimately show ?thesis by (intro table_logI [OF a(1-8)])
qed

lemma dur_finish:
  assumes inv: "dur_inv L D M r" and tb: "dget (tables r) t = Some tb" and j: "job tb = Some (Indexed txs)"
    and r': "flush_finish t txs r = (Inr (), r')"
  shows "dur_inv L D (M \<union> (set txs \<inter> fst ` set D)) r'"
proof -
  have l: "log_inv L D M (rwal r)" and tl: "table_log (of_table t L) (M \<union> ram_completed_tx (rwal r)) tb"
    using inv tb by (auto simp: dur_inv_def dest!: spec [of _ t])
  obtain F I A where sp: "table_split (of_table t L) (M \<union> ram_completed_tx (rwal r)) tb F I A"
    using tl by (auto simp: table_log_def)
  note a = table_splitD [OF sp]
  have I: "txs = map fst I" by (rule a(8) [OF j])
  have ids: "map fst L = [0 ..< length L]" using l by (simp add: log_inv_def)
  have sub: "set txs \<subseteq> fst ` set (of_table t L)" by (auto simp: a(1) I)
  also have "\<dots> \<subseteq> {..< length L}"
  proof -
    have "fst ` set (of_table t L) \<subseteq> set (map fst L)" by (auto simp: of_table_members)
    then show ?thesis unfolding ids by auto
  qed
  finally have "set txs \<subseteq> {..< length L}" .
  note lm = log_inv_marked [OF l this]
  let ?M = "M \<union> (set txs \<inter> fst ` set D)" and ?w = "mark_many_jobs_complete txs (rwal r)"
  let ?tb = "tb\<lparr>immutable_memtable := None, immutable_tx_ids := None, job := None\<rparr>"
  have e: "tables r' = dset (tables r) t ?tb" "rwal r' = ?w\<lparr>active_flushes := active_flushes ?w - 1\<rparr>"
    using r' tb by (auto simp: flush_finish_def on_table_def Let_def flush_end_def count_flush_def)
  then have dn: "?M \<union> ram_completed_tx (rwal r') = (M \<union> ram_completed_tx (rwal r)) \<union> set txs"
    using lm(2) by auto
  show ?thesis
  proof (rule dur_put [OF inv, of _ _ _ r' t ?tb])
    show "log_inv L D ?M (rwal r')" using lm(1) e(2) by simp
    have "distinct (map fst (F @ I @ A))" using log_txs_distinct(1) [OF ids, of t] a(1) by simp
    then have "fst ` set A \<inter> set txs = {}" by (auto simp: I)
    then show "table_log (of_table t L) (?M \<union> ram_completed_tx (rwal r')) ?tb"
      unfolding dn using a(1-3,9,10) I by (intro table_logI [of _ "F @ I" "[]" A]) auto
    show "table_log (of_table t' L) (M \<union> ram_completed_tx (rwal r)) tb' \<Longrightarrow>
        table_log (of_table t' L) (?M \<union> ram_completed_tx (rwal r')) tb'" if "t' \<noteq> t" for t' tb'
      unfolding dn by (erule table_log_more) (use log_txs_distinct(2) [OF ids that] sub in blast)
  qed (use e(1) in simp_all)
qed

lemma bind_step_Inr:
  assumes "bind_step p f = (Inr x, s)"
  obtains y s1 where "p = (Inr y, s1)" "f y s1 = (Inr x, s)"
  using assms by (cases p; cases "fst p") auto

lemma on_table_Inr:
  assumes "on_table t r f = (Inr x, r')"
  obtains tb where "dget (tables r) t = Some tb" "f tb = (Inr x, r')"
  using assms by (auto simp: on_table_def split: option.splits)

lemma on_handler_Inr:
  assumes "on_handler t r f = (Inr x, r')"
  obtains tb h h' where "dget (tables r) t = Some tb" "r' = put_table t (tb\<lparr>handler_of := Some h'\<rparr>) r"
  using assms by (auto simp: on_handler_def split: option.splits prod.splits elim!: on_table_Inr)

lemma same_flushes: "(w :: wal)\<lparr>active_flushes := active_flushes w\<rparr> = w"
  by simp

lemma get_table_state_Inr:
  assumes "get_table_state e t r = (Inr (), r1)" and "dget (tables r) t = Some tb"
  shows "r1 = r"
  using assms by (auto simp: get_table_state_def split: if_splits)

lemma dur_flush_pages:
  assumes inv: "dur_inv L D M r" and tb: "dget (tables r) t = Some tb" and r': "flush_pages e t r = (Inr (), r')"
  shows "dur_inv L D M r'"
proof -
  obtain a r1 where 1: "get_table_state e t r = (a, r1)" by fastforce
  then have a: "a = Inr ()" using r' by (cases a) (auto simp: flush_pages_def)
  then have r1: "r1 = r" using get_table_state_Inr 1 tb by blast
  have ended: "dur_inv L D M (flush_end t r)"
  proof (rule dur_job [OF inv _ tb, of _ "active_flushes (rwal r) - 1" "tb\<lparr>job := None\<rparr>"])
    show "rwal (flush_end t r) = (rwal r)\<lparr>active_flushes := active_flushes (rwal r) - 1\<rparr>"
      "tables (flush_end t r) = dset (tables r) t (tb\<lparr>job := None\<rparr>)"
      using tb by (simp_all add: flush_end_def count_flush_def)
  qed simp_all
  show ?thesis
  proof (cases "\<exists>m. immutable_memtable tb = Some m \<and> entries m \<noteq> 0")
    case False
    then have "r' = flush_end t r"
      using r' 1 a r1 tb by (auto simp: flush_pages_def on_table_def split: option.splits)
    then show ?thesis using ended by simp
  next
    case True
    then obtain m where m: "immutable_memtable tb = Some m" "entries m \<noteq> 0" by blast
    let ?txs = "case immutable_tx_ids tb of None \<Rightarrow> [] | Some l \<Rightarrow> l"
    obtain b r2 where 2: "on_handler t (count_flush 1 r) (\<lambda>_. flush_records (in_order_traversal m)) = (b, r2)" by fastforce
    obtain ups dels where b: "b = Inr (ups, dels)" using r' 1 a r1 tb m 2 by (cases b) (auto simp: flush_pages_def on_table_def)
    obtain tb' h' where r2: "dget (tables (count_flush 1 r)) t = Some tb'"
      "r2 = put_table t (tb'\<lparr>handler_of := Some h'\<rparr>) (count_flush 1 r)"
      using 2 b by (auto elim: on_handler_Inr)
    then have tb': "tb' = tb" using tb by simp
    have "r' = put_table t (tb\<lparr>handler_of := Some h', job := Some (Written ups dels ?txs)\<rparr>) r2"
      using r' 1 a r1 tb m 2 b r2(2) tb' by (auto simp: flush_pages_def on_table_def)
    then have r'': "tables r' = dset (tables r) t (tb\<lparr>handler_of := Some h', job := Some (Written ups dels ?txs)\<rparr>)"
      "rwal r' = (rwal r)\<lparr>active_flushes := active_flushes (rwal r) + 1\<rparr>"
      using r2(2) tb' by (simp_all add: count_flush_def)
    have tl: "table_log (of_table t L) (M \<union> ram_completed_tx (rwal r)) tb"
      using inv tb by (auto simp: dur_inv_def dest!: spec [of _ t])
    then obtain F I A where "table_split (of_table t L) (M \<union> ram_completed_tx (rwal r)) tb F I A" by (auto simp: table_log_def)
    then have "immutable_tx_ids tb = Some (map fst I)" using table_splitD(5) m(1) by blast
    then have "immutable_tx_ids tb = Some ?txs" by simp
    then show ?thesis by (intro dur_job [OF inv r''(2) tb r''(1)]) (use m(1) in simp_all)
  qed
qed

lemma dur_flush_index:
  assumes inv: "dur_inv L D M r" and tb: "dget (tables r) t = Some tb" and j: "job tb = Some (Written ups dels txs)"
    and r': "flush_index t ups dels txs r = (Inr (), r')"
  shows "dur_inv L D M r'"
proof -
  let ?tb = "tb\<lparr>disk_index := dupdate (fold (\<lambda>k d. ddel d k) dels (disk_index tb)) ups, job := Some (Indexed txs)\<rparr>"
  obtain b r2 where 2: "on_handler t (put_table t ?tb r) (\<lambda>_ h. (sync_table h, h)) = (b, r2)" by fastforce
  then have r2: "b = Inr ()" "r' = r2" using r' tb by (auto simp: flush_index_def on_table_def Let_def split: sum.splits)
  obtain tb' h' where tb': "dget (tables (put_table t ?tb r)) t = Some tb'"
    "r2 = put_table t (tb'\<lparr>handler_of := Some h'\<rparr>) (put_table t ?tb r)"
    using 2 r2(1) by (auto elim: on_handler_Inr)
  then have "tables r' = dset (tables r) t (?tb\<lparr>handler_of := Some h'\<rparr>)" "rwal r' = (rwal r)\<lparr>active_flushes := active_flushes (rwal r)\<rparr>"
    using r2(2) by auto
  from dur_job [OF inv this(2) tb this(1)] show ?thesis using j by simp
qed

lemma dur_flush_step:
  assumes inv: "dur_inv L D M r" and r': "flush_step e t r = (Inr (), r')"
  shows "\<exists>M'. dur_inv L D M' r'"
proof (cases "dget (tables r) t")
  case None
  then show ?thesis using inv r' by (auto simp: flush_step_def)
next
  case (Some tb)
  show ?thesis
  proof (cases "job tb" rule: stages_left.cases)
    case 1
    then show ?thesis using inv r' Some by (auto simp: flush_step_def)
  next
    case 2
    then show ?thesis using dur_flush_pages [OF inv Some, of e r'] r' Some by (auto simp: flush_step_def)
  next
    case (3 ups dels txs)
    then show ?thesis using dur_flush_index [OF inv Some 3] r' Some by (auto simp: flush_step_def)
  next
    case (4 txs)
    then show ?thesis using dur_finish [OF inv Some 4] r' Some by (auto simp: flush_step_def)
  qed
qed

lemma dur_flush_wait:
  assumes inv: "dur_inv L D M r" and r': "flush_wait e t r = (Inr (), r')"
  shows "\<exists>M'. dur_inv L D M' r'"
proof -
  obtain r1 r2 where s: "flush_step e t r = (Inr (), r1)" "flush_step e t r1 = (Inr (), r2)" "flush_step e t r2 = (Inr (), r')"
    using r' unfolding flush_wait_def by (auto elim!: bind_step_Inr)
  obtain M1 where "dur_inv L D M1 r1" using dur_flush_step [OF inv s(1)] by blast
  then obtain M2 where "dur_inv L D M2 r2" using dur_flush_step [OF _ s(2)] by blast
  then show ?thesis using dur_flush_step [OF _ s(3)] by blast
qed

lemma dur_trigger:
  assumes inv: "dur_inv L D M r" and r: "router_inv n S C r" and t: "t \<noteq> []" and n: "n < 2 ^ 31"
    and tb: "dget (tables r) t = Some tb" and r': "trigger_flush e t r = (Inr (), r')"
  shows "\<exists>M'. dur_inv L D M' r'"
proof -
  obtain r1 tb1 where 1: "flush_wait e t r = (Inr (), r1)" "router_inv n S C r1"
    "dget (tables r1) t = Some tb1" "job tb1 = None" by (rule flush_wait_ok [OF r t n tb])
  obtain M1 where inv1: "dur_inv L D M1 r1" using dur_flush_wait [OF inv 1(1)] by blast
  show ?thesis
  proof (cases "int (entries (active_memtable tb1)) \<ge> max_memtable_size r1")
    case False
    then have "r' = r1" using r' 1(1,3) by (auto simp: trigger_flush_def on_table_def)
    with inv1 show ?thesis by blast
  next
    case True
    let ?tb = "tb1\<lparr>immutable_memtable := Some (active_memtable tb1), immutable_tx_ids := Some (active_tx_ids tb1),
        active_memtable := new_memtable, active_tx_ids := [], job := Some Submitted\<rparr>"
    have r'': "r' = put_table t ?tb r1" using True r' 1(1,3) by (auto simp: trigger_flush_def on_table_def)
    have none: "immutable_memtable tb1 = None"
      by (rule table_invE [OF router_table [OF 1(2) t 1(3)]]) (use 1(4) in \<open>simp add: stage_ok_def\<close>)
    have l: "log_inv L D M1 (rwal r1)" "table_log (of_table t L) (M1 \<union> ram_completed_tx (rwal r1)) tb1"
      using inv1 1(3) by (auto simp: dur_inv_def dest!: spec [of _ t])
    then obtain F I A where "table_split (of_table t L) (M1 \<union> ram_completed_tx (rwal r1)) tb1 F I A" by (auto simp: table_log_def)
    note a = table_splitD [OF this]
    have "table_log (of_table t L) (M1 \<union> ram_completed_tx (rwal r1)) ?tb"
      by (rule table_logI [of _ F A "[]"]) (use a(1-3,9,10) a(4) [OF none] in simp_all)
    then have "dur_inv L D M1 r'" by (intro dur_put [OF inv1, of _ _ _ r' t ?tb]) (use l(1) r'' in simp_all)
    then show ?thesis by blast
  qed
qed

subsection \<open>Writes and the log\<close>

lemma list_all2_entry_txs: "list_all2 entry_of X recs \<Longrightarrow> map fst recs = map fst X"
  by (induction X recs rule: list_all2_induct) (simp_all add: entry_of_def)

lemma log_inv_buffer: "log_inv L D M w \<Longrightarrow> length (wal_buffer w) \<le> length L"
  by (auto simp: log_inv_def dest: list_all2_lengthD)

lemma id_ok_small: "tx \<le> 50000 \<Longrightarrow> id_ok tx"
  by (simp add: id_ok_def WAL_CAPACITY_def)

text \<open>Appending records to the log.\<close>

lemma append_loop_log:
  assumes "log_inv L D M w" and "length L + length kvs \<le> 50000"
    and "list_all2 (\<lambda>(k, v) b. k \<noteq> [] \<and> packs k v b \<and> length b \<le> 4072) kvs bs"
  shows "\<exists>w' X. append_loop bs w = (map fst X, w') \<and> log_inv (L @ X) D M w' \<and> map snd X = kvs \<and>
    ram_completed_tx w' = ram_completed_tx w \<and> map fst X = [length L ..< length L + length kvs]"
  using assms
proof (induction kvs arbitrary: L w bs)
  case Nil
  then show ?case by (auto intro: exI [of _ "[]"])
next
  case (Cons kv kvs)
  obtain k v where kv: "kv = (k, v)" by fastforce
  obtain b bs' where bs: "bs = b # bs'" "k \<noteq> []" "packs k v b" "length b \<le> 4072"
    "list_all2 (\<lambda>(k, v) b. k \<noteq> [] \<and> packs k v b \<and> length b \<le> 4072) kvs bs'"
    using Cons.prems(3) kv by (cases bs) auto
  let ?x = "(length L, k, v)"
  let ?w = "w\<lparr>global_tx_id := global_tx_id w + 1, wal_buffer := wal_buffer w @ [(global_tx_id w, b)]\<rparr>"
  have l: "wal_inv w D M" "list_all2 entry_of L (D @ wal_buffer w)" "global_tx_id w = length L"
    "\<forall>tx \<in> ram_completed_tx w. tx < global_tx_id w \<and> (tx \<in> fst ` set D \<longrightarrow> tx \<in> M)" "map fst L = [0 ..< length L]"
    using Cons.prems(1) unfolding log_inv_def by blast+
  have "id_ok (global_tx_id w)" using l(3) Cons.prems(2) by (intro id_ok_small) simp
  then have "wal_inv ?w D M" by (rule append_one_inv [OF l(1) packed_not_Nil [OF bs(3)]])
  moreover have "entry_of ?x (global_tx_id w, b)" using bs l(3) by (simp add: entry_of_def)
  then have "list_all2 entry_of (L @ [?x]) (D @ wal_buffer ?w)" using list_all2_appendI [OF l(2)] by simp
  ultimately have "log_inv (L @ [?x]) D M ?w" using l(3-5) by (auto simp: log_inv_def)
  from Cons.IH [OF this _ bs(5)] Cons.prems(2) obtain w' X where
    "append_loop bs' ?w = (map fst X, w')" "log_inv ((L @ [?x]) @ X) D M w'" "map snd X = kvs"
    "ram_completed_tx w' = ram_completed_tx w" "map fst X = [Suc (length L) ..< Suc (length L) + length kvs]" by auto
  then show ?case using bs(1) kv l(3)
    by (intro exI [of _ w'] exI [of _ "?x # X"]) (simp add: Let_def upt_conv_Cons del: upt_Suc)
qed

lemma of_table_all:
  assumes "\<forall>x \<in> set X. recovery_table (fst (snd x)) = t"
  shows "of_table t X = X" and "t' \<noteq> t \<Longrightarrow> of_table t' X = []"
  using assms by (auto simp: of_table_def filter_empty_conv)

text \<open>The records are appended, then their memtable and the list of its transactions grow.\<close>

lemma dur_write:
  assumes inv: "dur_inv L D M r" and w: "log_inv (L @ X) D M w" "ram_completed_tx w = ram_completed_tx (rwal r)"
    and X: "\<forall>x \<in> set X. recovery_table (fst (snd x)) = t" "map fst X = [length L ..< length L + length X]"
    and tb: "dget (tables r) t = Some tb" and k: "\<forall>k. mem_value m k \<noteq> None \<longrightarrow> mem_value (active_memtable tb) k \<noteq> None \<or> k \<in> log_keys X"
    and r': "rwal r' = w" "\<And>t'. t' \<noteq> t \<Longrightarrow> dget (tables r') t' = dget (tables r) t'"
      "dget (tables r') t = Some (tb\<lparr>active_memtable := m, active_tx_ids := active_tx_ids tb @ map fst X\<rparr>)"
  shows "dur_inv (L @ X) D M r'"
proof (rule dur_put [OF inv, of _ _ _ r' t])
  let ?tb = "tb\<lparr>active_memtable := m, active_tx_ids := active_tx_ids tb @ map fst X\<rparr>"
  have l: "log_inv L D M (rwal r)" "table_log (of_table t L) (M \<union> ram_completed_tx (rwal r)) tb"
    using inv tb by (auto simp: dur_inv_def dest!: spec [of _ t])
  then obtain F I A where "table_split (of_table t L) (M \<union> ram_completed_tx (rwal r)) tb F I A" by (auto simp: table_log_def)
  note a = table_splitD [OF this]
  have "M \<subseteq> fst ` set D"
    by (rule wal_invE [of "rwal r" D M]) (use l(1) in \<open>auto simp: log_inv_def durable_rel_def\<close>)
  moreover have "fst ` set D \<subseteq> {..< length L}"
  proof -
    have "map fst D @ map fst (wal_buffer (rwal r)) = [0 ..< length L]"
      using list_all2_entry_txs [of L "D @ wal_buffer (rwal r)"] l(1) by (simp add: log_inv_def)
    from arg_cong [OF this, of set] have "fst ` set D \<union> fst ` set (wal_buffer (rwal r)) = {..< length L}"
      by (simp add: atLeast0LessThan)
    then show ?thesis by blast
  qed
  ultimately have "M \<subseteq> {..< length L}" by blast
  moreover have "ram_completed_tx (rwal r) \<subseteq> {..< length L}" using l(1) by (auto simp: log_inv_def)
  moreover have "fst ` set X = {length L ..< length L + length X}"
    using arg_cong [OF X(2), of set] by (simp only: set_map set_upt)
  ultimately have "fst ` set X \<inter> (M \<union> ram_completed_tx (rwal r)) = {}" by auto
  then have new: "fst ` set (I @ A @ X) \<inter> (M \<union> ram_completed_tx (rwal r)) = {}" using a(10) by auto
  show "table_log (of_table t (L @ X)) (M \<union> ram_completed_tx (rwal r')) ?tb"
    unfolding r'(1) w(2)
  proof (rule table_logI [of _ F I "A @ X"])
    show "of_table t (L @ X) = F @ I @ A @ X" using a(1) of_table_all(1) [OF X(1)] by simp
    show "mem_value (active_memtable ?tb) k \<noteq> None \<Longrightarrow> k \<in> log_keys (A @ X)" for k
      unfolding set_append image_Un using k a(3) [of k] by auto
  qed (use a(2,4-9) new in simp_all)
qed (use w r' of_table_all(2) [OF X(1)] in simp_all)

lemma mem_grow:
  assumes "mem_ok m" and "packs k v b" and "length b \<le> 4072" and "k \<noteq> []" and "memtable_insert k b m = (Inr (), m')"
  shows "mem_ok m'" and "mem_value m' k' \<noteq> None \<Longrightarrow> mem_value m k' \<noteq> None \<or> k' = k"
proof -
  obtain m'' where "memtable_insert k b m = (Inr (), m'')" "mem_ok m''"
    "\<And>k'. mem_value m'' k' = (if k' = k then Some v else mem_value m k')"
    by (rule mem_insert [OF assms(1-4)]) blast
  then show "mem_ok m'" "mem_value m' k' \<noteq> None \<Longrightarrow> mem_value m k' \<noteq> None \<or> k' = k" using assms(5) by auto
qed

lemma append_wait_log:
  assumes "log_inv L D M w" and "length L < 25000" and "k \<noteq> []" and "packs k v b" and "length b \<le> 4072"
  shows "\<exists>w'. append_wait e b w = (length L, w') \<and> log_inv (L @ [(length L, k, v)]) D M w' \<and>
    ram_completed_tx w' = ram_completed_tx w"
proof -
  have "list_all2 (\<lambda>(k, v) b. k \<noteq> [] \<and> packs k v b \<and> length b \<le> 4072) [(k, v)] [b]" using assms(3-5) by simp
  from append_loop_log [OF assms(1) _ this] assms(2) obtain w' X where
    x: "append_loop [b] w = (map fst X, w')" "log_inv (L @ X) D M w'" "map snd X = [(k, v)]"
    "ram_completed_tx w' = ram_completed_tx w" "map fst X = [length L]" by auto
  obtain x where "X = [x]" using x(3) by (cases X) auto
  then have X: "X = [(length L, k, v)]" using x(3,5) by (cases x) simp
  have "length (wal_buffer w) < BATCH_SIZE * 2" using log_inv_buffer [OF assms(1)] assms(2) by (simp add: BATCH_SIZE_def)
  then have "append_wait e b w = (length L, w')"
    using x(1) X by (auto simp: append_wait_def append_to_buffer_def Let_def)
  with x(2,4) X show ?thesis by blast
qed

subsubsection \<open>\<open>set\<close>\<close>

lemma log_entry_table: "recovery_table k = t \<Longrightarrow> \<forall>x \<in> set [(i, k, v)]. recovery_table (fst (snd x)) = t"
  by simp

lemma dur_set_internal:
  assumes inv: "dur_inv L D M r" and r: "router_inv n S C r" and e: "env_ok e" and t: "t \<noteq> []" and n: "Suc n < 2 ^ 31"
    and fit: "fits key v" and key: "recovery_table key = t" and L: "length L < 25000"
    and r': "set_internal e t key v r = (Inr (), r')"
  shows "\<exists>M'. dur_inv (L @ [(length L, key, v)]) D M' r'"
proof -
  obtain b where b: "packs key v b" "length b \<le> 4072" and key': "key \<noteq> []" using fit by (auto simp: fits_def)
  obtain r1 tb where 1: "get_table_state e t r = (Inr (), r1)" "router_inv n S C r1" "dget (tables r1) t = Some tb"
    using get_table_state_ok [OF r e t] by metis
  have inv1: "dur_inv L D M r1" using dur_quiet [OF inv] quiet_get_table_state [of r e t] 1(1) by simp
  obtain m where m: "memtable_insert key b (active_memtable tb) = (Inr (), m)"
    "\<And>txs w. \<exists>r'. cache_put (t, key) v (put_table t (tb\<lparr>active_memtable := m, active_tx_ids := txs\<rparr>) (r1\<lparr>rwal := w\<rparr>)) =
        (Inr (), r') \<and> router_inv (Suc n) (S((t, key) := v)) (C((t, key) := {v})) r' \<and>
        dget (tables r') t = Some (tb\<lparr>active_memtable := m, active_tx_ids := txs\<rparr>)"
    using table_insert_ok [OF 1(2) t 1(3) b key'] by blast
  have "log_inv L D M (rwal r1)" using inv1 by (simp add: dur_inv_def)
  then obtain w where w: "append_wait e b (rwal r1) = (length L, w)" "log_inv (L @ [(length L, key, v)]) D M w"
    "ram_completed_tx w = ram_completed_tx (rwal r1)" using append_wait_log [OF _ L key' b] by blast
  let ?tb = "tb\<lparr>active_memtable := m, active_tx_ids := active_tx_ids tb @ [length L]\<rparr>"
  let ?r2 = "put_table t ?tb (r1\<lparr>rwal := w\<rparr>)"
  have ok: "mem_ok (active_memtable tb)" by (rule router_memtables(1) [OF 1(2) t 1(3)])
  have inv2: "dur_inv (L @ [(length L, key, v)]) D M ?r2"
    by (rule dur_write [OF inv1 w(2,3) log_entry_table [OF key] _ 1(3), of m])
      (use mem_grow(2) [OF ok b key' m(1)] in auto)
  obtain r3 where 3: "cache_put (t, key) v ?r2 = (Inr (), r3)"
    "router_inv (Suc n) (S((t, key) := v)) (C((t, key) := {v})) r3" "dget (tables r3) t = Some ?tb"
    using m(2) by blast
  have inv3: "dur_inv (L @ [(length L, key, v)]) D M r3"
    using dur_quiet [OF inv2] quiet_cache_put [of ?r2 "(t, key)" v] 3(1) by simp
  have "pack_kv key v = Inr b" using b(1) by (simp add: packs_def)
  then have "(if int (entries m) \<ge> max_memtable_size r3 then trigger_flush e t r3 else (Inr (), r3)) = (Inr (), r')"
    using r' t key' 1(1,3) w(1) m(1) 3(1) by (simp add: set_internal_def on_table_def Let_def)
  then show ?thesis
    using dur_trigger [OF inv3 3(2) t n 3(3)] inv3 by (auto split: if_splits)
qed

text \<open>\<open>set\<close> of a small value over a value that is no manifest.\<close>

definition small_value :: "pyval \<Rightarrow> bool" where
  "small_value v \<longleftrightarrow> user_value v \<and> (\<exists>vb. value_bytes v = Inr vb \<and> length vb \<le> 2000)"

lemma router_set_small:
  assumes key: "key_ok key" and t: "t \<noteq> []" and v: "small_value v"
    and r1: "get_raw_manifest e t key r = (Inr old, r1)" and old: "\<not> is_manifest old"
  shows "router_set e t key v r = set_internal e t key v r1"
proof -
  have "cleanup_chunks e t key r = r1" using r1 old by (simp add: cleanup_chunks_def)
  moreover have "key \<noteq> []" "\<not> is_chunk_key key" using key by (simp_all add: key_ok_def)
  moreover obtain vb where "value_bytes v = Inr vb" "length vb \<le> 2000" using v by (auto simp: small_value_def)
  ultimately show ?thesis
    using t unfolding router_set_def value_bytes_def [symmetric] by auto
qed

lemma dur_router_set:
  assumes inv: "dur_inv L D M r" and r: "router_inv n S C r" and e: "env_ok e" and t: "t \<noteq> []" and n: "Suc n < 2 ^ 31"
    and key: "key_ok key" "recovery_table key = t" and v: "small_value v" and S: "\<not> is_manifest (S (t, key))"
    and L: "length L < 25000"
  shows "\<exists>r' M'. router_set e t key v r = (Inr (), r') \<and> dur_inv (L @ [(length L, key, v)]) D M' r' \<and>
    router_inv (Suc n) (S((t, key) := v)) (C((t, key) := {v})) r'"
proof -
  have key': "key \<noteq> []" using key(1) by (simp add: key_ok_def)
  obtain r1 where r1: "get_raw_manifest e t key r = (Inr (S (t, key)), r1)" "router_inv n S C r1"
    by (rule get_raw_manifest_ok [OF r e t key'])
  have inv1: "dur_inv L D M r1" using dur_quiet [OF inv] quiet_get_raw_manifest [of r e t key] r1(1) by simp
  obtain vb where "json_value v" "value_bytes v = Inr vb" "length vb \<le> 2000"
    using v by (auto simp: small_value_def user_value_def)
  then have fit: "fits key v" by (intro fits_small [OF key(1)])
  obtain r' where r': "set_internal e t key v r1 = (Inr (), r')"
    "router_inv (Suc n) (S((t, key) := v)) (C((t, key) := {v})) r'" by (rule set_internal_ok [OF r1(2) e t n fit])
  obtain M' where "dur_inv (L @ [(length L, key, v)]) D M' r'"
    using dur_set_internal [OF inv1 r1(2) e t n fit key(2) L r'(1)] by blast
  then show ?thesis using r' router_set_small [OF key(1) t v r1(1) S] by auto
qed

subsubsection \<open>\<open>set_many\<close>\<close>

lemma insert_many_mem:
  assumes "insert_many t ps all r = (Inr (), r')" and "dget (tables r) t = Some tb" and "mem_ok (active_memtable tb)"
    and "list_all2 (\<lambda>(k, v) (k', b). k' = k \<and> packs k v b \<and> length b \<le> 4072) kvs ps" and "[] \<notin> fst ` set kvs"
  shows "\<exists>m. dget (tables r') t = Some (tb\<lparr>active_memtable := m\<rparr>) \<and> rwal r' = rwal r \<and>
    (\<forall>t'. t' \<noteq> t \<longrightarrow> dget (tables r') t' = dget (tables r) t') \<and>
    (\<forall>k. mem_value m k \<noteq> None \<longrightarrow> mem_value (active_memtable tb) k \<noteq> None \<or> k \<in> fst ` set kvs)"
  using assms
proof (induction kvs arbitrary: ps r tb)
  case Nil
  then show ?case by (auto intro!: exI [of _ "active_memtable tb"])
next
  case (Cons kv kvs)
  obtain k v where kv: "kv = (k, v)" by fastforce
  obtain b ps' where ps: "ps = (k, b) # ps'" "packs k v b" "length b \<le> 4072"
    "list_all2 (\<lambda>(k, v) (k', b). k' = k \<and> packs k v b \<and> length b \<le> 4072) kvs ps'"
    using Cons.prems(4) kv by (cases ps) auto
  have k: "k \<noteq> []" "[] \<notin> fst ` set kvs" using Cons.prems(5) kv by auto
  obtain a m where m: "memtable_insert k b (active_memtable tb) = (a, m)" by fastforce
  obtain c r1 where c: "cache_put (t, k) (the (dget all k)) (put_table t (tb\<lparr>active_memtable := m\<rparr>) r) = (c, r1)" by fastforce
  have i: "a = Inr ()" "c = Inr ()" "insert_many t ps' all r1 = (Inr (), r')"
    using Cons.prems(1) Cons.prems(2) ps(1) m c by (auto simp: on_table_def split: sum.splits option.splits)
  note g = mem_grow [OF Cons.prems(3) ps(2,3) k(1) m [unfolded i(1)]]
  have r1: "dget (tables r1) t = Some (tb\<lparr>active_memtable := m\<rparr>)" "rwal r1 = rwal r"
    "\<And>t'. t' \<noteq> t \<Longrightarrow> dget (tables r1) t' = dget (tables r) t'"
    using c by (auto simp: cache_put_def split: prod.splits)
  have "mem_ok (active_memtable (tb\<lparr>active_memtable := m\<rparr>))" using g(1) by simp
  from Cons.IH [OF i(3) r1(1) this ps(4) k(2)] obtain m' where
    m': "dget (tables r') t = Some (tb\<lparr>active_memtable := m'\<rparr>)" "rwal r' = rwal r1"
    "\<forall>t'. t' \<noteq> t \<longrightarrow> dget (tables r') t' = dget (tables r1) t'"
    "\<forall>k. mem_value m' k \<noteq> None \<longrightarrow> mem_value m k \<noteq> None \<or> k \<in> fst ` set kvs" by auto
  moreover have "\<forall>k'. mem_value m' k' \<noteq> None \<longrightarrow> mem_value (active_memtable tb) k' \<noteq> None \<or> k' \<in> fst ` set (kv # kvs)"
    using m'(4) g(2) kv by fastforce
  ultimately show ?case using r1 by metis
qed

lemma list_all2_packed_bytes:
  "list_all2 (\<lambda>(k, v) (k', b). k' = k \<and> packs k v b \<and> length b \<le> 4072) kvs ps \<Longrightarrow> [] \<notin> fst ` set kvs \<Longrightarrow>
   list_all2 (\<lambda>(k, v) b. k \<noteq> [] \<and> packs k v b \<and> length b \<le> 4072) kvs (map snd ps)"
  by (induction kvs ps rule: list_all2_induct) auto

lemma append_many_log:
  assumes l: "log_inv L D M w" and n: "length L + length kvs \<le> 25000"
    and p: "list_all2 (\<lambda>(k, v) b. k \<noteq> [] \<and> packs k v b \<and> length b \<le> 4072) kvs bs"
  shows "\<exists>w' X. append_many_wait e bs w = (map fst X, w') \<and> log_inv (L @ X) D M w' \<and> map snd X = kvs \<and>
    ram_completed_tx w' = ram_completed_tx w \<and> map fst X = [length L ..< length L + length X]"
proof -
  have "length L + length kvs \<le> 50000" using n by simp
  from append_loop_log [OF l this p] obtain w' X where x: "append_loop bs w = (map fst X, w')" "log_inv (L @ X) D M w'"
    "map snd X = kvs" "ram_completed_tx w' = ram_completed_tx w" "map fst X = [length L ..< length L + length kvs]" by blast
  have "length (wal_buffer w) < BATCH_SIZE * 2" using log_inv_buffer [OF l] n by (simp add: BATCH_SIZE_def)
  then have "append_many_wait e bs w = (map fst X, w')" using x(1) by (simp add: append_many_wait_def append_many_to_buffer_def)
  moreover have "length X = length kvs" using arg_cong [OF x(3), of length] by simp
  ultimately show ?thesis using x by metis
qed

lemma dur_set_many:
  assumes inv: "dur_inv L D M r" and r: "router_inv n S C r" and e: "env_ok e" and t: "t \<noteq> []" and n: "n + length kvs < 2 ^ 31"
    and fit: "\<forall>(k, v) \<in> set kvs. fits k v" and d: "distinct (map fst kvs)" and ne: "kvs \<noteq> []"
    and key: "\<forall>(k, v) \<in> set kvs. recovery_table k = t" and L: "length L + length kvs \<le> 25000"
  shows "\<exists>r' M' X. set_many e t kvs r = (Inr (), r') \<and> dur_inv (L @ X) D M' r' \<and> map snd X = kvs \<and>
    router_inv (n + length kvs) (set_values t kvs S) (set_values t (map (\<lambda>(k, v). (k, {v})) kvs) C) r'"
proof -
  let ?S = "set_values t kvs S" and ?C = "set_values t (map (\<lambda>(k, v). (k, {v})) kvs) C"
  obtain r' where r': "set_many e t kvs r = (Inr (), r')" "router_inv (n + length kvs) ?S ?C r'"
    by (rule set_many_ok [OF r e t n fit d ne])
  obtain ps where ps: "pack_all kvs = Inr ps"
    "list_all2 (\<lambda>(k, v) (k', b). k' = k \<and> packs k v b \<and> length b \<le> 4072) kvs ps"
    using pack_all_ok [OF fit] by blast
  have k: "[] \<notin> fst ` set kvs" using fit by (auto simp: fits_def)
  have l: "log_inv L D M (rwal r)" using inv by (simp add: dur_inv_def)
  obtain w X where w: "append_many_wait e (map snd ps) (rwal r) = (map fst X, w)" "log_inv (L @ X) D M w" "map snd X = kvs"
    "ram_completed_tx w = ram_completed_tx (rwal r)" "map fst X = [length L ..< length L + length X]"
    using append_many_log [OF l L list_all2_packed_bytes [OF ps(2) k]] by blast
  obtain r1 tb where 1: "get_table_state e t (r\<lparr>rwal := w\<rparr>) = (Inr (), r1)" "router_inv n S C r1" "dget (tables r1) t = Some tb"
    using get_table_state_ok [OF router_inv_wal [OF r] e t] by metis
  obtain r2 tb2 where 2: "insert_many t ps kvs r1 = (Inr (), r2)" "dget (tables r2) t = Some tb2"
    "router_inv (n + length kvs) ?S ?C r2"
    using insert_many_ok [OF 1(2) t 1(3) d _ k ps(2)] by auto
  let ?r3 = "put_table t (tb2\<lparr>active_tx_ids := active_tx_ids tb2 @ map fst X\<rparr>) r2"
  have 3: "router_inv (n + length kvs) ?S ?C ?r3"
    by (rule router_put_same [OF 2(3)]) (use router_table [OF 2(3) t 2(2)] in simp_all)
  have s: "(if int (entries (active_memtable tb2)) \<ge> max_memtable_size ?r3 then trigger_flush e t ?r3 else (Inr (), ?r3)) = (Inr (), r')"
    using r'(1) t ne ps(1) w(1) 1(1) 2(1,2) by (simp add: set_many_def set_many_internal_def on_table_def Let_def)
  obtain m where m: "tb2 = tb\<lparr>active_memtable := m\<rparr>" "rwal r2 = rwal r1"
    "\<forall>t'. t' \<noteq> t \<longrightarrow> dget (tables r2) t' = dget (tables r1) t'"
    "\<forall>k. mem_value m k \<noteq> None \<longrightarrow> mem_value (active_memtable tb) k \<noteq> None \<or> k \<in> fst ` set kvs"
    using insert_many_mem [OF 2(1) 1(3) router_memtables(1) [OF 1(2) t 1(3)] ps(2) k] 2(2) by auto
  have q: "quiet (r\<lparr>rwal := w\<rparr>) r1" using quiet_get_table_state [of "r\<lparr>rwal := w\<rparr>" e t] 1(1) by simp
  have "rwal (r1\<lparr>rwal := rwal r\<rparr>) = rwal r" by simp
  moreover have "quiet r (r1\<lparr>rwal := rwal r\<rparr>)" using q by (simp add: quiet_def)
  then have inv1: "dur_inv L D M (r1\<lparr>rwal := rwal r\<rparr>)" by (rule dur_quiet [OF inv])
  have keys: "fst ` set kvs = log_keys X" unfolding w(3) [symmetric] by (simp add: image_image)
  have X: "\<forall>x \<in> set X. recovery_table (fst (snd x)) = t" using key unfolding w(3) [symmetric] by auto
  have "rwal r1 = w" using q by (simp add: quiet_def)
  then have inv3: "dur_inv (L @ X) D M ?r3"
    by (intro dur_write [OF inv1 w(2) _ X w(5), of tb m]) (use m keys w(4) 1(3) in simp_all)
  have tb3: "dget (tables ?r3) t = Some (tb2\<lparr>active_tx_ids := active_tx_ids tb2 @ map fst X\<rparr>)" by simp
  have "\<exists>M'. dur_inv (L @ X) D M' r'"
    using s dur_trigger [OF inv3 3 t n tb3] inv3 by (auto split: if_splits)
  then show ?thesis using r' w(3) by blast
qed

end
