(* ===== verification/Durability.thy ===== *)
theory Durability
  imports Ghost_Log
begin

text \<open>
  The durability of the database: between the log, the memtables, the table files and the completion
  marks, no write that has reached the log's file is lost in a crash, wherever the background flushes
  are.
\<close>

subsection \<open>The log's writer\<close>

lemma bytes_in_entries: "list_all2 entry_of L recs \<Longrightarrow> bytes_in fid recs \<le> 4076 * length L"
  by (induction L recs rule: list_all2_induct) (auto simp: entry_of_def split: prod.splits elim: bytes_in.elims)

lemma table_log_subset:
  assumes "table_log L dn tb" and "dn' \<subseteq> dn" and "fst ` set L \<inter> dn \<subseteq> dn'"
  shows "table_log L dn' tb"
proof -
  obtain F I A where sp: "table_split L dn tb F I A" using assms(1) by (auto simp: table_log_def)
  note a = table_splitD [OF sp]
  have "fst ` set F \<subseteq> dn'" using a(1,9) assms(3) by auto
  moreover have "fst ` set (I @ A) \<inter> dn' = {}" using a(10) assms(2) by blast
  ultimately show ?thesis by (intro table_logI [OF a(1-8)])
qed

lemma dur_writer:
  assumes inv: "dur_inv L D M r" and n: "length L \<le> 25000"
  shows "\<exists>D' M'. dur_inv L D' M' (r\<lparr>rwal := writer_round stamp (rwal r)\<rparr>) \<and> wal_buffer (writer_round stamp (rwal r)) = []"
proof (cases "wal_buffer (rwal r) = []")
  case True
  then have "writer_round stamp (rwal r) = rwal r" by (simp add: writer_round_def)
  then show ?thesis using inv True by auto
next
  case False
  let ?w = "rwal r" let ?buf = "wal_buffer ?w" let ?M = "M \<union> (ram_completed_tx ?w \<inter> fst ` set ?buf)"
  have l: "wal_inv ?w D M" "list_all2 entry_of L (D @ ?buf)" "global_tx_id ?w = length L"
    "\<forall>tx \<in> ram_completed_tx ?w. tx < global_tx_id ?w \<and> (tx \<in> fst ` set D \<longrightarrow> tx \<in> M)" "map fst L = [0 ..< length L]"
    using inv unfolding dur_inv_def log_inv_def by blast+
  have "bytes_in fid (D @ ?buf) \<le> PAYLOAD_AREA_SIZE" for fid
    using bytes_in_entries [OF l(2), of fid] n by (simp add: PAYLOAD_AREA_SIZE_def)
  then obtain w' where w': "write_buffer_to_disk stamp ?buf (?w\<lparr>wal_buffer := []\<rparr>) = (Inr (), w')" "wal_buffer w' = []"
    "global_tx_id w' = global_tx_id ?w" using flush_succeeds_inv [OF l(1)] by blast
  have round: "writer_round stamp ?w = w'" using w'(1) False by (simp add: writer_round_def)
  have ram: "ram_completed_tx w' = {}" using w'(1) False by (auto simp: write_buffer_to_disk_def split: prod.splits)
  have "log_inv L (D @ ?buf) ?M w'"
    using flush_inv [OF l(1) w'(1)] l(2,3,5) w'(2,3) ram by (simp add: log_inv_def)
  moreover have "case dget (tables r) t of None \<Rightarrow> of_table t L = []
      | Some tb \<Rightarrow> table_log (of_table t L) ?M tb" for t
  proof (cases "dget (tables r) t")
    case None
    then show ?thesis using inv by (auto simp: dur_inv_def dest!: spec [of _ t])
  next
    case (Some tb)
    then have tl: "table_log (of_table t L) (M \<union> ram_completed_tx ?w) tb" using inv by (auto simp: dur_inv_def dest!: spec [of _ t])
    have "fst ` set (of_table t L) \<subseteq> set (map fst L)" by (auto simp: of_table_members)
    also have "\<dots> = fst ` set D \<union> fst ` set ?buf"
      unfolding list_all2_entry_txs [OF l(2), symmetric] by auto
    finally have "fst ` set (of_table t L) \<inter> (M \<union> ram_completed_tx ?w) \<subseteq> ?M" using l(4) by blast
    then have "table_log (of_table t L) ?M tb" by (intro table_log_subset [OF tl]) blast+
    then show ?thesis using Some by simp
  qed
  ultimately have "dur_inv L (D @ ?buf) ?M (r\<lparr>rwal := w'\<rparr>)"
    unfolding dur_inv_def using ram by (simp cong: option.case_cong)
  then show ?thesis using round w'(2) by auto
qed

subsection \<open>Histories\<close>

text \<open>The calls: small values, keys whose record names their table.\<close>

fun logged_op :: "router_op \<Rightarrow> bool" where
  "logged_op (Set t k v) \<longleftrightarrow> t \<noteq> [] \<and> key_ok k \<and> recovery_table k = t \<and> small_value v"
| "logged_op (Set_Many t kvs) \<longleftrightarrow> t \<noteq> [] \<and> kvs \<noteq> [] \<and> distinct (map fst kvs) \<and>
     (\<forall>(k, v) \<in> set kvs. key_ok k \<and> recovery_table k = t \<and> small_value v)"
| "logged_op (Get t k) \<longleftrightarrow> t \<noteq> [] \<and> key_ok k"
| "logged_op (Flush_Stage t) \<longleftrightarrow> t \<noteq> []"
| "logged_op Writer_Round \<longleftrightarrow> True"

fun op_writes :: "router_op \<Rightarrow> nat" where
  "op_writes (Set t k v) = 1"
| "op_writes (Set_Many t kvs) = length kvs"
| "op_writes _ = 0"

definition run_inv :: "log_entry list \<Rightarrow> tx_record list \<Rightarrow> nat set \<Rightarrow> router \<Rightarrow> bool" where
  "run_inv L D M r \<longleftrightarrow> router_inv (length L) (log_value L) (\<lambda>x. {log_value L x}) r \<and> dur_inv L D M r \<and>
     (\<forall>x. user_value (log_value L x))"

lemma set_values_singletons: "set_values t (map (\<lambda>(k, v). (k, {v})) kvs) (\<lambda>x. {S x}) = (\<lambda>x. {set_values t kvs S x})"
proof (induction kvs arbitrary: S)
  case (Cons kv kvs)
  obtain k v where kv: "kv = (k, v)" by fastforce
  have "(\<lambda>x. {S x})((t, k) := {v}) = (\<lambda>x. {(S((t, k) := v)) x})" by (simp add: fun_eq_iff)
  then show ?case unfolding kv list.map prod.case set_values_Cons by (simp only: Cons.IH)
qed (simp add: set_values_def)

lemma log_value_append:
  assumes "\<forall>x \<in> set X. recovery_table (fst (snd x)) = t"
  shows "log_value (L @ X) = set_values t (map snd X) (log_value L)"
  using assms
proof (induction X arbitrary: L)
  case (Cons x X)
  obtain i k v where x: "x = (i, k, v)" by (cases x)
  have X: "\<forall>y \<in> set X. recovery_table (fst (snd y)) = t" and k: "recovery_table k = t" using Cons.prems x by simp_all
  have "log_value ((L @ [x]) @ X) = set_values t (map snd X) ((log_value L)((t, k) := v))"
    unfolding Cons.IH [OF X] unfolding x log_value_snoc [OF k] ..
  then show ?case unfolding x list.map snd_conv set_values_Cons append_assoc append_Cons append_Nil .
qed (simp add: set_values_def)

lemma set_values_user:
  "\<forall>x. user_value (S x) \<Longrightarrow> \<forall>(k, v) \<in> set kvs. user_value v \<Longrightarrow> user_value (set_values t kvs S x)"
proof (induction kvs arbitrary: S)
  case (Cons kv kvs)
  obtain k v where kv: "kv = (k, v)" by fastforce
  have "\<forall>y. user_value ((S((t, k) := v)) y)" using Cons.prems kv by simp
  then show ?case unfolding kv set_values_Cons using Cons.IH Cons.prems(2) by simp
next
  case Nil
  then show ?case unfolding set_values_def by (simp only: fold.simps id_apply)
qed

lemma small_fits: "key_ok k \<Longrightarrow> small_value v \<Longrightarrow> fits k v"
  using fits_small by (auto simp: small_value_def user_value_def)

lemma run_step:
  assumes inv: "run_inv L D M r" and e: "env_ok e" and x: "logged_op x" and n: "length L + op_writes x \<le> 25000"
  shows "\<exists>r' L' D' M'. router_step e x r = (fst (map_step x (log_value L)), r') \<and> run_inv L' D' M' r' \<and>
    log_value L' = snd (map_step x (log_value L)) \<and> length L' = length L + op_writes x"
proof -
  have r: "router_inv (length L) (log_value L) (\<lambda>x. {log_value L x}) r" and d: "dur_inv L D M r"
    and u: "\<forall>x. user_value (log_value L x)" using inv by (auto simp: run_inv_def)
  have nm: "\<not> is_manifest (log_value L y)" for y using u unfolding user_value_def by blast
  show ?thesis
  proof (cases x)
    case (Set t k v)
    then have a: "t \<noteq> []" "key_ok k" "recovery_table k = t" "small_value v" "length L < 25000" using x n by auto
    have "Suc (length L) < 2 ^ 31" using a(5) by simp
    from dur_router_set [OF d r e a(1) this a(2-4) nm a(5)] obtain r' M' where
      r': "router_set e t k v r = (Inr (), r')" "dur_inv (L @ [(length L, k, v)]) D M' r'"
      "router_inv (Suc (length L)) ((log_value L)((t, k) := v)) ((\<lambda>x. {log_value L x})((t, k) := {v})) r'" by blast
    let ?L = "L @ [(length L, k, v)]"
    have V: "log_value ?L = (log_value L)((t, k) := v)" by (rule log_value_snoc [OF a(3)])
    have "(\<lambda>x. {log_value L x})((t, k) := {v}) = (\<lambda>x. {log_value ?L x})" unfolding V by (simp add: fun_eq_iff)
    then have "router_inv (length ?L) (log_value ?L) (\<lambda>x. {log_value ?L x}) r'" using r'(3) V by simp
    moreover have "\<forall>x. user_value (log_value ?L x)" unfolding V using u a(4) by (simp add: small_value_def)
    ultimately have "run_inv ?L D M' r'" using r'(2) by (simp add: run_inv_def)
    moreover have "k \<noteq> []" using a(2) by (simp add: key_ok_def)
    ultimately show ?thesis
      using Set r'(1) V a(1) by (intro exI [of _ r'] exI [of _ ?L] exI [of _ D] exI [of _ M']) simp
  next
    case (Set_Many t kvs)
    then have a: "t \<noteq> []" "kvs \<noteq> []" "distinct (map fst kvs)" "\<forall>(k, v) \<in> set kvs. fits k v"
      "\<forall>(k, v) \<in> set kvs. recovery_table k = t" "\<forall>(k, v) \<in> set kvs. user_value v" "length L + length kvs \<le> 25000"
      using x n small_fits by (auto simp: small_value_def)
    have "length L + length kvs < 2 ^ 31" using a(7) by simp
    from dur_set_many [OF d r e a(1) this a(4,3,2,5,7)] obtain r' M' X where
      r': "set_many e t kvs r = (Inr (), r')" "dur_inv (L @ X) D M' r'" "map snd X = kvs"
      "router_inv (length L + length kvs) (set_values t kvs (log_value L))
        (set_values t (map (\<lambda>(k, v). (k, {v})) kvs) (\<lambda>x. {log_value L x})) r'" by blast
    have "\<forall>x \<in> set X. recovery_table (fst (snd x)) = t" using a(5) unfolding r'(3) [symmetric] by auto
    then have V: "log_value (L @ X) = set_values t kvs (log_value L)" using log_value_append r'(3) by blast
    have len: "length X = length kvs" using arg_cong [OF r'(3), of length] by simp
    have "run_inv (L @ X) D M' r'"
      using r'(2,4) V len set_values_user [OF u a(6)] by (simp add: run_inv_def set_values_singletons)
    then show ?thesis
      using Set_Many r'(1) V a(1,2) len by (intro exI [of _ r'] exI [of _ "L @ X"] exI [of _ D] exI [of _ M']) simp
  next
    case (Get t k)
    then have a: "t \<noteq> []" "k \<noteq> []" using x by (auto simp: key_ok_def)
    obtain r' where r': "get_internal e t k r = (Inr (log_value L (t, k)), r')"
      "router_inv (length L) (log_value L) (\<lambda>x. {log_value L x}) r'"
      using get_internal_ok [OF r e a] by (metis singletonD)
    have g: "router_get e t k r = (Inr (log_value L (t, k)), r')" using a r'(1) nm by (simp add: router_get_def)
    have "dur_inv L D M r'" using dur_quiet [OF d] quiet_router_get [of r e t k] g by simp
    then show ?thesis using Get g a r'(2) u by (intro exI [of _ r'] exI [of _ L] exI [of _ D] exI [of _ M]) (simp add: run_inv_def)
  next
    case (Flush_Stage t)
    then have t: "t \<noteq> []" using x by simp
    have n': "length L < 2 ^ 31" using n by simp
    obtain r' where r': "flush_step e t r = (Inr (), r')" "router_inv (length L) (log_value L) (\<lambda>x. {log_value L x}) r'"
    proof (cases "dget (tables r) t")
      case None
      then show thesis using that [of r] r by (simp add: flush_step_def)
    next
      case (Some tb)
      then show thesis using that flush_step_ok [OF r t n' Some] by metis
    qed
    obtain M' where "dur_inv L D M' r'" using dur_flush_step [OF d r'(1)] by blast
    then show ?thesis using Flush_Stage r' u by (intro exI [of _ r'] exI [of _ L] exI [of _ D] exI [of _ M']) (simp add: run_inv_def)
  next
    case Writer_Round
    let ?r = "r\<lparr>rwal := writer_round (stamps e) (rwal r)\<rparr>"
    have "length L \<le> 25000" using n by simp
    then obtain D' M' where "dur_inv L D' M' ?r" using dur_writer [OF d] by blast
    moreover have "router_inv (length L) (log_value L) (\<lambda>x. {log_value L x}) ?r" by (rule router_inv_wal [OF r])
    ultimately show ?thesis using Writer_Round u
      by (intro exI [of _ ?r] exI [of _ L] exI [of _ D'] exI [of _ M']) (simp add: run_inv_def)
  qed
qed

subsection \<open>The files at a crash\<close>

text \<open>The file of a table holds all that neither of its memtables holds, at every stage of a flush.\<close>

lemma table_at_crash:
  assumes tb: "table_inv n S tb" and sp: "table_split L dn tb F I A"
  obtains h D where "handler_of tb = Some h" "file_holds n D t (Some (tbl_file h))" "\<And>k. k \<notin> log_keys (I @ A) \<Longrightarrow> D k = S k"
proof -
  obtain h es0 es1 where a: "handler_of tb = Some h" "disk_inv h" "slot_list (table_view h) = es0 @ es1"
    "all_packed (es0 @ es1)" "dget (disk_index tb) = dget (fold index_entry es0 [])" "mem_ok (active_memtable tb)"
    "\<forall>m. immutable_memtable tb = Some m \<longrightarrow> mem_ok m" "stage_ok (job tb) (immutable_memtable tb) es0 es1"
    "weight h tb \<le> 2 * n" "S = table_value (active_memtable tb) (immutable_memtable tb) (disk_value es0)"
    by (rule table_invE [OF tb])
  have holds: "file_holds n (disk_value (es0 @ es1)) t (Some (tbl_file h))"
    using a(2-4,9) disk_inv_reopened [OF a(2), of t] by (simp add: file_holds_def Let_def weight_def)
  have "disk_value (es0 @ es1) k = S k" if k: "k \<notin> log_keys (I @ A)" for k
  proof -
    have act: "mem_value (active_memtable tb) k = None" using table_splitD(3) [OF sp, of k] k by fastforce
    have imm: "mem_value m k = None" if "immutable_memtable tb = Some m" for m
      using table_splitD(6) [OF sp that, of k] k by fastforce
    have S: "S k = disk_value es0 k"
      unfolding a(10) table_value_def act using imm by (simp split: option.split)
    show ?thesis
    proof (cases "\<exists>ups dels txs. job tb = Some (Written ups dels txs)")
      case True
      then obtain m where m: "immutable_memtable tb = Some m"
        "map (\<lambda>e. snd (snd e)) es1 = map (\<lambda>r. Some (snd r)) (in_order_traversal m)"
        using a(8) by (auto simp: stage_ok_def)
      then show ?thesis using disk_value_flushed [of m es1 es0 k] a(7) imm [OF m(1)] S by simp
    next
      case False
      then have "es1 = []" using a(8) by (auto simp: stage_ok_def split: option.splits flush_job.splits)
      then show ?thesis using S by simp
    qed
  qed
  with holds that a(1) show thesis by blast
qed

text \<open>The entries that a restart replays over the values \<open>D\<close> of the files give the log's values back.\<close>

definition unmarked :: "nat set \<Rightarrow> log_entry list \<Rightarrow> log_entry list" where
  "unmarked M L = filter (\<lambda>x. fst x \<notin> M) L"

lemma of_table_unmarked: "of_table t (unmarked M L) = unmarked M (of_table t L)"
  by (simp add: of_table_def unmarked_def conj_commute)

lemma table_replay:
  assumes inv: "run_inv L D M r" and t: "t \<noteq> []" and logged: "fst ` set L \<inter> ram_completed_tx (rwal r) \<subseteq> M"
  shows "\<exists>V. file_holds (length L) V t (disk_files r t) \<and>
    (\<forall>k. (case last_value (of_table t (unmarked M L)) k of None \<Rightarrow> V k | Some v \<Rightarrow> v) = log_value L (t, k))"
proof -
  let ?S = "\<lambda>k. log_value L (t, k)"
  have r: "router_inv (length L) (log_value L) (\<lambda>x. {log_value L x}) r" and d: "dur_inv L D M r"
    using inv by (auto simp: run_inv_def)
  show ?thesis
  proof (cases "dget (tables r) t")
    case None
    then have "of_table t L = []" using d by (auto simp: dur_inv_def dest!: spec [of _ t])
    then have "of_table t (unmarked M L) = []" unfolding of_table_unmarked by (simp add: unmarked_def)
    moreover have "file_holds (length L) ?S t (disk_files r t)"
      using r t None unfolding router_inv_def disk_files_def by (metis option.simps(4))
    ultimately show ?thesis by (intro exI [of _ ?S]) (simp add: last_value_def)
  next
    case (Some tb)
    then obtain F I A where sp: "table_split (of_table t L) (M \<union> ram_completed_tx (rwal r)) tb F I A"
      using d by (auto simp: dur_inv_def table_log_def dest!: spec [of _ t])
    note a = table_splitD [OF sp]
    obtain h V where h: "handler_of tb = Some h" "file_holds (length L) V t (Some (tbl_file h))"
      "\<And>k. k \<notin> log_keys (I @ A) \<Longrightarrow> V k = ?S k"
      by (rule table_at_crash [OF router_table [OF r t Some] sp]) blast
    have "set F \<subseteq> set L" using a(1) of_table_members by (metis Un_iff set_append subsetI)
    then have "fst ` set F \<subseteq> M" using a(9) logged by blast
    moreover have "fst ` set (I @ A) \<inter> M = {}" using a(10) by blast
    ultimately have "unmarked M F = []" "unmarked M (I @ A) = I @ A"
      unfolding unmarked_def filter_empty_conv filter_id_conv by blast+
    then have u: "of_table t (unmarked M L) = I @ A"
      unfolding of_table_unmarked unfolding a(1) unfolding unmarked_def by simp
    have "(case last_value (I @ A) k of None \<Rightarrow> V k | Some v \<Rightarrow> v) = ?S k" for k
    proof (cases "last_value (I @ A) k")
      case None
      then have "k \<notin> log_keys (I @ A)" by (simp only: last_value_None not_False_eq_True)
      then have "V k = ?S k" by (rule h(3))
      then show ?thesis unfolding None by simp
    next
      case (Some v)
      then have "last_value (of_table t L) k = Some v" unfolding a(1) last_value_append [of F] by simp
      then show ?thesis unfolding Some log_value_def by simp
    qed
    moreover have "disk_files r t = Some (tbl_file h)" using Some h(1) by (simp add: disk_files_def)
    ultimately show ?thesis unfolding u using h(2) by auto
  qed
qed

lemma entries_sound: "list_all2 entry_of L recs \<Longrightarrow> rec \<in> set recs \<Longrightarrow> sound_record rec"
  by (induction L recs rule: list_all2_induct) (auto simp: entry_of_def sound_record_def)

lemma unmarked_entries:
  "list_all2 entry_of L recs \<Longrightarrow> list_all2 entry_of (unmarked M L) (pending recs M)"
  by (induction L recs rule: list_all2_induct) (auto simp: unmarked_def entry_of_def)

lemma replay_at_crash:
  assumes inv: "run_inv L D M r" and flushed: "wal_buffer (rwal r) = []"
  obtains S where "tables_hold (length L) S (disk_files r)" "replayed (pending D M) S = log_value L"
    "\<forall>rec \<in> set (pending D M). sound_record rec" "wal_inv (rwal r) D M" "length D = length L"
proof -
  have l: "wal_inv (rwal r) D M" "list_all2 entry_of L D" "\<forall>tx \<in> ram_completed_tx (rwal r). tx \<in> fst ` set D \<longrightarrow> tx \<in> M"
    using inv flushed by (auto simp: run_inv_def dur_inv_def log_inv_def)
  have txs: "fst ` set L = fst ` set D" using list_all2_entry_txs [OF l(2)] by (metis list.set_map)
  have logged: "fst ` set L \<inter> ram_completed_tx (rwal r) \<subseteq> M" using l(3) txs by blast
  obtain V where V: "\<And>t. t \<noteq> [] \<Longrightarrow> file_holds (length L) (V t) t (disk_files r t) \<and>
      (\<forall>k. (case last_value (of_table t (unmarked M L)) k of None \<Rightarrow> V t k | Some v \<Rightarrow> v) = log_value L (t, k))"
    using table_replay [OF inv _ logged] by metis
  define S where "S = (\<lambda>(t, k). if t = [] then log_value L ([], k) else V t k)"
  have th: "tables_hold (length L) S (disk_files r)" using V by (simp add: tables_hold_def S_def)
  have "replayed (pending D M) S (t, k) = log_value L (t, k)" for t k
  proof (cases "t = []")
    case True
    then have "of_table t (unmarked M L) = []" by (simp add: of_table_def)
    then show ?thesis using True unfolding replayed_entries [OF unmarked_entries [OF l(2)]] by (simp add: last_value_def S_def)
  next
    case False
    then have "S (t, k) = V t k" by (simp add: S_def)
    then show ?thesis using V [OF False] unfolding replayed_entries [OF unmarked_entries [OF l(2)]]
      by (simp cong: option.case_cong)
  qed
  then have "replayed (pending D M) S = log_value L" by (simp add: fun_eq_iff split_paired_all)
  moreover have "\<forall>rec \<in> set (pending D M). sound_record rec" using entries_sound [OF l(2)] by simp
  moreover have "length D = length L" using l(2) by (simp add: list_all2_lengthD)
  ultimately show thesis using that th l(1) by blast
qed

subsection \<open>The database over the log\<close>

text \<open>The engine of an open database, and the one that the next call opens when nothing is to be recovered.\<close>

definition opens :: "database \<Rightarrow> router \<Rightarrow> bool" where
  "opens d r \<longleftrightarrow> (case engine d of
     Some r' \<Rightarrow> r' = r
   | None \<Rightarrow> wal_init (disk_log d) = Inr (rwal r) \<and> fst (read_wal (disk_log d)) = [] \<and>
       router_init (rwal r) (memtable_size d) (cache_capacity d) (disk_tables d) = Inr r)"

definition db_run_inv :: "log_entry list \<Rightarrow> key_map \<Rightarrow> database \<Rightarrow> bool" where
  "db_run_inv L W d \<longleftrightarrow> 1 \<le> memtable_size d \<and> 1 \<le> cache_capacity d \<and> under (log_value L) W \<and>
     (\<exists>r D M. opens d r \<and> run_inv L D M r)"

definition db_logged :: "db_op \<Rightarrow> bool" where
  "db_logged x \<longleftrightarrow> (case routed x of None \<Rightarrow> True | Some y \<Rightarrow> logged_op y)"

definition db_writes :: "db_op \<Rightarrow> nat" where
  "db_writes x = (case routed x of None \<Rightarrow> 0 | Some y \<Rightarrow> op_writes y)"

abbreviation background :: "db_op \<Rightarrow> bool" where
  "background x \<equiv> x = DB_Writer_Round \<or> (\<exists>t. x = DB_Flush_Stage t)"

lemma step_forms:
  shows "routed x = None \<Longrightarrow> db_step e st x d = (Inl ValueError, d) \<and> db_map_step x W = (Inl ValueError, W)"
    and "background x \<Longrightarrow> routed x = Some y \<Longrightarrow> db_step e st x d = db_background (router_step e y) d \<and>
      db_map_step x W = (Inr PyNone, W)"
    and "\<not> background x \<Longrightarrow> routed x = Some y \<Longrightarrow> db_step e st x d = on_engine e st (router_step e y) d"
  by (cases x; auto simp: db_set_def db_set_many_def db_get_def db_delete_def on_engine_bind router_step_calls split: if_splits)+

lemma routed_map:
  assumes "routed x = Some y" and "under V W"
  shows "fst (map_step y V) = fst (db_map_step x W)" and "under (snd (map_step y V)) (snd (db_map_step x W))"
  using assms by (cases x; auto simp: under_def [of V W] under_set_values intro: under_update split: if_splits)+

lemma ensure_opens:
  assumes "opens d r" and "logging_ok st" "archive_ok st"
  shows "ensure_initialized e st d = (Inr (), d\<lparr>engine := Some r\<rparr>)"
proof (cases "engine d")
  case None
  then have "wal_files (rwal r) = disk_log d" using assms(1) by (auto simp: opens_def intro: wal_init_files)
  then have "recover_transactions e r = (0, r)" using assms(1) None by (simp add: opens_def recover_transactions_def)
  then show ?thesis using assms None by (simp add: opens_def ensure_initialized_def)
qed (use assms in \<open>simp add: opens_def ensure_initialized_def\<close>)

lemma db_run_step:
  assumes inv: "db_run_inv L W d" and e: "env_ok e" and st: "logging_ok st" "archive_ok st"
    and x: "db_logged x" and n: "length L + db_writes x \<le> 25000"
  shows "\<exists>d' L'. db_step e st x d = (fst (db_map_step x W), d') \<and> db_run_inv L' (snd (db_map_step x W)) d' \<and>
    length L' = length L + db_writes x"
proof (cases "routed x")
  case None
  then show ?thesis using inv step_forms(1) [OF None] by (auto simp: db_writes_def)
next
  case (Some y)
  obtain r D M where r: "opens d r" "run_inv L D M r" and u: "under (log_value L) W"
    and p: "1 \<le> memtable_size d" "1 \<le> cache_capacity d" using inv by (auto simp: db_run_inv_def)
  have y: "logged_op y" "length L + op_writes y \<le> 25000" using x n Some by (simp_all add: db_logged_def db_writes_def)
  obtain r' L' D' M' where s: "router_step e y r = (fst (map_step y (log_value L)), r')" "run_inv L' D' M' r'"
    "log_value L' = snd (map_step y (log_value L))" "length L' = length L + op_writes y"
    using run_step [OF r(2) e y] by blast
  have m: "fst (map_step y (log_value L)) = fst (db_map_step x W)" "under (log_value L') (snd (db_map_step x W))"
    using routed_map [OF Some u] s(3) by simp_all
  let ?d = "d\<lparr>engine := Some r'\<rparr>"
  have new: "db_run_inv L' (snd (db_map_step x W)) ?d"
    using p m(2) s(2) by (auto simp: db_run_inv_def opens_def)
  have w: "db_writes x = op_writes y" using Some by (simp add: db_writes_def)
  show ?thesis
  proof (cases "background x")
    case False
    have "db_step e st x d = (fst (db_map_step x W), ?d)"
      using step_forms(3) [OF False Some, of e st d] ensure_opens [OF r(1) st, of e] s(1) m(1) by (simp add: on_engine_def)
    then show ?thesis using new w s(4) by auto
  next
    case True
    note f = step_forms(2) [OF True Some]
    show ?thesis
    proof (cases "engine d")
      case None
      have "db_writes x = 0" using True by (auto simp: db_writes_def)
      moreover have "db_step e st x d = (fst (db_map_step x W), d)" "snd (db_map_step x W) = W"
        using f None by (simp_all add: db_background_def)
      ultimately show ?thesis using inv by auto
    next
      case (Some r0)
      then have "r0 = r" using r(1) by (simp add: opens_def)
      then have "db_step e st x d = (fst (db_map_step x W), ?d)" using f Some s(1) m(1) by (simp add: db_background_def)
      then show ?thesis using new w s(4) by auto
    qed
  qed
qed

lemma db_run_history:
  assumes "db_run_inv L W d" and "env_ok e" and "logging_ok st" "archive_ok st"
    and "\<forall>x \<in> set xs. db_logged x" and "length L + sum_list (map db_writes xs) \<le> 25000"
  shows "\<exists>L'. fst (db_history e st xs d) = fst (db_map_history xs W) \<and> length L' = length L + sum_list (map db_writes xs) \<and>
    db_run_inv L' (snd (db_map_history xs W)) (snd (db_history e st xs d))"
  using assms
proof (induction xs arbitrary: L W d)
  case (Cons x xs)
  have "db_logged x" "length L + db_writes x \<le> 25000" using Cons.prems(5,6) by simp_all
  then obtain d1 L1 where d1: "db_step e st x d = (fst (db_map_step x W), d1)"
    "db_run_inv L1 (snd (db_map_step x W)) d1" "length L1 = length L + db_writes x"
    using db_run_step [OF Cons.prems(1-4)] by blast
  have "\<forall>x \<in> set xs. db_logged x" "length L1 + sum_list (map db_writes xs) \<le> 25000"
    using Cons.prems(5,6) d1(3) by simp_all
  from Cons.IH [OF d1(2) Cons.prems(2-4) this] d1(1,3) show ?case by (auto simp: split_beta add.assoc)
qed auto

lemma new_database_run:
  assumes "1 \<le> mx" and "1 \<le> cap"
  shows "db_run_inv [] (\<lambda>_. PyNone) (new_database mx cap)"
proof -
  obtain w where w: "wal_init [] = Inr w" "wal_files w = []" "wal_buffer w = []" "global_tx_id w = 0" "ram_completed_tx w = {}"
    by (auto simp: wal_init_def restore_global_tx_id_def)
  obtain r where r: "router_init w mx cap (\<lambda>_. None) = Inr r" using assms by (simp add: router_init_def)
  have th: "tables_hold 0 (\<lambda>_. PyNone) (\<lambda>_. None)" by (simp add: tables_hold_def file_holds_def)
  note s = router_started [OF r th]
  have none: "log_value [] = (\<lambda>_. PyNone)" by (simp add: log_value_def last_value_def fun_eq_iff)
  have "wal_inv w [] {}" using wal_run_inv [OF wal_run.start [OF w(1)]] .
  then have "dur_inv [] [] {} r" using w(3-5) s(3,4) by (simp add: dur_inv_def log_inv_def)
  moreover have "user_value PyNone" by (simp add: user_value_def value_bytes_def lit_def utf8_char_def is_manifest_def)
  ultimately have "run_inv [] [] {} r" using s(1) none by (simp add: run_inv_def)
  moreover have "opens (new_database mx cap) r"
    using w(1) r s(3) by (simp add: opens_def new_database_def read_wal_def sorted_ids_def dkeys_def)
  ultimately show ?thesis using assms none by (auto simp: db_run_inv_def new_database_def under_def)
qed

subsection \<open>After the crash\<close>

text \<open>A database whose start succeeds answers as the started one.\<close>

lemma start_then_history:
  assumes "ensure_initialized e st d = (Inr (), d1)" and "engine d = None" and "db_inv e n W d1"
    and "logging_ok st" "archive_ok st" and "env_ok e" and "\<And>x. decompress e (compress e x) = Inr x"
    and "\<forall>x \<in> set ys. db_op_ok x" and "n + db_history_cost e ys W < 2 ^ 31"
  shows "fst (db_history e st ys d) = fst (db_map_history ys W)"
  using assms
proof (induction ys arbitrary: n W d1)
  case (Cons y ys)
  have y: "db_op_ok y" "n + db_cost e y W < 2 ^ 31" using Cons.prems(8,9) by simp_all
  have same: ?case if s: "db_step e st y d = (fst (db_map_step y W), d)" "snd (db_map_step y W) = W"
  proof -
    have "\<forall>x \<in> set ys. db_op_ok x" "n + db_history_cost e ys W < 2 ^ 31" using Cons.prems(8,9) s(2) by simp_all
    from Cons.IH [OF Cons.prems(1-7) this] show ?thesis using s by (simp add: split_beta)
  qed
  show ?case
  proof (cases "routed y")
    case None
    then show ?thesis using same step_forms(1) [OF None] by simp
  next
    case (Some z)
    show ?thesis
    proof (cases "background y")
      case True
      then show ?thesis using same step_forms(2) [OF True Some] Cons.prems(2) by (simp add: db_background_def)
    next
      case False
      have "ensure_initialized e st d1 = (Inr (), d1)"
        using Cons.prems(1,2) by (auto simp: ensure_initialized_def split: if_splits sum.splits)
      then have "db_step e st y d = db_step e st y d1"
        using step_forms(3) [OF False Some] Cons.prems(1) by (simp add: on_engine_def)
      then have "db_history e st (y # ys) d = db_history e st (y # ys) d1" by simp
      moreover have "fst (db_history e st (y # ys) d1) = fst (db_map_history (y # ys) W)"
        using db_history_refines [OF Cons.prems(3-8,9)] by simp
      ultimately show ?thesis by simp
    qed
  qed
qed simp

lemma run_client:
  assumes "router_inv n (log_value L) (\<lambda>x. {log_value L x}) r" and "run_inv L D M r'"
  shows "client_inv e n (log_value L) r"
proof -
  have "view_ok e (log_value L) (log_value L) (\<lambda>x. {log_value L x})"
    using assms(2) unfolding run_inv_def view_ok_def stored_as_def by blast
  then show ?thesis unfolding client_inv_def using assms(1) by blast
qed

lemma crash_then_history:
  assumes inv: "db_run_inv L W d" and n: "length L \<le> 25000"
    and flushed: "\<And>r. engine d = Some r \<Longrightarrow> wal_buffer (rwal r) = []"
    and st: "logging_ok st" "archive_ok st" and e: "env_ok e" and z: "\<And>x. decompress e (compress e x) = Inr x"
    and ys: "\<forall>x \<in> set ys. db_op_ok x" "db_history_cost e ys W < 2 ^ 30"
  shows "fst (db_history e st ys (db_crash d)) = fst (db_map_history ys W)"
proof -
  obtain r D M where r: "opens d r" "run_inv L D M r" and u: "under (log_value L) W"
    and p: "1 \<le> memtable_size d" "1 \<le> cache_capacity d" using inv by (auto simp: db_run_inv_def)
  show ?thesis
  proof (cases "engine d")
    case None
    have "client_inv e (length L) (log_value L) r" using r(2) by (intro run_client) (auto simp: run_inv_def)
    then have "db_inv e (length L) W d" using None r(1) u unfolding db_inv_def opens_def by auto
    from db_history_refines [OF this st e z ys(1)] show ?thesis using n ys(2) None by (simp add: db_crash_def)
  next
    case (Some r0)
    let ?d = "db_crash d"
    have eng: "engine d = Some r" using Some r(1) by (simp add: opens_def)
    obtain S where S: "tables_hold (length L) S (disk_files r)" "replayed (pending D M) S = log_value L"
      "\<forall>rec \<in> set (pending D M). sound_record rec" "wal_inv (rwal r) D M" "length D = length L"
      by (rule replay_at_crash [OF r(2) flushed [OF eng]])
    have d: "disk_log ?d = wal_files (rwal r)" "engine ?d = None" "1 \<le> memtable_size ?d" "1 \<le> cache_capacity ?d"
      "tables_hold (length L) S (disk_tables ?d)" using eng p S(1) by (simp_all add: db_crash_def)
    let ?n = "length L + length (pending D M)"
    obtain r1 where r1: "ensure_initialized e st ?d = (Inr (), ?d\<lparr>engine := Some r1\<rparr>)"
      "router_inv ?n (replayed (pending D M) S) (\<lambda>x. {replayed (pending D M) S x}) r1"
      by (rule open_recovers [OF S(4) d(1) e st d(2-5) S(3)])
    have "client_inv e ?n (log_value L) r1" using run_client [OF _ r(2)] r1(2) unfolding S(2) by blast
    then have db: "db_inv e ?n W (?d\<lparr>engine := Some r1\<rparr>)" using u by (auto simp: db_inv_def)
    have "length (pending D M) \<le> length L" using S(5) by (metis length_filter_le)
    then have "?n + db_history_cost e ys W < 2 ^ 31" using n ys(2) by simp
    from start_then_history [OF r1(1) d(2) db st e z ys(1) this] show ?thesis .
  qed
qed

lemma db_history_snoc:
  "snd (db_history e st (xs @ [x]) d) = snd (db_step e st x (snd (db_history e st xs d)))"
  by (induction xs arbitrary: d) (simp_all add: split_beta)

lemma writer_flushes:
  assumes "db_run_inv L W d" and "length L \<le> 25000" and "engine (snd (db_step e st DB_Writer_Round d)) = Some r"
  shows "wal_buffer (rwal r) = []"
proof (cases "engine d")
  case None
  then show ?thesis using assms(3) by (simp add: db_background_def)
next
  case (Some r0)
  then obtain D M where "run_inv L D M r0" using assms(1) by (auto simp: db_run_inv_def opens_def)
  then have "dur_inv L D M r0" by (simp add: run_inv_def)
  from dur_writer [OF this assms(2), of "stamps e"] show ?thesis using Some assms(3) by (auto simp: db_background_def)
qed


lemma takeWhile_colon: "58 \<notin> set t \<Longrightarrow> takeWhile (\<lambda>c. c \<noteq> 58) (t @ 58 # k) = t"
  by (induction t) auto

lemma recovery_table_namespaced: "t \<noteq> [] \<Longrightarrow> 58 \<notin> set t \<Longrightarrow> recovery_table (namespaced t k) = t"
  by (auto simp: recovery_table_def namespaced_def Let_def takeWhile_colon)


end
