(* ===== verification/Router_Total.thy ===== *)
theory Router_Total
  imports Router_Map
begin

text \<open>
  What always ends: the flush of a table, whichever of its stages raise, and the decoding of a record, whatever
  its bytes are.
\<close>

subsection \<open>Flushes\<close>

definition pending :: "pystr \<Rightarrow> router \<Rightarrow> nat" where
  "pending t r = (case dget (tables r) t of None \<Rightarrow> 0 | Some tb \<Rightarrow> stages_left (job tb))"

lemma pending_put [simp]: "pending t (put_table t tb r) = stages_left (job tb)"
  by (simp add: pending_def)

lemma pending_frame [simp]: "pending t (count_flush d r) = pending t r" "pending t (rwal_update f r) = pending t r"
  by (simp_all add: pending_def)

lemma pending_dropped [simp]:
  "pending t (case dget (tables r) t of None \<Rightarrow> r | Some tb \<Rightarrow> put_table t (tb\<lparr>job := None\<rparr>) r) = 0"
  by (simp split: option.split) (simp add: pending_def)

lemma pending_flush_end [simp]: "pending t (flush_end t r) = 0"
  by (simp add: flush_end_def)

lemma on_handler_pending:
  assumes "on_handler t r f = (x, r')"
  shows "pending t r' = pending t r" and "dget (tables r') t = None \<longleftrightarrow> dget (tables r) t = None"
  using assms by (auto simp: on_handler_def on_table_def pending_def split: option.splits prod.splits)

lemma flush_pages_pending:
  assumes "flush_pages e t r = (x, r')"
  shows "pending t r' \<le> 2" and "x \<noteq> Inr () \<Longrightarrow> pending t r' = 0"
proof -
  have "pending t r' \<le> 2 \<and> (x \<noteq> Inr () \<longrightarrow> pending t r' = 0)"
  proof (cases "get_table_state e t r")
    case (Pair y r1)
    show ?thesis
    proof (cases y)
      case (Inl err)
      then show ?thesis using assms Pair by (auto simp: flush_pages_def)
    next
      case (Inr u)
      then obtain tb where tb: "dget (tables r1) t = Some tb"
        using Pair by (auto simp: get_table_state_def split: option.splits sum.splits prod.splits if_splits)
      show ?thesis
      proof (cases "immutable_memtable tb")
        case None
        then show ?thesis using assms Pair Inr tb by (auto simp: flush_pages_def on_table_def)
      next
        case (Some m)
        obtain z r2 where h: "on_handler t (count_flush 1 r1) (\<lambda>_. flush_records (in_order_traversal m)) = (z, r2)"
          by (cases "on_handler t (count_flush 1 r1) (\<lambda>_. flush_records (in_order_traversal m))")
        then have "dget (tables r2) t \<noteq> None" using on_handler_pending(2) [OF h] tb by simp
        then show ?thesis using assms Pair Inr tb Some h
          by (cases z) (auto simp: flush_pages_def on_table_def Let_def split: if_splits prod.splits)
      qed
    qed
  qed
  then show "pending t r' \<le> 2" "x \<noteq> Inr () \<Longrightarrow> pending t r' = 0" by blast+
qed

text \<open>Every stage of a flush leaves fewer stages, none if it raises.\<close>

lemma flush_step_pending:
  assumes "flush_step e t r = (x, r')"
  shows "pending t r' \<le> pending t r - 1" and "x \<noteq> Inr () \<Longrightarrow> pending t r' = 0"
proof -
  have "pending t r' \<le> pending t r - 1 \<and> (x \<noteq> Inr () \<longrightarrow> pending t r' = 0)"
  proof (cases "dget (tables r) t")
    case None
    then show ?thesis using assms by (auto simp: flush_step_def pending_def)
  next
    case (Some tb)
    then have p: "pending t r = stages_left (job tb)" by (simp add: pending_def)
    show ?thesis
    proof (cases "job tb" rule: stages_left.cases)
      case 1
      then show ?thesis using assms Some p by (auto simp: flush_step_def)
    next
      case 2
      then show ?thesis using assms Some p flush_pages_pending [of e t r x r'] by (simp add: flush_step_def)
    next
      case (3 ups dels txs)
      let ?r1 = "put_table t (tb\<lparr>disk_index := dupdate (fold (\<lambda>k d. ddel d k) dels (disk_index tb)) ups,
        job := Some (Indexed txs)\<rparr>) r"
      obtain z r2 where h: "on_handler t ?r1 (\<lambda>_ h. (sync_table h, h)) = (z, r2)"
        by (cases "on_handler t ?r1 (\<lambda>_ h. (sync_table h, h))")
      then show ?thesis using assms Some p 3 on_handler_pending(1) [OF h]
        by (cases z) (auto simp: flush_step_def flush_index_def on_table_def Let_def)
    next
      case (4 txs)
      then show ?thesis using assms Some p by (auto simp: flush_step_def flush_finish_def on_table_def Let_def)
    qed
  qed
  then show "pending t r' \<le> pending t r - 1" "x \<noteq> Inr () \<Longrightarrow> pending t r' = 0" by blast+
qed

lemma pending_le: "pending t r \<le> 3"
proof -
  have "stages_left j \<le> 3" for j by (cases j rule: stages_left.cases) simp_all
  then show ?thesis by (simp add: pending_def split: option.split)
qed


subsection \<open>Records\<close>

text \<open>The errors that the scanner of JSON raises itself; running out of fuel is the only other one.\<close>

definition json_error :: "error \<Rightarrow> bool" where
  "json_error e \<longleftrightarrow> e \<in> {JSONDecodeError, ValueError, RuntimeError}"

lemma scan_string_error: "scan_string s = Inl e \<Longrightarrow> json_error e"
proof (induction s rule: scan_string.induct)
  case (1 xs)
  show ?case
  proof (cases "xs = [] \<or> hd xs = 34")
    case True
    then show ?thesis using "1.prems" by (simp add: scan_string.simps [of xs] json_error_def split: if_splits)
  next
    case False
    then show ?thesis using "1.IH" "1.prems"
      by (cases "json_char xs")
        (auto simp: scan_string.simps [of xs] json_error_def bind_result_eq_Inl split: prod.splits)
  qed
qed

lemma scan_atom_error: "scan_atom s = Inl e \<Longrightarrow> json_error e"
  by (auto simp: scan_atom_def scan_number_def Let_def json_error_def split: if_splits)

lemma parse_error:
  "parse_value n s = Inl e \<Longrightarrow> json_error e"
  "parse_items n s = Inl e \<Longrightarrow> json_error e"
  "parse_members n s = Inl e \<Longrightarrow> json_error e"
proof (induction n s and n s and n s rule: parse_value_parse_items_parse_members.induct)
  case (2 n s)
  then show ?case using scan_string_error [of "tl s" e] scan_atom_error [of s e]
    by (auto simp: bind_result_eq_Inl json_error_def split: if_splits prod.splits)
next
  case (4 n s)
  then show ?case by (auto simp: bind_result_eq_Inl json_error_def split: if_splits prod.splits)
next
  case (6 n s)
  then show ?case using scan_string_error [of "tl s" e]
    by (auto simp: bind_result_eq_Inl json_error_def split: if_splits prod.splits)
qed (simp_all add: json_error_def)

lemma loads_error: "loads s = Inl e \<Longrightarrow> e = JSONDecodeError \<or> e = ValueError"
  using loads_total [of s] parse_error(1) [of "2 * length s + 2" "skip_ws s" e]
  by (auto simp: loads_def bind_result_eq_Inl json_error_def simp del: parse_value.simps split: if_splits)


end
