(* ===== verification/Router_Oversize.thy ===== *)
theory Router_Oversize
  imports Router_Faults
begin

text \<open>
  Records larger than a page. \<open>set\<close> splits large values into chunks, \<open>set_many\<close> does not, so that it
  puts records into a memtable that no flush can write to a page.
\<close>

subsection \<open>A flush of a record that no page holds\<close>

lemma next_page_clean:
  assumes "next_page s = (Inr u, s')"
  shows "\<not> fl_dirty s'"
proof -
  obtain a s1 where w: "flush_write s = (a, s1)" by fastforce
  obtain b h where al: "allocate_page (fl_handler s1) = (b, h)" by fastforce
  show ?thesis using assms w al by (cases a; cases b) (auto simp: next_page_def split: prod.splits sum.splits)
qed

lemma flush_oversize:
  assumes inv: "fl_inv s V" and n: "length V < 2 ^ 32" and b: "4072 < length b"
  obtains s' where "flush_record key b s = (Inl PageOverflowError, s')" "disk_inv (fl_handler s')"
    "slot_list (table_view (fl_handler s')) = slot_list V"
proof -
  have "page_wf (fl_page s)" using inv unfolding fl_inv_def by blast
  then have lo: "20 \<le> lower_offset (fl_page s)" "upper_offset (fl_page s) \<le> 4096" by (simp_all add: page_wf_def)
  then have "free_space (fl_page s) \<le> 4076" by (simp add: free_space_def)
  then have "has_space_for (int (length b)) (fl_page s) = Inr False" using b by (simp add: has_space_for_def)
  moreover obtain s1 where s1: "next_page s = (Inr (), s1)" "fl_inv s1 (V @ [([], 4076)])" "free_space (fl_page s1) = 4076"
    "fl_updates s1 = fl_updates s" "fl_deletions s1 = fl_deletions s"
    by (rule next_page_ok [OF inv n])
  have "b \<noteq> []" "free_space (fl_page s1) < 4 + int (length b)" using b s1(3) by auto
  then have "insert_record b (fl_page s1) = (Inl PageOverflowError, fl_page s1)" by (rule insert_record_full)
  ultimately have "flush_record key b s = (Inl PageOverflowError, s1)"
    using s1(1) by (simp add: flush_record_def flush_insert_def)
  moreover have "\<not> fl_dirty s1" by (rule next_page_clean [OF s1(1)])
  then have "disk_inv (fl_handler s1)" "table_view (fl_handler s1) = V @ [([], 4076)]"
    using s1(2) by (auto simp: fl_inv_def)
  ultimately show thesis using that slot_list_new_page by metis
qed

lemma flush_records_oversize:
  assumes inv: "disk_inv h" and n: "page_count h + 2 < 2 ^ 32" and b: "4072 < length b"
  obtains h' where "flush_records [(key, b)] h = (Inl PageOverflowError, h')" "disk_inv h'"
    "slot_list (table_view h') = slot_list (table_view h)"
proof -
  obtain h1 where h1: "flush_begin h = (Inr (page_count h1 - 1), h1)" "disk_inv h1" "0 < page_count h1"
    "slot_list (table_view h1) = slot_list (table_view h)" "page_count h1 \<le> Suc (page_count h)"
    by (rule flush_begin_ok [OF inv])
  let ?pid = "page_count h1 - 1"
  have c: "page_count h1 = Suc ?pid" "?pid < page_count h1" using h1(3) by simp_all
  obtain p h2 where r: "read_page (int ?pid) h1 = (Inr p, h2)" using read_page_disk [OF h1(2) c(2)] by blast
  let ?s = "\<lparr>fl_handler = h2, fl_pid = ?pid, fl_page = p, fl_dirty = False, fl_updates = [], fl_deletions = []\<rparr>"
  have s: "fl_inv ?s (table_view h1)" by (rule fl_inv_fresh(1) [OF h1(2) c(1) r]) simp_all
  have "length (table_view h1) < 2 ^ 32" using h1(5) n by simp
  from flush_oversize [OF s this b, of key] obtain s' where
    s': "flush_record key b ?s = (Inl PageOverflowError, s')" "disk_inv (fl_handler s')"
    "slot_list (table_view (fl_handler s')) = slot_list (table_view h1)" by blast
  have "flush_records [(key, b)] h = (Inl PageOverflowError, fl_handler s')"
    using h1(1) r s'(1) by (simp add: flush_records_def)
  then show thesis using that s'(2,3) h1(4) by simp
qed

subsection \<open>Writing one record into an empty memtable of size one\<close>

text \<open>The table after it: the record is in the immutable memtable, its flush is submitted.\<close>

definition swapped :: "pystr \<Rightarrow> bytes \<Rightarrow> nat list \<Rightarrow> table \<Rightarrow> table" where
  "swapped k b txs tb = tb\<lparr>immutable_memtable := Some (upsert_ok k b new_memtable), immutable_tx_ids := Some txs,
     active_memtable := new_memtable, active_tx_ids := [], job := Some Submitted\<rparr>"

lemma put_put [simp]:
  "put_table t tb (put_table t tb' r) = put_table t tb r"
  "put_table t tb ((put_table t tb' r)\<lparr>rcache := c\<rparr>) = put_table t tb (r\<lparr>rcache := c\<rparr>)"
  by (simp_all add: put_table_def)

lemma single_record:
  assumes "k \<noteq> []"
  shows "memtable_insert k b new_memtable = (Inr (), upsert_ok k b new_memtable)"
    and "in_order_traversal (upsert_ok k b new_memtable) = [(k, b)]" and "entries (upsert_ok k b new_memtable) = 1"
    and "memtable_inv (upsert_ok k b new_memtable)"
proof -
  note u = upsert_lookup [OF new_memtable_inv, of k b]
  show "memtable_insert k b new_memtable = (Inr (), upsert_ok k b new_memtable)"
    by (rule memtable_insert_correct [OF new_memtable_inv assms])
  show i: "memtable_inv (upsert_ok k b new_memtable)" by (rule u(1))
  show t: "in_order_traversal (upsert_ok k b new_memtable) = [(k, b)]"
    using u(5) by simp
  show "entries (upsert_ok k b new_memtable) = 1" using entries_traversal [OF i] t by simp
qed

lemma write_swaps:
  assumes "t \<noteq> []" and k: "k \<noteq> []" and "pack_kv k v = Inr b" and "max_memtable_size r = 1"
    and gt: "\<And>w. get_table_state e t (r\<lparr>rwal := w\<rparr>) = (Inr (), put_table t tb (r\<lparr>rwal := w\<rparr>))"
    and "active_memtable tb = new_memtable" and "job tb = None" and "lfu_rel (rcache r) s"
  obtains w txs c s' where
    "set_many e t [(k, v)] r = (Inr (), put_table t (swapped k b txs tb) (r\<lparr>rwal := w, rcache := c\<rparr>))" "lfu_rel c s'"
proof -
  obtain txs w where w: "append_many_wait e [b] (rwal r) = (txs, w)" by fastforce
  obtain c s' where c: "lfu_put (t, k) v (rcache r) = (Inr (), c)" "lfu_rel c s'" using lfu_put_sim [OF assms(8)] by blast
  have "set_many e t [(k, v)] r =
      (Inr (), put_table t (swapped k b (active_tx_ids tb @ txs) tb) (r\<lparr>rwal := w, rcache := c\<rparr>))"
    using assms(1,3,4,6,7) w gt [of w] c(1) single_record(1,3) [OF k, of b]
    by (simp add: set_many_def set_many_internal_def on_table_def cache_put_def
        trigger_flush_def flush_wait_def flush_step_def Let_def swapped_def)
  then show thesis using that c(2) by blast
qed

subsection \<open>The flush fails and the next write drops the record\<close>

lemma open_table: "dget (tables r) t = Some tb \<Longrightarrow> handler_of tb = Some h \<Longrightarrow> get_table_state e t r = (Inr (), r)"
  by (simp add: get_table_state_def)

lemma flush_overflows:
  assumes tb: "dget (tables r) t = Some (swapped k b txs tb)" and k: "k \<noteq> []" and b: "4072 < length b"
    and h: "handler_of tb = Some h" "disk_inv h" "page_count h + 2 < 2 ^ 32"
  obtains r' h' where "flush_step e t r = (Inl PageOverflowError, r')"
    "dget (tables r') t = Some ((swapped k b txs tb)\<lparr>handler_of := Some h', job := None\<rparr>)"
    "rcache r' = rcache r" "max_memtable_size r' = max_memtable_size r"
proof -
  obtain h' where h': "flush_records [(k, b)] h = (Inl PageOverflowError, h')"
    by (rule flush_records_oversize [OF h(2,3) b])
  let ?tb = "(swapped k b txs tb)\<lparr>handler_of := Some h'\<rparr>"
  have "get_table_state e t r = (Inr (), r)" by (rule open_table [OF tb]) (simp add: swapped_def h(1))
  then have "flush_step e t r = (Inl PageOverflowError, flush_end t (put_table t ?tb (count_flush 1 r)))"
    using tb h(1) h' single_record(2,3) [OF k, of b]
    by (simp add: flush_step_def flush_pages_def on_table_def on_handler_def swapped_def)
  then show thesis using that by (simp add: flush_end_def)
qed

lemma fresh_table:
  assumes "router_init w mx cap (\<lambda>_. None) = Inr r" and e: "env_ok e" and t: "t \<noteq> []"
  obtains h where "\<And>w. get_table_state e t (r\<lparr>rwal := w\<rparr>) = (Inr (), put_table t (new_table\<lparr>handler_of := Some h\<rparr>) (r\<lparr>rwal := w\<rparr>))"
    "disk_inv h" "page_count h = 0"
proof -
  let ?h = "\<lparr>table_name = t, tbl_file = empty_file, is_open = True, page_cache = []\<rparr> :: meta handler"
  have init: "router_inv 0 (\<lambda>_. PyNone) (\<lambda>_. {PyNone}) r" "tables r = []" by (rule router_inv_init [OF assms(1)])+
  have n: "page_count ?h = 0" by (simp add: page_count_def empty_file_def)
  have "table_files r = (\<lambda>_. None)" using assms(1) by (auto simp: router_init_def split: if_splits)
  then have gt: "get_table_state e t (r\<lparr>rwal := w\<rparr>) = (Inr (), put_table t (new_table\<lparr>handler_of := Some ?h\<rparr>) (r\<lparr>rwal := w\<rparr>))" for w
    using e t init(2) n
    by (simp add: get_table_state_def handler_init_def create_table_def env_ok_def init_disk_index_def total_pages_def
        require_open_def new_table_def)
  obtain r1 tb where r1: "get_table_state e t (r\<lparr>rwal := rwal r\<rparr>) = (Inr (), r1)" "router_inv 0 (\<lambda>_. PyNone) (\<lambda>_. {PyNone}) r1"
    "dget (tables r1) t = Some tb" using get_table_state_ok [OF router_inv_wal [OF init(1)] e t] by metis
  then have tb: "tb = new_table\<lparr>handler_of := Some ?h\<rparr>" using gt [of "rwal r"] by auto
  obtain h where "handler_of tb = Some h" "disk_inv h" by (rule table_invE [OF router_table [OF r1(2) t r1(3)]])
  then have "disk_inv ?h" using tb by simp
  then show thesis using that gt n by blast
qed

lemma get_absent:
  assumes t: "t \<noteq> []" and k: "k \<noteq> []" "k \<noteq> k'" "k' \<noteq> []" and tb: "dget (tables r) t = Some (swapped k' b txs tb)"
    and h: "handler_of tb = Some h" and ix: "disk_index tb = []" and c: "cache (rcache r) = []"
  shows "fst (router_get e t k r) = Inr PyNone"
proof -
  obtain c' where c': "cache_get (t, k) r = (Inr PyNone, r\<lparr>rcache := c'\<rparr>)"
    using c by (intro that [of "rcache r"]) (simp add: cache_get_def lfu_get_def)
  let ?r = "r\<lparr>rcache := c'\<rparr>"
  have tb': "dget (tables ?r) t = Some (swapped k' b txs tb)" using tb by simp
  have g: "get_table_state e t ?r = (Inr (), ?r)" by (rule open_table [OF tb']) (simp add: swapped_def h)
  have m: "memtable_contains k (upsert_ok k' b new_memtable) = Inr False" "memtable_contains k (new_memtable :: (pystr, bytes) memtable) = Inr False"
    using k upsert_lookup(2) [OF new_memtable_inv, of k' b k] memtable_contains_correct [OF single_record(4) [OF k(3)], of k b]
      memtable_contains_correct [OF new_memtable_inv, of k] by simp_all
  have "fst (read_from_disk e t k ?r) = Inr PyNone"
    using g tb' ix by (simp add: read_from_disk_def on_handler_def on_table_def swapped_def h read_disk_def)
  then obtain r' where "read_from_disk e t k ?r = (Inr PyNone, r')" by (metis prod.collapse)
  then have "fst (get_internal e t k r) = Inr PyNone"
    using t k(1) c' g tb' m by (simp add: get_internal_def on_table_def swapped_def immutable_contains_def cache_found_def)
  then obtain r2 where "get_internal e t k r = (Inr PyNone, r2)" by (metis prod.collapse)
  then show ?thesis using t k(1) by (simp add: router_get_def is_manifest_def)
qed

text \<open>C31: \<open>set_many\<close> accepts a record that no page holds: it returns normally, the flush of the memtable with
  it raises \<open>PageOverflowError\<close>, and the next full memtable replaces the one that was not flushed, so
  that after a further write, which again returns normally, a \<open>get\<close> that the read cache does not answer
  returns \<open>None\<close> for the key.\<close>

theorem oversized_set_many_record_lost:
  assumes "router_init w 1 cap (\<lambda>_. None) = Inr r" and "env_ok e" and "t \<noteq> []"
    and "k \<noteq> []" and "pack_kv k v = Inr b" and "4072 < length b"
    and "k' \<noteq> []" and "pack_kv k' v' = Inr b'" and "k \<noteq> k'"
  shows "\<exists>r1 r2 r3. set_many e t [(k, v)] r = (Inr (), r1) \<and> flush_step e t r1 = (Inl PageOverflowError, r2) \<and>
    set_many e t [(k', v')] r2 = (Inr (), r3) \<and>
    fst (router_get e t k (r3\<lparr>rcache := lfu_clear (rcache r3)\<rparr>)) = Inr PyNone"
proof -
  obtain h where h: "\<And>w. get_table_state e t (r\<lparr>rwal := w\<rparr>) = (Inr (), put_table t (new_table\<lparr>handler_of := Some h\<rparr>) (r\<lparr>rwal := w\<rparr>))"
    "disk_inv h" "page_count h = 0" by (rule fresh_table [OF assms(1-3)]) blast
  let ?tb = "new_table\<lparr>handler_of := Some h\<rparr>"
  have init: "max_memtable_size r = 1" "rcache r = lfu_init cap" using assms(1) by (auto simp: router_init_def split: if_splits)
  have c0: "lfu_rel (rcache r) []" unfolding init(2) by (rule lfu_init_rel)
  obtain w1 txs c1 s1 where 1: "set_many e t [(k, v)] r = (Inr (), put_table t (swapped k b txs ?tb) (r\<lparr>rwal := w1, rcache := c1\<rparr>))"
    "lfu_rel c1 s1" by (rule write_swaps [OF assms(3-5) init(1) h(1) _ _ c0]) (simp_all add: new_table_def)
  let ?r1 = "put_table t (swapped k b txs ?tb) (r\<lparr>rwal := w1, rcache := c1\<rparr>)"
  obtain r2 h' where 2: "flush_step e t ?r1 = (Inl PageOverflowError, r2)"
    "dget (tables r2) t = Some ((swapped k b txs ?tb)\<lparr>handler_of := Some h', job := None\<rparr>)"
    "rcache r2 = c1" "max_memtable_size r2 = 1"
    by (rule flush_overflows [of ?r1 t k b txs ?tb h e]) (use assms(4,6) h(2,3) init(1) in simp_all)
  let ?tb2 = "(swapped k b txs ?tb)\<lparr>handler_of := Some h', job := None\<rparr>"
  have gt: "get_table_state e t (r2\<lparr>rwal := w\<rparr>) = (Inr (), put_table t ?tb2 (r2\<lparr>rwal := w\<rparr>))" for w
    using open_table [of "r2\<lparr>rwal := w\<rparr>" t ?tb2 h' e] 2(2) dset_same [OF 2(2)] by (simp add: put_table_def)
  obtain w3 txs' c3 s3 where 3: "set_many e t [(k', v')] r2 =
      (Inr (), put_table t (swapped k' b' txs' ?tb2) (r2\<lparr>rwal := w3, rcache := c3\<rparr>))"
    by (rule write_swaps [OF assms(3,7,8) 2(4) gt _ _ 1(2) [folded 2(3)]]) (simp_all add: swapped_def)
  let ?r3 = "put_table t (swapped k' b' txs' ?tb2) (r2\<lparr>rwal := w3, rcache := c3\<rparr>)"
  have "fst (router_get e t k (?r3\<lparr>rcache := lfu_clear (rcache ?r3)\<rparr>)) = Inr PyNone"
    by (rule get_absent [OF assms(3,4,9,7), of _ b' txs' ?tb2 h']) (simp_all add: swapped_def new_table_def lfu_clear_def)
  with 1(1) 2(1) 3 show ?thesis by blast
qed

theorem oversized_set_many_record_lost_witness:
  "\<exists>r r1 r2 r3. router_init empty_wal 1 9 (\<lambda>_. None) = Inr r \<and>
    set_many plain_env [116] [([107], PyStr (replicate 5000 97))] r = (Inr (), r1) \<and>
    flush_step plain_env [116] r1 = (Inl PageOverflowError, r2) \<and>
    set_many plain_env [116] [([108], PyNone)] r2 = (Inr (), r3) \<and>
    fst (router_get plain_env [116] [107] (r3\<lparr>rcache := lfu_clear (rcache r3)\<rparr>)) = Inr PyNone"
proof -
  let ?v = "PyStr (replicate 5000 97)"
  obtain r where r: "router_init empty_wal 1 9 (\<lambda>_. None) = Inr r" by (simp add: router_init_def)
  have u: "utf8_encode [107] = Inr (map mk_byte [107])" "utf8_encode [108] = Inr (map mk_byte [108])"
    by (rule utf8_ascii; simp)+
  have t: "bind_result (dumps ?v) utf8_encode = Inr (map mk_byte (34 # replicate 5000 97 @ [34]))"
    using utf8_ascii [of "34 # replicate 5000 97 @ [34]"] by (simp add: letters_json)
  obtain b where b: "pack_kv [107] ?v = Inr b" "4072 < length b"
    unfolding pack_kv_def t u(1) by (simp add: to_be_def)
  obtain b' where b': "pack_kv [108] PyNone = Inr b'"
    unfolding pack_kv_def u(2) by (simp add: to_be_def lit_def utf8_char_def)
  from oversized_set_many_record_lost [OF r plain_env_ok(1) _ _ b _ b'] r show ?thesis by simp
qed

end
