(* ===== verification/Py_Float.thy ===== *)
theory Py_Float
  imports Complex_Main Prelude
begin

text \<open>
  Python's floats as far as the program uses them: a finite float is the rational number it stands for,
  \<open>/\<close> on two small integers rounds to 53 bits, and the format \<open>.nf\<close> writes the decimal number with
  \<open>n\<close> places that is nearest to the value, ties to even. Infinities, NaN and the sign of zero are left
  out: the program's floats are latencies, rates and ratios.
\<close>

subsection \<open>Rounding\<close>

definition round_half_even :: "rat \<Rightarrow> int" where
  "round_half_even x =
     (let f = \<lfloor>x\<rfloor>; d = x - of_int f
      in if d < 1 / 2 then f else if 1 / 2 < d then f + 1 else if even f then f else f + 1)"

lemma round_half_even_near: "\<bar>of_int (round_half_even x) - x\<bar> \<le> 1 / 2"
  using of_int_floor_le [of x] floor_correct [of x] by (auto simp: round_half_even_def Let_def abs_le_iff)

lemma round_half_even_int [simp]: "round_half_even (of_int i) = i"
  by (simp add: round_half_even_def)

lemma round_half_even_nonneg: "0 \<le> x \<Longrightarrow> 0 \<le> round_half_even x"
  by (auto simp: round_half_even_def Let_def)

lemma round_half_even_mono:
  assumes "x \<le> y"
  shows "round_half_even x \<le> round_half_even y"
proof (rule ccontr)
  assume "\<not> round_half_even x \<le> round_half_even y"
  then have lt: "round_half_even y + 1 \<le> round_half_even x" by simp
  define a where "a = round_half_even y"
  define b where "b = round_half_even x"
  have l: "(of_int a :: rat) + 1 \<le> of_int b" using lt unfolding a_def b_def by (metis of_int_1 of_int_add of_int_le_iff)
  have "of_int b - x \<le> 1 / 2" "y - of_int a \<le> 1 / 2"
    using round_half_even_near [of x] round_half_even_near [of y] unfolding a_def b_def by linarith+
  then have xy: "x = y" using l assms by linarith
  then show False using lt by simp
qed

subsection \<open>Division of small naturals\<close>

fun bit_count :: "nat \<Rightarrow> nat" where
  "bit_count n = (if n = 0 then 0 else Suc (bit_count (n div 2)))"

declare bit_count.simps [simp del]

text \<open>\<open>a / b\<close> for \<open>a \<le> b\<close>, both below \<open>2 ^ 53\<close>: the quotient scaled to 53 bits and rounded.\<close>

definition float_div :: "nat \<Rightarrow> nat \<Rightarrow> rat" where
  "float_div a b =
     (if a = 0 then 0
      else let k = 53 + bit_count b - bit_count a;
               k' = (if a * 2 ^ k < b * 2 ^ 53 then k else k - 1)
           in of_int (round_half_even (of_nat a * 2 ^ k' / of_nat b)) / 2 ^ k')"

subsection \<open>Fixed-point formatting\<close>

text \<open>The format \<open>.nf\<close>, for \<open>n\<close> at least one.\<close>

definition pad_left :: "nat \<Rightarrow> pystr \<Rightarrow> pystr" where
  "pad_left n s = replicate (n - length s) 48 @ s"

definition fixed_point :: "nat \<Rightarrow> rat \<Rightarrow> pystr" where
  "fixed_point n x =
     (let m = nat (round_half_even (\<bar>x\<bar> * 10 ^ n))
      in (if x < 0 then [45] else []) @ dec_nat (m div 10 ^ n) @ [46] @ pad_left n (dec_nat (m mod 10 ^ n)))"

text \<open>What such a text says.\<close>

definition fixed_value :: "pystr \<Rightarrow> rat" where
  "fixed_value s =
     (let u = (if take 1 s = [45] then tl s else s);
          ip = takeWhile (\<lambda>c. c \<noteq> 46) u; fp = drop (Suc (length ip)) u
      in (if take 1 s = [45] then - 1 else 1) * (of_nat (val_dec ip) + of_nat (val_dec fp) / 10 ^ length fp))"

lemma val_dec_pad: "val_dec (replicate n 48 @ s) = val_dec s"
  by (induction n) (simp_all add: val_dec_def)

lemma length_dec_nat_le: "m < 10 ^ n \<Longrightarrow> 0 < n \<Longrightarrow> length (dec_nat m) \<le> n"
proof (induction n arbitrary: m)
  case (Suc n)
  show ?case
  proof (cases "m < 10")
    case True
    then show ?thesis by (subst dec_nat.simps) simp
  next
    case False
    then have "0 < n" using Suc.prems(1) by (cases n) auto
    moreover have "m div 10 < 10 ^ n" using Suc.prems(1) by (simp add: less_mult_imp_div_less mult.commute)
    ultimately have "length (dec_nat (m div 10)) \<le> n" using Suc.IH by blast
    then show ?thesis using False by (subst dec_nat.simps) simp
  qed
qed simp

lemma takeWhile_digits_dot: "takeWhile (\<lambda>c. c \<noteq> 46) (dec_nat m @ 46 # s) = dec_nat m"
proof -
  have "\<forall>c \<in> set (dec_nat m). c \<noteq> 46" using dec_nat_digits [of _ m] by (fastforce simp: digit_def)
  then show ?thesis by (simp add: takeWhile_append2)
qed

lemma dec_nat_no_sign: "take 1 (dec_nat m @ s) \<noteq> [45]"
proof -
  have "hd (dec_nat m) \<in> set (dec_nat m)" by (rule hd_in_set) simp
  then have "hd (dec_nat m) \<noteq> 45" using dec_nat_digits [of "hd (dec_nat m)" m] by (auto simp: digit_def)
  then show ?thesis by (cases "dec_nat m") (auto dest: arg_cong [of _ _ length])
qed

lemma fixed_value_text:
  assumes "0 < n"
  shows "fixed_value (fixed_point n x) = (if x < 0 then - 1 else 1) * of_int (round_half_even (\<bar>x\<bar> * 10 ^ n)) / 10 ^ n"
proof -
  define m where "m = nat (round_half_even (\<bar>x\<bar> * 10 ^ n))"
  define fp where "fp = pad_left n (dec_nat (m mod 10 ^ n))"
  have "length (dec_nat (m mod 10 ^ n)) \<le> n" by (rule length_dec_nat_le) (use assms in simp_all)
  then have fp: "length fp = n" "val_dec fp = m mod 10 ^ n" by (simp_all add: fp_def pad_left_def val_dec_pad)
  have m: "(of_int (round_half_even (\<bar>x\<bar> * 10 ^ n)) :: rat) = of_nat m"
    using round_half_even_nonneg [of "\<bar>x\<bar> * 10 ^ n"] by (simp add: m_def)
  have "of_nat (m div 10 ^ n) + of_nat (m mod 10 ^ n) / 10 ^ n = (of_nat m :: rat) / 10 ^ n"
  proof -
    have "m = m div 10 ^ n * 10 ^ n + m mod 10 ^ n" by (rule div_mult_mod_eq [symmetric])
    then have "(of_nat m :: rat) = of_nat (m div 10 ^ n) * 10 ^ n + of_nat (m mod 10 ^ n)"
      by (metis of_nat_add of_nat_mult of_nat_numeral of_nat_power)
    then show ?thesis by (simp add: field_simps)
  qed
  moreover have "fixed_point n x = (if x < 0 then [45] else []) @ dec_nat (m div 10 ^ n) @ 46 # fp"
    by (simp add: fixed_point_def m_def fp_def Let_def)
  ultimately show ?thesis
    using fp m dec_nat_no_sign [of "m div 10 ^ n" "46 # fp"]
    by (simp add: fixed_value_def Let_def takeWhile_digits_dot)
qed

text \<open>The written number is within half a unit of the last place.\<close>

lemma fixed_point_near:
  assumes "0 < n"
  shows "\<bar>fixed_value (fixed_point n x) - x\<bar> \<le> 1 / (2 * 10 ^ n)"
proof -
  let ?r = "of_int (round_half_even (\<bar>x\<bar> * 10 ^ n)) :: rat"
  have "\<bar>?r - \<bar>x\<bar> * 10 ^ n\<bar> \<le> 1 / 2" by (rule round_half_even_near)
  moreover have "\<bar>?r / 10 ^ n - \<bar>x\<bar>\<bar> * 10 ^ n = \<bar>(?r / 10 ^ n - \<bar>x\<bar>) * 10 ^ n\<bar>" by (rule abs_mult_pos) simp
  moreover have "(?r / 10 ^ n - \<bar>x\<bar>) * 10 ^ n = ?r - \<bar>x\<bar> * 10 ^ n" by (simp add: left_diff_distrib)
  ultimately have "\<bar>?r / 10 ^ n - \<bar>x\<bar>\<bar> * 10 ^ n \<le> 1 / 2" by simp
  then have "\<bar>?r / 10 ^ n - \<bar>x\<bar>\<bar> \<le> 1 / 2 / 10 ^ n" by (subst pos_le_divide_eq) simp_all
  then have "\<bar>?r / 10 ^ n - \<bar>x\<bar>\<bar> \<le> 1 / (2 * 10 ^ n)" by simp
  moreover have "\<bar>fixed_value (fixed_point n x) - x\<bar> = \<bar>?r / 10 ^ n - \<bar>x\<bar>\<bar>"
    unfolding fixed_value_text [OF assms] by (cases "x < 0") (simp_all add: abs_minus_commute)
  ultimately show ?thesis by simp
qed

end
