(* ===== verification/Compactor.thy ===== *)
theory Compactor
  imports Router_Oversize Py_Float
begin

text \<open>
  \<open>garbage/compactor.py\<close>. The compactor was written for a router whose \<open>_get_table_state\<close> returned
  three values and which had an attribute \<open>memtables\<close>; the router of the repository returns two values
  and has no such attribute. The whole of its code is modelled, with the unpacking of the tuple, the
  attribute lookup and the call of a property as Python does them; the first theorem shows that no
  compaction ever runs, the second what the code behind the failing lines would do.
\<close>

subsection \<open>Tuples, attributes and calls\<close>

text \<open>What \<open>_get_table_state\<close> returns is a tuple of two references; unpacking it into three names fails.\<close>

datatype state_ref = Lock_Of pystr | Handler_Of pystr

definition state_tuple :: "env \<Rightarrow> pystr \<Rightarrow> router \<Rightarrow> (router, state_ref list) step_result" where
  "state_tuple e t r = bind_step (get_table_state e t r) (\<lambda>_ r1. (Inr [Lock_Of t, Handler_Of t], r1))"

definition unpack3 :: "'a list \<Rightarrow> ('a \<times> 'a \<times> 'a) result" where
  "unpack3 xs = (case xs of [a, b, c] \<Rightarrow> Inr (a, b, c) | _ \<Rightarrow> Inl ValueError)"

text \<open>The attributes that \<open>Router.__init__\<close> gives the router.\<close>

definition router_attributes :: "string list" where
  "router_attributes = [''wal'', ''active_memtables'', ''immutable_memtables'', ''active_tx_ids'', ''immutable_tx_ids'',
     ''locks'', ''table_handlers'', ''disk_index'', ''max_memtable_size'', ''cache'', ''logger'', ''structured_logger'',
     ''global_lock'', ''flush_condition'', ''executor'', ''flush_futures'']"

definition get_attribute :: "string \<Rightarrow> unit result" where
  "get_attribute name = (if name \<in> set router_attributes then Inr () else Inl AttributeError)"

text \<open>\<open>total_pages\<close> is a property: \<open>handler.total_pages()\<close> calls the number that it returns.\<close>

definition call_int :: "nat \<Rightarrow> nat result" where
  "call_int n = Inl TypeError"

text \<open>An operation of the handler that the third name refers to.\<close>

definition on_ref ::
  "state_ref \<Rightarrow> router \<Rightarrow> (meta handler \<Rightarrow> (meta handler, 'a) step_result) \<Rightarrow> (router, 'a) step_result" where
  "on_ref x r f = (case x of Lock_Of _ \<Rightarrow> (Inl AttributeError, r) | Handler_Of t \<Rightarrow> on_handler t r (\<lambda>_. f))"

subsection \<open>Analysis\<close>

definition tombstones :: "meta page \<Rightarrow> nat" where
  "tombstones p = length (filter (\<lambda>(off, len). off = 0 \<and> len = 0) (slots p))"

text \<open>Slots and tombstones counted so far; a page that cannot be read counts for neither.\<close>

definition count_page :: "nat \<Rightarrow> (nat \<times> nat) \<times> meta handler \<Rightarrow> (nat \<times> nat) \<times> meta handler" where
  "count_page pid s =
     (case s of ((cnt, dead), h) \<Rightarrow>
        (case read_page (int pid) h of
           (Inl _, h1) \<Rightarrow> ((cnt, dead), h1)
         | (Inr p, h1) \<Rightarrow> ((cnt + length (slots p), dead + tombstones p), h1)))"

definition analyse :: "rat \<Rightarrow> meta handler \<Rightarrow> (meta handler, bool) step_result" where
  "analyse threshold h =
     (case total_pages h of
        Inl err \<Rightarrow> (Inl err, h)
      | Inr n \<Rightarrow>
          if n = 0 then (Inr False, h)
          else (case fold count_page [0 ..< n] ((0, 0), h) of
                  ((cnt, dead), h1) \<Rightarrow>
                    (Inr (if cnt = 0 then False else float_div dead cnt \<ge> threshold), h1)))"

definition should_compact :: "rat \<Rightarrow> env \<Rightarrow> pystr \<Rightarrow> router \<Rightarrow> (router, bool) step_result" where
  "should_compact threshold e t r =
     (case state_tuple e t r of
        (Inl err, r1) \<Rightarrow> (if err = KeyError then Inr False else Inl err, r1)
      | (Inr xs, r1) \<Rightarrow>
          (case unpack3 xs of
             Inl err \<Rightarrow> (Inl err, r1)
           | Inr (_, _, h) \<Rightarrow> on_ref h r1 (analyse threshold)))"

subsection \<open>Compaction\<close>

text \<open>The records of the pages, the last one of a key counting; a payload that does not decode is skipped.\<close>

fun collect_slots :: "meta page \<Rightarrow> nat list \<Rightarrow> (pystr, pyval) dict \<Rightarrow> (pystr, pyval) dict result" where
  "collect_slots p [] recs = Inr recs"
| "collect_slots p (sid # sids) recs =
     bind_result (get_record (int sid) p) (\<lambda>payload.
       collect_slots p sids
         (case payload of
            None \<Rightarrow> recs
          | Some b \<Rightarrow> (case unpack_kv b of Inl _ \<Rightarrow> recs | Inr (k, v) \<Rightarrow> dset recs k v)))"

fun collect_pages ::
  "nat list \<Rightarrow> (pystr, pyval) dict \<Rightarrow> meta handler \<Rightarrow> (meta handler, (pystr, pyval) dict) step_result" where
  "collect_pages [] recs h = (Inr recs, h)"
| "collect_pages (pid # pids) recs h =
     (case read_page (int pid) h of
        (Inl _, h1) \<Rightarrow> (Inl CompactorError, h1)
      | (Inr p, h1) \<Rightarrow>
          (case collect_slots p [0 ..< length (slots p)] recs of
             Inl _ \<Rightarrow> (Inl CompactorError, h1)
           | Inr recs1 \<Rightarrow> collect_pages pids recs1 h1))"

text \<open>Writing them to the temporary file; the local variables are those of the router's flush.\<close>

definition copy_record :: "pystr \<Rightarrow> pyval \<Rightarrow> flush_state \<Rightarrow> (flush_state, unit) step_result" where
  "copy_record k v s =
     (case pack_kv k v of
        Inl err \<Rightarrow> (Inl err, s)
      | Inr b \<Rightarrow>
          (case has_space_for (int (length b)) (fl_page s) of
             Inl err \<Rightarrow> (Inl err, s)
           | Inr room \<Rightarrow>
               bind_step (if room then (Inr (), s) else next_page s) (\<lambda>_ s1.
                 case insert_record b (fl_page s1) of
                   (Inl err, _) \<Rightarrow> (Inl err, s1)
                 | (Inr sid, p) \<Rightarrow>
                     (Inr (), s1\<lparr>fl_page := p, fl_handler := page_changed (int (fl_pid s1)) p (fl_handler s1),
                                 fl_dirty := True\<rparr>))))"

fun copy_records :: "(pystr \<times> pyval) list \<Rightarrow> flush_state \<Rightarrow> (flush_state, unit) step_result" where
  "copy_records [] s = (Inr (), s)"
| "copy_records ((k, v) # kvs) s = bind_step (copy_record k v s) (\<lambda>_ s1. copy_records kvs s1)"

definition copy_table :: "(pystr, pyval) dict \<Rightarrow> meta handler \<Rightarrow> meta handler result" where
  "copy_table recs temp =
     (case allocate_page temp of
        (Inl err, _) \<Rightarrow> Inl err
      | (Inr pid, h) \<Rightarrow>
          (case read_page (int pid) h of
             (Inl err, _) \<Rightarrow> Inl err
           | (Inr p, h1) \<Rightarrow>
               (case bind_step (copy_records recs \<lparr>fl_handler = h1, fl_pid = pid, fl_page = p, fl_dirty = False,
                                                  fl_updates = [], fl_deletions = []\<rparr>)
                       (\<lambda>_ s. flush_write s) of
                  (Inl err, _) \<Rightarrow> Inl err
                | (Inr _, s) \<Rightarrow> Inr (fl_handler s))))"

text \<open>
  The body of the \<open>try\<close>: collect, copy, swap the files. \<open>swap_ok\<close> is the outcome of the renames and of
  reopening the file; the original handler is closed before them. Every exception ends as a
  \<open>CompactorError\<close>.
\<close>

definition compact_body :: "bool \<Rightarrow> meta handler \<Rightarrow> nat \<Rightarrow> meta handler \<Rightarrow> (meta handler, unit) step_result" where
  "compact_body swap_ok temp n h =
     (case collect_pages [0 ..< n] [] h of
        (Inl _, h1) \<Rightarrow> (Inl CompactorError, h1)
      | (Inr recs, h1) \<Rightarrow>
          (case copy_table recs temp of
             Inl _ \<Rightarrow> (Inl CompactorError, h1)
           | Inr t1 \<Rightarrow>
               if swap_ok
               then (Inr (), (close_table h1)\<lparr>tbl_file := tbl_file t1, is_open := True\<rparr>)
               else (Inl CompactorError, close_table h1)))"

definition compact_suffix :: pystr where
  "compact_suffix = lit ''.compact''"

text \<open>\<open>left\<close> is the temporary file that an earlier run left, if any.\<close>

definition compact_table ::
  "bool \<Rightarrow> pyfile option \<Rightarrow> env \<Rightarrow> pystr \<Rightarrow> router \<Rightarrow> (router, unit) step_result" where
  "compact_table swap_ok left e t r =
     (case state_tuple e t r of
        (Inl err, r1) \<Rightarrow> (Inl (if err = KeyError then CompactorError else err), r1)
      | (Inr xs, r1) \<Rightarrow>
          (case unpack3 xs of
             Inl err \<Rightarrow> (Inl err, r1)
           | Inr (_, _, h) \<Rightarrow>
               (let tmp = t @ compact_suffix
                in case handler_init (mkdir_ok e tmp) (touch_ok e tmp) (open_ok e tmp) tmp left of
                     Inl err \<Rightarrow> (Inl err, r1)
                   | Inr temp \<Rightarrow>
                       (case on_ref h r1 (\<lambda>h1.
                               (case bind_result (total_pages h1) call_int of
                                  Inl err \<Rightarrow> (Inl err, h1)
                                | Inr n \<Rightarrow>
                                    if n = 0 then (Inr False, h1)
                                    else bind_step (compact_body swap_ok temp n h1) (\<lambda>_ h2. (Inr True, h2)))) of
                          (Inl err, r2) \<Rightarrow> (Inl err, r2)
                        | (Inr done, r2) \<Rightarrow>
                            (Inr (), if done then r2\<lparr>rcache := lfu_clear (rcache r2)\<rparr> else r2)))))"

subsection \<open>The background thread\<close>

text \<open>One table of a round, and a round: whatever it raises is logged and ends it.\<close>

fun compact_tables ::
  "rat \<Rightarrow> bool \<Rightarrow> (pystr \<Rightarrow> pyfile option) \<Rightarrow> env \<Rightarrow> pystr list \<Rightarrow> router \<Rightarrow> (router, unit) step_result" where
  "compact_tables threshold swap_ok left e [] r = (Inr (), r)"
| "compact_tables threshold swap_ok left e (t # ts) r =
     bind_step (should_compact threshold e t r) (\<lambda>yes r1.
     bind_step (if yes then compact_table swap_ok (left t) e t r1 else (Inr (), r1)) (\<lambda>_ r2.
       compact_tables threshold swap_ok left e ts r2))"

definition compactor_round :: "rat \<Rightarrow> bool \<Rightarrow> (pystr \<Rightarrow> pyfile option) \<Rightarrow> env \<Rightarrow> router \<Rightarrow> router" where
  "compactor_round threshold swap_ok left e r =
     (case get_attribute ''memtables'' of
        Inl _ \<Rightarrow> r
      | Inr _ \<Rightarrow> snd (compact_tables threshold swap_ok left e (dkeys (tables r)) r))"

text \<open>The thread: it sleeps for an interval, works one round, and ends when it finds the stop event set.\<close>

record compactor =
  threshold :: rat
  stop_event :: bool
  thread_alive :: bool

definition DEFAULT_THRESHOLD :: rat where
  "DEFAULT_THRESHOLD = 1 / 4"

definition compactor_init :: "rat \<Rightarrow> compactor" where
  "compactor_init x = \<lparr>threshold = x, stop_event = False, thread_alive = False\<rparr>"

definition start_background :: "compactor \<Rightarrow> compactor" where
  "start_background c = (if thread_alive c then c else c\<lparr>stop_event := False, thread_alive := True\<rparr>)"

definition run_loop_step ::
  "bool \<Rightarrow> (pystr \<Rightarrow> pyfile option) \<Rightarrow> env \<Rightarrow> compactor \<times> router \<Rightarrow> compactor \<times> router" where
  "run_loop_step swap_ok left e s =
     (case s of (c, r) \<Rightarrow>
        if \<not> thread_alive c then (c, r)
        else if stop_event c then (c\<lparr>thread_alive := False\<rparr>, r)
        else (c, compactor_round (threshold c) swap_ok left e r))"

text \<open>Setting the event and joining the thread: its next step ends it.\<close>

definition stop_background ::
  "bool \<Rightarrow> (pystr \<Rightarrow> pyfile option) \<Rightarrow> env \<Rightarrow> compactor \<times> router \<Rightarrow> compactor \<times> router" where
  "stop_background swap_ok left e s =
     (if thread_alive (fst s) then run_loop_step swap_ok left e ((fst s)\<lparr>stop_event := True\<rparr>, snd s) else s)"

subsection \<open>No compaction runs\<close>

lemma state_tuple_two: "state_tuple e t r = (Inr xs, r1) \<Longrightarrow> length xs = 2"
  by (auto simp: state_tuple_def)

lemma unpack3_two: "length xs = 2 \<Longrightarrow> unpack3 xs = Inl ValueError"
  by (auto simp: unpack3_def split: list.split)

lemma state_tuple_effect: "snd (state_tuple e t r) = snd (get_table_state e t r)"
  by (cases "get_table_state e t r"; cases "fst (get_table_state e t r)") (auto simp: state_tuple_def)

lemma should_compact_never: "should_compact x e t r = (res, r') \<Longrightarrow> res \<noteq> Inr True \<and> r' = snd (get_table_state e t r)"
  using state_tuple_effect [of e t r]
  by (auto simp: should_compact_def state_tuple_two unpack3_two split: prod.splits sum.splits if_splits)

lemma compact_table_never: "compact_table b f e t r = (res, r') \<Longrightarrow> res \<noteq> Inr () \<and> r' = snd (get_table_state e t r)"
  using state_tuple_effect [of e t r]
  by (auto simp: compact_table_def state_tuple_two unpack3_two split: prod.splits sum.splits if_splits)

lemma compactor_round_idle: "compactor_round x b f e r = r"
  by (simp add: compactor_round_def get_attribute_def router_attributes_def)

text \<open>C32: Compaction never runs: whatever the router's state, \<open>_should_compact\<close> never answers \<open>True\<close>,
  \<open>compact_table\<close> never returns normally (on an open table both raise \<open>ValueError\<close> when they unpack
  the pair that \<open>_get_table_state\<close> returns), neither changes anything but what opening the table
  changes, and no sequence of steps of the background thread changes the router at all.\<close>

theorem compaction_never_runs:
  "fst (should_compact x e t r) \<noteq> Inr True \<and> snd (should_compact x e t r) = snd (get_table_state e t r) \<and>
   fst (compact_table b f e t r) \<noteq> Inr () \<and> snd (compact_table b f e t r) = snd (get_table_state e t r) \<and>
   (case get_table_state e t r of (Inl _, _) \<Rightarrow> True
    | (Inr _, _) \<Rightarrow> fst (should_compact x e t r) = Inl ValueError \<and> fst (compact_table b f e t r) = Inl ValueError) \<and>
   snd ((run_loop_step b g e ^^ n) (c, r)) = r"
proof -
  have "snd ((run_loop_step b g e ^^ n) (c, r)) = r"
    by (induction n) (auto simp: run_loop_step_def compactor_round_idle split: prod.split)
  moreover have "case get_table_state e t r of (Inl _, _) \<Rightarrow> True
    | (Inr _, _) \<Rightarrow> fst (should_compact x e t r) = Inl ValueError \<and> fst (compact_table b f e t r) = Inl ValueError"
    by (auto simp: should_compact_def compact_table_def state_tuple_def unpack3_def split: prod.split sum.split)
  ultimately show ?thesis
    using should_compact_never [of x e t r] compact_table_never [of b f e t r] by (metis prod.collapse)
qed

subsection \<open>What the copy would keep\<close>

fun collect_entry :: "nat \<times> nat \<times> bytes option \<Rightarrow> (pystr, pyval) dict \<Rightarrow> (pystr, pyval) dict" where
  "collect_entry (pid, sid, None) recs = recs"
| "collect_entry (pid, sid, Some b) recs = (case unpack_kv b of Inl _ \<Rightarrow> recs | Inr (k, v) \<Rightarrow> dset recs k v)"

lemma collect_slots_ok:
  assumes "contents p = rs"
  shows "collect_slots p [0 ..< length (slots p)] recs = Inr (fold collect_entry (page_slots pid rs) recs)"
proof -
  have n: "length (slots p) = length rs" using assms by (metis length_contents)
  have "collect_slots p is recs = Inr (fold collect_entry (map (\<lambda>sid. (pid, sid, rs ! sid)) is) recs)"
    if "\<forall>i \<in> set is. i < length rs" for "is"
    using that
  proof (induction "is" arbitrary: recs)
    case (Cons i "is")
    have "get_record (int i) p = Inr (rs ! i)" using Cons.prems assms by (simp add: get_record_contents)
    then show ?case using Cons by (cases "rs ! i") simp_all
  qed simp
  from this [of "[0 ..< length rs]"] show ?thesis by (simp add: n page_slots_def)
qed

lemma collect_pages_ok:
  assumes "disk_inv h" and "\<forall>pid \<in> set pids. pid < page_count h"
  shows "\<exists>h'. collect_pages pids recs h =
      (Inr (fold collect_entry (concat (map (\<lambda>pid. page_slots pid (fst (table_view h ! pid))) pids)) recs), h') \<and>
    disk_inv h' \<and> tbl_file h' = tbl_file h"
  using assms
proof (induction pids arbitrary: h recs)
  case (Cons pid pids)
  have "pid < page_count h" using Cons.prems(2) by simp
  then obtain p h1 where p: "read_page (int pid) h = (Inr p, h1)" "page_wf p" "page_id p = int pid"
    "contents p = fst (table_view h ! pid)" "free_space p = snd (table_view h ! pid)" "page_meta_ok p"
    "disk_inv h1" "tbl_file h1 = tbl_file h" "dget (page_cache h1) (int pid) = Some p"
    by (rule read_page_disk [OF Cons.prems(1)])
  let ?recs = "fold collect_entry (page_slots pid (fst (table_view h ! pid))) recs"
  have "collect_pages (pid # pids) recs h = collect_pages pids ?recs h1"
    using p(1) collect_slots_ok [OF p(4), of recs pid] by simp
  moreover have "\<forall>pid \<in> set pids. pid < page_count h1" using Cons.prems(2) same_file(1) [OF p(8)] by simp
  from Cons.IH [OF p(7) this, of ?recs] obtain h' where "collect_pages pids ?recs h1 =
      (Inr (fold collect_entry (concat (map (\<lambda>pid. page_slots pid (fst (table_view h1 ! pid))) pids)) ?recs), h')"
      "disk_inv h'" "tbl_file h' = tbl_file h1" by blast
  ultimately show ?case using p(8) same_file(2) [OF p(8)] by simp
qed simp

lemma set_dset: "set (dset d k v) \<subseteq> insert (k, v) (set d)"
  by (induction d k v rule: dset.induct) auto

lemma collected:
  assumes "all_packed es"
  defines "recs \<equiv> fold collect_entry es []"
  shows "dict_ok recs" and "disk_value es k = (case dget recs k of None \<Rightarrow> PyNone | Some v \<Rightarrow> v)"
    and "(k, v) \<in> set recs \<Longrightarrow> \<exists>pid sid b. (pid, sid, Some b) \<in> set es \<and> packs k v b"
proof -
  have "dict_ok (fold collect_entry es []) \<and>
    (\<forall>k. disk_value es k = (case dget (fold collect_entry es []) k of None \<Rightarrow> PyNone | Some v \<Rightarrow> v)) \<and>
    (\<forall>k v. (k, v) \<in> set (fold collect_entry es []) \<longrightarrow> (\<exists>pid sid b. (pid, sid, Some b) \<in> set es \<and> packs k v b))"
    using assms(1)
  proof (induction es rule: rev_induct)
    case Nil
    then show ?case by (simp add: disk_value_def)
  next
    case (snoc e es)
    obtain pid sid k v b where e: "e = (pid, sid, Some b)" "packs k v b"
      using snoc.prems by (cases e) (auto simp: all_packed_def)
    have IH: "dict_ok (fold collect_entry es [])"
      "\<forall>k. disk_value es k = (case dget (fold collect_entry es []) k of None \<Rightarrow> PyNone | Some v \<Rightarrow> v)"
      "\<forall>k v. (k, v) \<in> set (fold collect_entry es []) \<longrightarrow> (\<exists>pid sid b. (pid, sid, Some b) \<in> set es \<and> packs k v b)"
      using snoc by (simp_all add: all_packed_def)
    have r: "fold collect_entry (es @ [e]) [] = dset (fold collect_entry es []) k v"
      using e by (simp add: unpack_packed)
    have d: "disk_value (es @ [e]) = (disk_value es)(k := v)"
      using e by (simp add: disk_value_def index_entry_packed(2) del: write_value.simps)
    have "\<exists>pid sid b. (pid, sid, Some b) \<in> set (es @ [e]) \<and> packs k' v' b"
      if "(k', v') \<in> set (dset (fold collect_entry es []) k v)" for k' v'
    proof (cases "(k', v') = (k, v)")
      case False
      then have "(k', v') \<in> set (fold collect_entry es [])" using that set_dset [of "fold collect_entry es []" k v] by blast
      then obtain pid sid b where "(pid, sid, Some b) \<in> set es" "packs k' v' b" using IH(3) by blast
      then show ?thesis by auto
    qed (use e in auto)
    then show ?case unfolding r d using IH(1,2) by simp
  qed
  then show "dict_ok recs" "disk_value es k = (case dget recs k of None \<Rightarrow> PyNone | Some v \<Rightarrow> v)"
    "(k, v) \<in> set recs \<Longrightarrow> \<exists>pid sid b. (pid, sid, Some b) \<in> set es \<and> packs k v b"
    unfolding recs_def by blast+
qed

text \<open>A record that is on a page fits on a page.\<close>

lemma page_record_size:
  assumes wf: "page_wf p" and b: "Some b \<in> set (contents p)"
  shows "length b \<le> 4072"
proof -
  obtain s where s: "s \<in> set (slots p)" "slot_record (page_data p) s = Some b" using b by (auto simp: contents_def)
  have "0 < length (slots p)" using s(1) by (cases "slots p") auto
  moreover have "lower_offset p = 20 + 4 * length (slots p)" "int (lower_offset p) \<le> upper_offset p"
    using wf by (simp_all add: page_wf_def)
  ultimately have u: "24 \<le> upper_offset p" by linarith
  have i: "slot_in (upper_offset p) s" using wf s(1) by (simp add: page_wf_def)
  then have "slot_in 20 s" using u by (auto intro: slot_in_mono)
  moreover have "length (page_data p) = 4096" using wf by (simp add: page_wf_def)
  ultimately have "length b = length (slot_bytes s)" using slot_record_length [of s "page_data p"] s(2) by simp
  moreover have "length (slot_bytes s) \<le> 4072" using i u by (auto simp: slot_in_def slot_bytes_def)
  ultimately show ?thesis by simp
qed

lemma slot_list_record_size:
  assumes inv: "disk_inv h" and e: "(pid, sid, Some b) \<in> set (slot_list (table_view h))"
  shows "length b \<le> 4072"
proof -
  have i: "pid < page_count h" "sid < length (fst (table_view h ! pid))" "Some b = fst (table_view h ! pid) ! sid"
    using e by (simp_all add: mem_slot_list)
  obtain p :: "meta page" where p: "page_wf p" "contents p = fst (table_view h ! pid)"
    by (rule read_page_disk [OF inv i(1)]) blast
  then have "Some b \<in> set (contents p)" using i(2,3) by (metis nth_mem)
  with p(1) show ?thesis by (rule page_record_size)
qed

text \<open>The copy loop runs like the loop of a flush without its two dictionaries.\<close>

lemma fl_inv_notes: "fl_inv (s\<lparr>fl_updates := u, fl_deletions := d\<rparr>) V = fl_inv s V"
  by (simp add: fl_inv_def)

lemma copy_insert_flush:
  assumes "flush_insert k b s = (Inr (), s')"
  shows "\<exists>sid p. insert_record b (fl_page s) = (Inr sid, p) \<and>
    s'\<lparr>fl_updates := fl_updates s, fl_deletions := fl_deletions s\<rparr> =
      s\<lparr>fl_page := p, fl_handler := page_changed (int (fl_pid s)) p (fl_handler s), fl_dirty := True\<rparr>"
  using assms by (auto simp: flush_insert_def Let_def split: prod.splits sum.splits if_splits)

lemma copy_record_flush:
  assumes p: "packs k v b" and f: "flush_record k b s = (Inr (), s')"
    and n: "\<And>s1. next_page s = (Inr (), s1) \<Longrightarrow> fl_updates s1 = fl_updates s \<and> fl_deletions s1 = fl_deletions s"
  shows "copy_record k v s = (Inr (), s'\<lparr>fl_updates := fl_updates s, fl_deletions := fl_deletions s\<rparr>)"
proof -
  have pk: "pack_kv k v = Inr b" using p by (simp add: packs_def)
  obtain room where room: "has_space_for (int (length b)) (fl_page s) = Inr room"
    using f by (cases "has_space_for (int (length b)) (fl_page s)") (simp_all add: flush_record_def)
  obtain s1 where s1: "(if room then (Inr (), s) else next_page s) = (Inr (), s1)" "flush_insert k b s1 = (Inr (), s')"
    using f room by (auto simp: flush_record_def)
  have same: "fl_updates s1 = fl_updates s" "fl_deletions s1 = fl_deletions s" using s1(1) n by (auto split: if_splits)
  obtain sid q where "insert_record b (fl_page s1) = (Inr sid, q)"
    "s'\<lparr>fl_updates := fl_updates s1, fl_deletions := fl_deletions s1\<rparr> =
      s1\<lparr>fl_page := q, fl_handler := page_changed (int (fl_pid s1)) q (fl_handler s1), fl_dirty := True\<rparr>"
    using copy_insert_flush [OF s1(2)] by blast
  then show ?thesis using pk room s1(1) same by (simp add: copy_record_def)
qed

lemma copy_record_ok:
  assumes inv: "fl_inv s V" and p: "packs k v b" and len: "length b \<le> 4072" and n: "length V < 2 ^ 32"
  obtains s' V' loc where "copy_record k v s = (Inr (), s')" "fl_inv s' V'" "slot_list V' = slot_list V @ [loc]"
    "snd (snd loc) = Some b" "length V' \<le> Suc (length V)"
proof -
  obtain s' V' loc where s': "flush_record k b s = (Inr (), s')" "fl_inv s' V'" "slot_list V' = slot_list V @ [loc]"
    "snd (snd loc) = Some b" "length V' \<le> Suc (length V)"
    "(fl_updates s', fl_deletions s') = note_record (k, b) loc (fl_updates s, fl_deletions s)"
    by (rule flush_record_ok [OF inv p len n])
  have np: "fl_updates s1 = fl_updates s \<and> fl_deletions s1 = fl_deletions s" if s1: "next_page s = (Inr (), s1)" for s1
    by (rule next_page_ok [OF inv n]) (use s1 in simp)
  have c: "copy_record k v s = (Inr (), s'\<lparr>fl_updates := fl_updates s, fl_deletions := fl_deletions s\<rparr>)"
    by (rule copy_record_flush [OF p s'(1)]) (rule np)
  have "fl_inv (s'\<lparr>fl_updates := fl_updates s, fl_deletions := fl_deletions s\<rparr>) V'" using s'(2) by (simp add: fl_inv_notes)
  with c show thesis using that s'(3-5) by blast
qed

definition copyable :: "(pystr \<times> pyval) list \<Rightarrow> bool" where
  "copyable kvs \<longleftrightarrow> (\<forall>(k, v) \<in> set kvs. \<exists>b. packs k v b \<and> length b \<le> 4072)"

lemma copy_records_ok:
  assumes "fl_inv s V" and "copyable kvs" and "length V + length kvs < 2 ^ 32"
  shows "\<exists>s' V' es. copy_records kvs s = (Inr (), s') \<and> fl_inv s' V' \<and> slot_list V' = slot_list V @ es \<and>
    list_all2 (\<lambda>(k, v) e. \<exists>b. snd (snd e) = Some b \<and> packs k v b) kvs es"
  using assms
proof (induction kvs arbitrary: s V)
  case (Cons kv kvs)
  obtain k v where kv: "kv = (k, v)" by fastforce
  obtain b where b: "packs k v b" "length b \<le> 4072" using Cons.prems(2) kv by (auto simp: copyable_def)
  have n: "length V < 2 ^ 32" using Cons.prems(3) by simp
  obtain s1 V1 loc where 1: "copy_record k v s = (Inr (), s1)" "fl_inv s1 V1" "slot_list V1 = slot_list V @ [loc]"
    "snd (snd loc) = Some b" "length V1 \<le> Suc (length V)" by (rule copy_record_ok [OF Cons.prems(1) b n])
  have "copyable kvs" "length V1 + length kvs < 2 ^ 32" using Cons.prems(2,3) 1(5) by (simp_all add: copyable_def)
  from Cons.IH [OF 1(2) this] obtain s' V' es where "copy_records kvs s1 = (Inr (), s')" "fl_inv s' V'"
    "slot_list V' = slot_list V1 @ es" "list_all2 (\<lambda>(k, v) e. \<exists>b. snd (snd e) = Some b \<and> packs k v b) kvs es" by blast
  then show ?case
    using 1(1,3,4) b(1) kv by (intro exI [of _ s'] exI [of _ V'] exI [of _ "loc # es"]) auto
qed auto

text \<open>What the copied slots hold, one for every key.\<close>

lemma copied_value:
  assumes "list_all2 (\<lambda>(k, v) e. \<exists>b. snd (snd e) = Some b \<and> packs k v b) kvs es" and "distinct (map fst kvs)"
  shows "fold write_value es D k = (case map_of kvs k of None \<Rightarrow> D k | Some v \<Rightarrow> v)"
  using assms
proof (induction kvs es arbitrary: D rule: list_all2_induct)
  case (Cons kv kvs e es)
  obtain k' v where kv: "kv = (k', v)" by fastforce
  obtain pid sid b where e: "e = (pid, sid, Some b)" "packs k' v b"
    using Cons.hyps(1) kv by (cases e) auto
  define D' where "D' = D(k' := v)"
  have "fold write_value (e # es) D = fold write_value es D'"
    using e by (simp add: index_entry_packed(2) D'_def del: write_value.simps)
  moreover have "map_of kvs k' = None" using Cons.prems kv by (simp add: map_of_eq_None_iff)
  moreover have "D' k = (if k = k' then v else D k)" by (simp add: D'_def)
  ultimately show ?case using Cons.IH [of D'] Cons.prems kv by (auto split: option.split)
qed simp

lemma copied_keys:
  assumes "list_all2 (\<lambda>(k, v) e. \<exists>b. snd (snd e) = Some b \<and> packs k v b) kvs es"
  shows "all_packed es" and "length es = length kvs"
  using assms by (induction kvs es rule: list_all2_induct) (auto simp: all_packed_def split: prod.splits, blast)

lemma copy_table_ok:
  assumes temp: "disk_inv temp" "page_count temp = 0" and kvs: "copyable kvs" "length kvs + 1 < 2 ^ 32"
  obtains t es where "copy_table kvs temp = Inr t" "disk_inv t" "slot_list (table_view t) = es"
    "list_all2 (\<lambda>(k, v) e. \<exists>b. snd (snd e) = Some b \<and> packs k v b) kvs es"
proof -
  have "page_count temp < 2 ^ 32" using temp(2) by simp
  then obtain h where h: "allocate_page temp = (Inr (page_count temp), h)" "disk_inv h"
    "page_count h = Suc (page_count temp)" "table_view h = table_view temp @ [([], 4076)]"
    by (rule allocate_page_disk [OF temp(1)])
  have c: "page_count h = Suc 0" "0 < page_count h" using h(3) temp(2) by simp_all
  obtain p h1 where r: "read_page (int 0) h = (Inr p, h1)" using read_page_disk [OF h(2) c(2)] by metis
  let ?s = "\<lparr>fl_handler = h1, fl_pid = 0, fl_page = p, fl_dirty = False, fl_updates = [], fl_deletions = []\<rparr>"
  have s: "fl_inv ?s (table_view h)" by (rule fl_inv_fresh(1) [OF h(2) c(1) r]) simp_all
  have "length (table_view h) + length kvs < 2 ^ 32" using kvs(2) c(1) by simp
  from copy_records_ok [OF s kvs(1) this] obtain s' V' es where s': "copy_records kvs ?s = (Inr (), s')" "fl_inv s' V'"
    "slot_list V' = slot_list (table_view h) @ es" "list_all2 (\<lambda>(k, v) e. \<exists>b. snd (snd e) = Some b \<and> packs k v b) kvs es"
    by blast
  have "table_view temp = []" using temp(2) by (simp add: table_view_def)
  then have none: "slot_list (table_view h) = []" unfolding h(4) slot_list_new_page by (simp add: slot_list_def)
  obtain t where t: "flush_write s' = (Inr (), s'\<lparr>fl_handler := t\<rparr>)" "disk_inv t" "table_view t = V'"
    by (rule flush_write_ok [OF s'(2)])
  have "copy_table kvs temp = Inr t" using h(1) r temp(2) s'(1) t(1) by (simp add: copy_table_def)
  then show thesis using that [of t es] t(2,3) s'(3,4) none by simp
qed

text \<open>C33: The part of \<open>compact_table\<close> that no call reaches would do what it means to: on a table file whose
  pages hold packed records, and with an empty temporary file, it returns, and the file then has one
  slot for every key that ever was written and the same value for every key, a deleted one included.\<close>

theorem compaction_copy_keeps_values:
  assumes "disk_inv h" and "all_packed (slot_list (table_view h))" and "disk_inv temp" and "page_count temp = 0"
    and "length (slot_list (table_view h)) + 1 < 2 ^ 32"
  shows "\<exists>h'. compact_body True temp (page_count h) h = (Inr (), h') \<and>
    (\<forall>k. disk_value (slot_list (table_view h')) k = disk_value (slot_list (table_view h)) k) \<and>
    length (slot_list (table_view h')) = card (fst ` set (fold collect_entry (slot_list (table_view h)) []))"
proof -
  let ?es = "slot_list (table_view h)" let ?recs = "fold collect_entry (slot_list (table_view h)) []"
  obtain h1 where h1: "collect_pages [0 ..< page_count h] [] h = (Inr ?recs, h1)"
    using collect_pages_ok [OF assms(1), of "[0 ..< page_count h]" "[]"] by (auto simp: slot_list_def)
  note c = collected [OF assms(2)]
  have cp: "copyable ?recs"
    unfolding copyable_def using c(3) slot_list_record_size [OF assms(1)] by blast
  have d: "distinct (map fst ?recs)" using c(1) by (simp add: dict_ok_def)
  have "length (fold collect_entry es recs) \<le> length recs + length es" for es recs
  proof (induction es arbitrary: recs)
    case (Cons e es)
    have "length (collect_entry e recs) \<le> Suc (length recs)"
      by (cases "(e, recs)" rule: collect_entry.cases) (auto simp: length_dset split: sum.split prod.split)
    then show ?case using Cons [of "collect_entry e recs"] by simp
  qed simp
  from this [of ?es "[]"] have "length ?recs + 1 < 2 ^ 32" using assms(5) by simp
  then obtain t es where t: "copy_table ?recs temp = Inr t" "disk_inv t" "slot_list (table_view t) = es"
    "list_all2 (\<lambda>(k, v) e. \<exists>b. snd (snd e) = Some b \<and> packs k v b) ?recs es"
    by (rule copy_table_ok [OF assms(3,4) cp])
  let ?h = "(close_table h1)\<lparr>tbl_file := tbl_file t, is_open := True\<rparr>"
  have "table_view ?h = table_view t" by (rule same_file(2)) simp
  then have sl: "slot_list (table_view ?h) = es" using t(3) by simp
  have "compact_body True temp (page_count h) h = (Inr (), ?h)" using h1 t(1) by (simp add: compact_body_def)
  moreover have "disk_value es k = disk_value ?es k" for k
    using copied_value [OF t(4) d, of "\<lambda>_. PyNone" k] c(2) [of k] by (simp add: disk_value_def)
  moreover have "length es = card (fst ` set ?recs)"
    using copied_keys(2) [OF t(4)] distinct_card [OF d] by simp
  ultimately show ?thesis using sl by auto
qed

theorem compaction_copy_keeps_values_witness:
  "\<exists>h temp h'. compact_body True temp (page_count h) h = (Inr (), h') \<and>
    disk_value (slot_list (table_view h')) [107] = PyBool True \<and> disk_value (slot_list (table_view h')) [108] = PyNone"
proof -
  obtain r where r: "router_init empty_wal 1 9 (\<lambda>_. None) = Inr r" by (simp add: router_init_def)
  have t: "[116] \<noteq> ([] :: pystr)" by simp
  obtain temp where temp: "disk_inv temp" "page_count temp = 0" by (rule fresh_table [OF r plain_env_ok(1) t]) blast
  have empty: "slot_list (table_view temp) = []" using temp(2) by (simp add: slot_list_def)
  obtain b where b: "packs [107] (PyBool True) b" "length b \<le> 4072" using true_value(3) by (auto simp: fits_def)
  have fl: "flushable [([107], b)]" "distinct (map fst [([107], b)])" using b by (auto simp: flushable_def)
  obtain ups dels h es where h: "flush_records [([107], b)] temp = (Inr (ups, dels), h)" "disk_inv h"
    "slot_list (table_view h) = slot_list (table_view temp) @ es"
    "map (\<lambda>e. snd (snd e)) es = [Some b]"
    by (rule flush_records_ok [OF temp(1) fl]) (use temp(2) in simp_all)
  then obtain pid sid where es: "es = [(pid, sid, Some b)]" by (cases es) auto
  then have sl: "slot_list (table_view h) = [(pid, sid, Some b)]" using h(3) empty by simp
  have pk: "all_packed (slot_list (table_view h))" using b(1) unfolding sl by (auto simp: all_packed_def)
  have dv: "disk_value (slot_list (table_view h)) k = (if k = [107] then PyBool True else PyNone)" for k
    unfolding sl disk_value_def using index_entry_packed(2) [OF b(1)] by (simp del: write_value.simps)
  have "length (slot_list (table_view h)) + 1 < 2 ^ 32" unfolding sl by simp
  from compaction_copy_keeps_values [OF h(2) pk temp this] dv show ?thesis by fastforce
qed

end
