(* ===== verification/Wal_Handle.thy ===== *)
theory Wal_Handle
  imports Wal Machines
begin

text \<open>
  The file descriptors of \<open>recovery/wal.py\<close>. \<open>Wal\<close> states the operations over the files by name; the
  code writes through one cached handle, which names a file only as long as its name still leads to it.
  This theory models names, inodes and the handle, and shows that while nothing is unlinked the
  operations through the handle are those of \<open>Wal\<close>; after the name of the cached file is removed, a
  batch goes to a file that no name leads to (\<open>stale_batch\<close>), which \<open>Checkpoint\<close> uses. A file is
  created here under a fresh name only: the existence checks of the code come first.
\<close>

subsection \<open>Names, inodes and the cached handle\<close>

text \<open>\<open>current_file\<close>: the inode of the handle and whether the handle is closed.\<close>

record wal_io =
  names :: "(nat, nat) dict"
  inodes :: "nat \<Rightarrow> pyfile"
  next_inode :: nat
  current_file_path :: "nat option"
  current_file :: "(nat \<times> bool) option"

definition visible :: "wal_io \<Rightarrow> wal_files" where
  "visible p = map (\<lambda>(fid, ino). (fid, inodes p ino)) (names p)"

definition create_name :: "nat \<Rightarrow> pyfile \<Rightarrow> wal_io \<Rightarrow> wal_io" where
  "create_name fid f p =
     p\<lparr>names := dset (names p) fid (next_inode p), inodes := (inodes p)(next_inode p := f), next_inode := Suc (next_inode p)\<rparr>"

definition unlink :: "nat \<Rightarrow> wal_io \<Rightarrow> wal_io" where
  "unlink fid p = p\<lparr>names := ddel (names p) fid\<rparr>"

definition write_inode :: "nat \<Rightarrow> pyfile \<Rightarrow> wal_io \<Rightarrow> wal_io" where
  "write_inode ino f p = p\<lparr>inodes := (inodes p)(ino := f)\<rparr>"

text \<open>The old handle is closed and the path recorded before the open, which fails if the name is gone.\<close>

definition get_open_file :: "nat \<Rightarrow> wal_io \<Rightarrow> (wal_io, nat) step_result" where
  "get_open_file fid p =
     (case current_file p of
        Some (ino, False) \<Rightarrow>
          if current_file_path p = Some fid then (Inr ino, p)
          else (case dget (names p) fid of
                  None \<Rightarrow> (Inl OSError, p\<lparr>current_file := Some (ino, True), current_file_path := Some fid\<rparr>)
                | Some ino' \<Rightarrow> (Inr ino', p\<lparr>current_file_path := Some fid, current_file := Some (ino', False)\<rparr>))
      | _ \<Rightarrow> (case dget (names p) fid of
                None \<Rightarrow> (Inl OSError, p\<lparr>current_file_path := Some fid\<rparr>)
              | Some ino' \<Rightarrow> (Inr ino', p\<lparr>current_file_path := Some fid, current_file := Some (ino', False)\<rparr>)))"

text \<open>The end of \<open>force_flush\<close>.\<close>

definition close_cached :: "wal_io \<Rightarrow> wal_io" where
  "close_cached p =
     (case current_file p of
        Some (ino, False) \<Rightarrow> p\<lparr>current_file := None, current_file_path := None\<rparr>
      | _ \<Rightarrow> p)"

text \<open>
  \<open>create_wal_directory\<close> on the mode of the directory, if it exists; \<open>made\<close> is the mode of a directory
  that \<open>mkdir\<close> has to make, or \<open>None\<close> if it fails.
\<close>

definition create_wal_directory :: "int option \<Rightarrow> bool \<Rightarrow> int option \<Rightarrow> (int option, unit) step_result" where
  "create_wal_directory made chmod_ok dir =
     (case made of
        None \<Rightarrow> (Inl OSError, dir)
      | Some m \<Rightarrow>
          if chmod_ok then (Inr (), Some 448)
          else (Inl OSError, Some (case dir of None \<Rightarrow> m | Some m' \<Rightarrow> m')))"

text \<open>The constructor: the directory first, then the transaction counter; an error of either ends it.\<close>

definition wal_open :: "int option \<Rightarrow> bool \<Rightarrow> int option \<Rightarrow> wal_files \<Rightarrow> (int option, wal) step_result" where
  "wal_open made chmod_ok dir files =
     bind_step (create_wal_directory made chmod_ok dir) (\<lambda>_ dir'. (wal_init files, dir'))"

lemma opened_log_is_private: "wal_open made chmod_ok dir files = (Inr w, dir') \<Longrightarrow> dir' = Some 448 \<and> wal_init files = Inr w"
  by (auto simp: wal_open_def create_wal_directory_def split: option.splits if_splits)

subsection \<open>The operations through the handle\<close>

definition write_batch_cached ::
  "(nat \<Rightarrow> 64 word) \<Rightarrow> nat set \<Rightarrow> tx_record list \<Rightarrow> wal_io \<Rightarrow> (wal_io, unit) step_result" where
  "write_batch_cached stamp done batch p =
     (if batch = [] then (Inl IndexError, p)
      else case file_id_of (fst (hd batch)) of
        Inl e \<Rightarrow> (Inl e, p)
      | Inr fid \<Rightarrow>
          let total = sum_list (map (\<lambda>(_, p). length p + 4) batch);
              pre = (case dget (names p) fid of
                       Some _ \<Rightarrow> Inr p
                     | None \<Rightarrow> bind_result (pre_allocate_wal (32 + total)) (\<lambda>f. Inr (create_name fid f p)))
          in case pre of
               Inl e \<Rightarrow> (Inl e, p)
             | Inr p1 \<Rightarrow>
                 bind_step (get_open_file fid p1) (\<lambda>ino p2.
                   case write_batch_file stamp done batch (inodes p2 ino) of
                     (r, f') \<Rightarrow> (r, write_inode ino f' p2)))"

definition pre_allocate_io :: "nat \<Rightarrow> wal_io \<Rightarrow> wal_io" where
  "pre_allocate_io fid p =
     (if dget (names p) fid \<noteq> None then p
      else case pre_allocate_wal (header_block_size + PAYLOAD_AREA_SIZE) of
             Inl _ \<Rightarrow> p
           | Inr f \<Rightarrow> create_name fid f p)"

text \<open>\<open>files_to_update\<close>, a \<open>defaultdict(list)\<close> in the order of first use.\<close>

definition files_to_update :: "nat list \<Rightarrow> (nat, nat list) dict" where
  "files_to_update txs =
     foldl (\<lambda>d tx. case file_id_of tx of
                      Inl _ \<Rightarrow> d
                    | Inr fid \<Rightarrow> dset d fid ((case dget d fid of None \<Rightarrow> [] | Some b \<Rightarrow> b) @ [tx])) [] txs"

definition mark_file_cached :: "nat \<Rightarrow> nat list \<Rightarrow> wal_io \<Rightarrow> wal_io" where
  "mark_file_cached fid txs p =
     (if dget (names p) fid = None then p
      else case get_open_file fid p of
             (Inl _, p1) \<Rightarrow> p1
           | (Inr ino, p1) \<Rightarrow> write_inode ino (fold mark_entry txs (inodes p1 ino)) p1)"

definition mark_many_cached :: "nat list \<Rightarrow> wal_io \<Rightarrow> wal_io" where
  "mark_many_cached txs p = fold (\<lambda>(fid, ts). mark_file_cached fid ts) (files_to_update txs) p"

subsection \<open>A coherent handle\<close>

text \<open>Different names lead to different inodes, all of them created; an open handle is on the file of its path.\<close>

definition fs_ok :: "wal_io \<Rightarrow> bool" where
  "fs_ok p \<longleftrightarrow> dict_ok (names p) \<and> distinct (map snd (names p)) \<and> (\<forall>ino \<in> snd ` set (names p). ino < next_inode p)"

definition io_ok :: "wal_io \<Rightarrow> bool" where
  "io_ok p \<longleftrightarrow> fs_ok p \<and>
     (\<forall>ino. current_file p = Some (ino, False) \<longrightarrow>
        (\<exists>fid. current_file_path p = Some fid \<and> dget (names p) fid = Some ino))"

lemma dget_visible [simp]: "dget (visible p) fid = map_option (inodes p) (dget (names p) fid)"
  by (simp add: visible_def map_of_map)

lemma dict_ok_visible [simp]: "dict_ok (visible p) \<longleftrightarrow> dict_ok (names p)"
  by (simp add: visible_def dict_ok_def comp_def case_prod_beta)

lemma map_inodes_absent: "ino \<notin> snd ` set ns \<Longrightarrow> map (\<lambda>(fid, i). (fid, (g(ino := f)) i)) ns = map (\<lambda>(fid, i). (fid, g i)) ns"
  by force

lemma map_inodes_update:
  "distinct (map snd ns) \<Longrightarrow> dget ns fid = Some ino \<Longrightarrow>
   map (\<lambda>(k, i). (k, (g(ino := f)) i)) ns = dset (map (\<lambda>(k, i). (k, g i)) ns) fid f"
proof (induction ns)
  case (Cons e ns)
  obtain k i where e: "e = (k, i)" by (cases e)
  show ?case
  proof (cases "k = fid")
    case True
    with Cons.prems e map_inodes_absent [of ino ns g f] show ?thesis by simp
  next
    case False
    then have d: "dget ns fid = Some ino" using Cons.prems(2) e by simp
    then have "ino \<in> snd ` set ns" by (force dest: map_of_SomeD)
    then have "i \<noteq> ino" using Cons.prems(1) e by auto
    with False Cons.IH [OF _ d] Cons.prems(1) e show ?thesis by simp
  qed
qed simp

lemma visible_write: "fs_ok p \<Longrightarrow> dget (names p) fid = Some ino \<Longrightarrow> visible (write_inode ino f p) = dset (visible p) fid f"
  using map_inodes_update [of "names p" fid ino "inodes p" f]
  by (simp add: visible_def write_inode_def fs_ok_def)

lemma visible_write_orphan: "ino \<notin> snd ` set (names p) \<Longrightarrow> visible (write_inode ino f p) = visible p"
  using map_inodes_absent by (simp add: visible_def write_inode_def)

lemma visible_create:
  assumes "fs_ok p" and "dget (names p) fid = None"
  shows "visible (create_name fid f p) = dset (visible p) fid f"
proof -
  have n: "next_inode p \<notin> snd ` set (names p)" using assms(1) by (force simp: fs_ok_def)
  have "fid \<notin> fst ` set (names p)" using assms(2) by (simp add: dget_None_iff)
  moreover from this have "fid \<notin> fst ` set (visible p)" by (force simp: visible_def)
  ultimately show ?thesis
    using map_inodes_absent [OF n] by (simp add: create_name_def dset_absent) (simp add: visible_def)
qed

lemma visible_unlink: "visible (unlink fid p) = ddel (visible p) fid"
  by (simp add: visible_def unlink_def ddel_def filter_map comp_def case_prod_beta)

lemma fs_ok_create: "fs_ok p \<Longrightarrow> dget (names p) fid = None \<Longrightarrow> fs_ok (create_name fid f p)"
  by (auto simp: fs_ok_def create_name_def dget_None_iff dset_absent dict_ok_def less_Suc_eq)

lemma io_ok_create:
  assumes "io_ok p" and "dget (names p) fid = None"
  shows "io_ok (create_name fid f p)"
  unfolding io_ok_def
proof (intro conjI allI impI)
  show "fs_ok (create_name fid f p)" using fs_ok_create assms by (simp add: io_ok_def)
  fix ino assume "current_file (create_name fid f p) = Some (ino, False)"
  then obtain k where "current_file_path p = Some k" "dget (names p) k = Some ino"
    using assms(1) by (auto simp: io_ok_def create_name_def)
  moreover from this have "k \<noteq> fid" using assms(2) by auto
  ultimately show "\<exists>k. current_file_path (create_name fid f p) = Some k \<and> dget (names (create_name fid f p)) k = Some ino"
    by (simp add: create_name_def)
qed

lemma io_ok_write: "io_ok p \<Longrightarrow> io_ok (write_inode ino f p)"
  by (auto simp: io_ok_def fs_ok_def write_inode_def)

lemma io_ok_close: "io_ok p \<Longrightarrow> io_ok (close_cached p)"
  by (auto simp: io_ok_def fs_ok_def close_cached_def split: option.splits bool.splits)

lemma names_write [simp]: "names (write_inode ino f p) = names p"
  by (simp add: write_inode_def)

text \<open>With a coherent handle, what \<open>_get_open_file\<close> returns is the file of the name.\<close>

lemma get_open_file_ok:
  assumes "io_ok p" and "dget (names p) fid = Some ino"
  obtains p' where "get_open_file fid p = (Inr ino, p')" "io_ok p'" "names p' = names p" "inodes p' = inodes p"
    "visible p' = visible p"
proof -
  have "\<exists>p'. get_open_file fid p = (Inr ino, p') \<and> io_ok p' \<and> names p' = names p \<and> inodes p' = inodes p"
    using assms
    by (auto simp: get_open_file_def io_ok_def fs_ok_def split: option.splits bool.splits)
  then show thesis using that by (auto simp: visible_def)
qed

subsection \<open>Through the handle or by name\<close>

lemma write_batch_cached_ok:
  assumes p: "io_ok p"
  shows "\<exists>p'. write_batch_cached stamp done batch p = (fst (write_batch stamp done batch (visible p)), p') \<and>
    io_ok p' \<and> visible p' = snd (write_batch stamp done batch (visible p))"
proof -
  let ?total = "sum_list (map (\<lambda>(_, p). length p + 4) batch)"
  have through: "\<exists>p'. bind_step (get_open_file fid p1) (\<lambda>ino p2.
        case write_batch_file stamp done batch (inodes p2 ino) of (r, f') \<Rightarrow> (r, write_inode ino f' p2)) =
      (fst (write_batch_file stamp done batch (inodes p1 ino)), p') \<and> io_ok p' \<and>
      visible p' = dset (visible p1) fid (snd (write_batch_file stamp done batch (inodes p1 ino)))"
    if p1: "io_ok p1" and ino: "dget (names p1) fid = Some ino" for fid p1 ino
  proof (rule get_open_file_ok [OF p1 ino])
    fix p2 assume p2: "get_open_file fid p1 = (Inr ino, p2)" "io_ok p2" "names p2 = names p1" "inodes p2 = inodes p1"
      "visible p2 = visible p1"
    obtain r f' where w: "write_batch_file stamp done batch (inodes p1 ino) = (r, f')" by fastforce
    have "fs_ok p2" using p2(2) by (simp add: io_ok_def)
    then have "visible (write_inode ino f' p2) = dset (visible p1) fid f'"
      using visible_write [of p2 fid ino f'] ino p2(3,5) by simp
    with p2 w io_ok_write [OF p2(2), of ino f'] show ?thesis by simp
  qed
  have fs: "fs_ok p" using p by (simp add: io_ok_def)
  show ?thesis
  proof (cases "batch = [] \<or> (\<exists>e. file_id_of (fst (hd batch)) = Inl e)")
    case True
    with p show ?thesis by (auto simp: write_batch_cached_def write_batch_def)
  next
    case False
    then obtain fid where b: "batch \<noteq> []" "file_id_of (fst (hd batch)) = Inr fid"
      by (cases "file_id_of (fst (hd batch))") auto
    show ?thesis
    proof (cases "dget (names p) fid")
      case (Some ino)
      from through [OF p Some] b Some show ?thesis
        by (simp add: write_batch_cached_def write_batch_def Let_def split_beta)
    next
      case None
      obtain f0 where f0: "pre_allocate_wal (32 + ?total) = Inr f0"
        using pre_allocate_rel [of "32 + ?total" 0] by auto
      have c: "dget (names (create_name fid f0 p)) fid = Some (next_inode p)"
        "inodes (create_name fid f0 p) (next_inode p) = f0" "visible (create_name fid f0 p) = dset (visible p) fid f0"
        using visible_create [OF fs None] by (simp_all add: create_name_def)
      from through [OF io_ok_create [OF p None] c(1)] b None f0 c(2,3) show ?thesis
        by (simp add: write_batch_cached_def write_batch_def Let_def split_beta dset_dset)
    qed
  qed
qed

lemma mark_file_cached_ok:
  assumes p: "io_ok p"
  shows "io_ok (mark_file_cached fid txs p)"
    and "visible (mark_file_cached fid txs p) =
      (case dget (visible p) fid of None \<Rightarrow> visible p | Some f \<Rightarrow> dset (visible p) fid (fold mark_entry txs f))"
proof -
  have "io_ok (mark_file_cached fid txs p) \<and> visible (mark_file_cached fid txs p) =
      (case dget (visible p) fid of None \<Rightarrow> visible p | Some f \<Rightarrow> dset (visible p) fid (fold mark_entry txs f))"
  proof (cases "dget (names p) fid")
    case None
    then show ?thesis using p by (simp add: mark_file_cached_def)
  next
    case (Some ino)
    show ?thesis
    proof (rule get_open_file_ok [OF p Some])
      fix p2 assume p2: "get_open_file fid p = (Inr ino, p2)" "io_ok p2" "names p2 = names p" "inodes p2 = inodes p"
        "visible p2 = visible p"
      then have "fs_ok p2" by (simp add: io_ok_def)
      from visible_write [OF this, of fid ino] Some p2 io_ok_write show ?thesis
        by (simp add: mark_file_cached_def)
    qed
  qed
  then show "io_ok (mark_file_cached fid txs p)"
    and "visible (mark_file_cached fid txs p) =
      (case dget (visible p) fid of None \<Rightarrow> visible p | Some f \<Rightarrow> dset (visible p) fid (fold mark_entry txs f))"
    by simp_all
qed

text \<open>Marking by groups, one group per file, against marking one transaction after the other.\<close>

definition mark_group :: "nat \<times> nat list \<Rightarrow> wal_files \<Rightarrow> wal_files" where
  "mark_group g files =
     (case dget files (fst g) of None \<Rightarrow> files | Some f \<Rightarrow> dset files (fst g) (fold mark_entry (snd g) f))"

lemma map_fst_dset: "dget d k \<noteq> None \<Longrightarrow> map fst (dset d k v) = map fst d"
  by (induction d k v rule: dset.induct) (auto split: if_splits)

lemma dict_keys_values: "dict_ok d \<Longrightarrow> map (\<lambda>k. (k, the (dget d k))) (map fst d) = d"
proof (induction d)
  case (Cons e d)
  have "map (\<lambda>k. (k, the (dget (e # d) k))) (map fst d) = map (\<lambda>k. (k, the (dget d k))) (map fst d)"
  proof (rule map_cong [OF refl])
    fix k assume "k \<in> set (map fst d)"
    then have "k \<noteq> fst e" using Cons.prems unfolding dict_ok_def by (metis distinct.simps(2) list.map(2))
    then show "(k, the (dget (e # d) k)) = (k, the (dget d k))" by simp
  qed
  with Cons show ?case by (simp add: dict_ok_def)
qed simp

lemma dict_eqI:
  assumes "map fst d = map fst d'" and "dict_ok d" and "\<And>k. dget d k = dget d' k"
  shows "d = d'"
  using dict_keys_values [of d] dict_keys_values [of d'] assms by (simp add: dict_ok_def)

lemma mark_in_files_get:
  "dget (mark_in_files txs files) fid = map_option (fold mark_entry (filter (\<lambda>t. file_id_of t = Inr fid) txs)) (dget files fid)"
  by (induction txs files rule: mark_in_files.induct) (auto split: sum.splits option.splits simp: option.map_comp option.map_ident comp_def)

lemma mark_in_files_map_fst: "map fst (mark_in_files txs files) = map fst files"
  by (induction txs files rule: mark_in_files.induct) (auto split: sum.splits option.splits simp: map_fst_dset)

lemma mark_groups_map_fst: "map fst (fold mark_group gs files) = map fst files"
  by (induction gs arbitrary: files) (auto simp: mark_group_def map_fst_dset split: option.splits)

lemma mark_groups_get:
  "distinct (map fst gs) \<Longrightarrow> dget (fold mark_group gs files) fid =
     map_option (fold mark_entry (case dget gs fid of None \<Rightarrow> [] | Some b \<Rightarrow> b)) (dget files fid)"
proof (induction gs arbitrary: files)
  case (Cons g gs)
  obtain k b where g: "g = (k, b)" by (cases g)
  have "dget gs k = None" using Cons.prems g by (simp add: dget_None_iff)
  with Cons g show ?case by (auto simp: mark_group_def option.map_comp comp_def split: option.splits)
qed (simp add: option.map_id)

lemma files_to_update_get:
  "(case dget (files_to_update txs) fid of None \<Rightarrow> [] | Some b \<Rightarrow> b) = filter (\<lambda>t. file_id_of t = Inr fid) txs"
  by (induction txs rule: rev_induct) (auto simp: files_to_update_def split: sum.splits option.splits)

lemma files_to_update_distinct: "distinct (map fst (files_to_update txs))"
proof -
  have "dict_ok (files_to_update txs)"
    by (induction txs rule: rev_induct) (auto simp: files_to_update_def split: sum.splits)
  then show ?thesis by (simp add: dict_ok_def)
qed

lemma mark_groups_mark_in_files: "dict_ok files \<Longrightarrow> fold mark_group (files_to_update txs) files = mark_in_files txs files"
proof (rule dict_eqI)
  fix k assume "dict_ok files"
  show "dget (fold mark_group (files_to_update txs) files) k = dget (mark_in_files txs files) k"
    by (simp add: mark_groups_get [OF files_to_update_distinct] files_to_update_get mark_in_files_get)
qed (simp_all add: mark_groups_map_fst mark_in_files_map_fst dict_ok_def)

lemma mark_many_cached_ok:
  assumes p: "io_ok p"
  shows "io_ok (mark_many_cached txs p) \<and> visible (mark_many_cached txs p) = mark_in_files txs (visible p)"
proof -
  have "io_ok (fold (\<lambda>(fid, ts). mark_file_cached fid ts) gs p) \<and>
      visible (fold (\<lambda>(fid, ts). mark_file_cached fid ts) gs p) = fold mark_group gs (visible p)" for gs
    using p by (induction gs arbitrary: p) (auto simp: mark_file_cached_ok mark_group_def split_beta)
  moreover have "dict_ok (visible p)" using p by (simp add: io_ok_def fs_ok_def)
  ultimately show ?thesis by (simp add: mark_many_cached_def mark_groups_mark_in_files)
qed

lemma pre_allocate_io_ok: "io_ok p \<Longrightarrow> io_ok (pre_allocate_io fid p) \<and> visible (pre_allocate_io fid p) = pre_allocate_async fid (visible p)"
  using io_ok_create [of p fid] visible_create [of p fid]
  by (auto simp: pre_allocate_io_def pre_allocate_async_def io_ok_def split: sum.splits)

subsection \<open>Every history without an unlink\<close>

datatype wal_io_op =
    Write_Batch "nat \<Rightarrow> 64 word" "nat set" "tx_record list"
  | Mark_Many "nat list"
  | Mark_One nat nat
  | Pre_Allocate nat
  | Close_Handle

fun io_step :: "wal_io_op \<Rightarrow> wal_io \<Rightarrow> unit result \<times> wal_io" where
  "io_step (Write_Batch stamp done batch) p = write_batch_cached stamp done batch p"
| "io_step (Mark_Many txs) p = (Inr (), mark_many_cached txs p)"
| "io_step (Mark_One tx fid) p = (Inr (), mark_file_cached fid [tx] p)"
| "io_step (Pre_Allocate fid) p = (Inr (), pre_allocate_io fid p)"
| "io_step Close_Handle p = (Inr (), close_cached p)"

fun file_step :: "wal_io_op \<Rightarrow> wal_files \<Rightarrow> unit result \<times> wal_files" where
  "file_step (Write_Batch stamp done batch) files = write_batch stamp done batch files"
| "file_step (Mark_Many txs) files = (Inr (), mark_in_files txs files)"
| "file_step (Mark_One tx fid) files =
     (Inr (), case dget files fid of None \<Rightarrow> files | Some f \<Rightarrow> dset files fid (mark_entry tx f))"
| "file_step (Pre_Allocate fid) files = (Inr (), pre_allocate_async fid files)"
| "file_step Close_Handle files = (Inr (), files)"

interpretation handle_machine: simulation io_step file_step "\<lambda>_ files p. io_ok p \<and> visible p = files" "\<lambda>_. True" "\<lambda>_ _. 0" 1
proof unfold_locales
  fix n files p x
  assume p: "io_ok p \<and> visible p = files"
  show "\<exists>p'. io_step x p = (fst (file_step x files), p') \<and> io_ok p' \<and> visible p' = snd (file_step x files)"
  proof (cases x)
    case (Write_Batch stamp "done" batch)
    with write_batch_cached_ok [of p stamp "done" batch] p show ?thesis by auto
  next
    case (Mark_Many txs)
    with mark_many_cached_ok [of p txs] p show ?thesis by auto
  next
    case (Mark_One tx fid)
    with mark_file_cached_ok [of p fid "[tx]"] p show ?thesis by (auto split: option.splits)
  next
    case (Pre_Allocate fid)
    with pre_allocate_io_ok [of p fid] p show ?thesis by auto
  next
    case Close_Handle
    moreover have "visible (close_cached p) = visible p"
      by (auto simp: close_cached_def visible_def split: option.splits bool.splits)
    ultimately show ?thesis using io_ok_close p by auto
  qed
qed

text \<open>A directory with a file of it opened through the handle.\<close>

definition opened :: "wal_files \<Rightarrow> nat \<Rightarrow> wal_io" where
  "opened files fid =
     (let ns = zip (map fst files) [0 ..< length files]
      in snd (get_open_file fid \<lparr>names = ns, inodes = (\<lambda>i. if i < length files then snd (files ! i) else zero_file 0),
           next_inode = length files, current_file_path = None, current_file = None\<rparr>))"

lemma opened_ok:
  assumes "dict_ok files" and "dget files fid \<noteq> None"
  shows "io_ok (opened files fid)" "visible (opened files fid) = files" "current_file_path (opened files fid) = Some fid"
    "\<exists>ino. current_file (opened files fid) = Some (ino, False)"
proof -
  let ?ns = "zip (map fst files) [0 ..< length files]"
  let ?g = "\<lambda>i. if i < length files then snd (files ! i) else zero_file 0"
  let ?p = "\<lparr>names = ?ns, inodes = ?g, next_inode = length files, current_file_path = None, current_file = None\<rparr>"
  have v: "visible ?p = files" by (rule nth_equalityI) (simp_all add: visible_def)
  have ok: "io_ok ?p"
    using assms(1) by (auto simp: io_ok_def fs_ok_def dict_ok_def dest: set_zip_rightD)
  have "map_option ?g (dget ?ns fid) = dget files fid" using dget_visible [of ?p fid] unfolding v by simp
  then have "dget ?ns fid \<noteq> None" using assms(2) by (metis option.map_disc_iff)
  then obtain ino where "dget ?ns fid = Some ino" by blast
  then have ino: "dget (names ?p) fid = Some ino" by simp
  from get_open_file_ok [OF ok ino] obtain p' where p': "get_open_file fid ?p = (Inr ino, p')" "io_ok p'" "visible p' = visible ?p"
    by blast
  have "opened files fid = p'" using p'(1) by (simp add: opened_def Let_def)
  moreover have "current_file_path p' = Some fid" "current_file p' = Some (ino, False)"
    using p'(1) ino by (auto simp: get_open_file_def)
  ultimately show "io_ok (opened files fid)" "visible (opened files fid) = files"
    "current_file_path (opened files fid) = Some fid" "\<exists>ino. current_file (opened files fid) = Some (ino, False)"
    using p'(2,3) v by simp_all
qed

text \<open>C21: Whatever batches are written, transactions marked, files pre-allocated and handles closed, in
  any order, the answers and the files of the directory are the same through the cached handle as by name,
  as long as no name is removed.\<close>

theorem cached_handle_is_transparent:
  assumes "io_ok p"
  shows "fst (run io_step ops p) = fst (run file_step ops (visible p)) \<and>
    visible (snd (run io_step ops p)) = snd (run file_step ops (visible p))"
proof -
  have "run_cost (\<lambda>_ _. 0) file_step ops (visible p) = 0" by (simp add: run_cost_constant)
  with handle_machine.history_simulates [where n = 0 and v = "visible p" and c = p and xs = ops] assms show ?thesis by simp
qed

theorem cached_handle_is_transparent_witness:
  "\<exists>f. pre_allocate_wal 36 = Inr f \<and>
     visible (snd (run io_step [Mark_Many [50000, 0], Pre_Allocate 2] (opened [(0, f), (1, f)] 1))) =
       pre_allocate_async 2 [(0, mark_entry 0 f), (1, mark_entry 50000 f)]"
proof -
  obtain f where f: "pre_allocate_wal 36 = Inr f" using pre_allocate_rel [of 36 0] by auto
  have "io_ok (opened [(0, f), (1, f)] 1)" and v: "visible (opened [(0, f), (1, f)] 1) = [(0, f), (1, f)]"
    using opened_ok [of "[(0, f), (1, f)]" 1] by (simp_all add: dict_ok_def)
  from cached_handle_is_transparent [OF this(1), of "[Mark_Many [50000, 0], Pre_Allocate 2]"]
  have "visible (snd (run io_step [Mark_Many [50000, 0], Pre_Allocate 2] (opened [(0, f), (1, f)] 1))) =
      snd (run file_step [Mark_Many [50000, 0], Pre_Allocate 2] [(0, f), (1, f)])"
    unfolding v by (rule conjunct2)
  moreover have "snd (run file_step [Mark_Many [50000, 0], Pre_Allocate 2] [(0, f), (1, f)]) =
      pre_allocate_async 2 (mark_in_files [50000, 0] [(0, f), (1, f)])" by simp
  moreover have "mark_in_files [50000, 0] [(0, f), (1, f)] = [(0, mark_entry 0 f), (1, mark_entry 50000 f)]"
    by (simp add: file_id_of_def validate_tx_id_def WAL_CAPACITY_def)
  ultimately show ?thesis using f by auto
qed

subsection \<open>A stale handle\<close>

text \<open>
  When the name of the cached file is gone, the next batch for it makes a new file under the name and
  then goes to the old one: the new file keeps nothing of it.
\<close>

lemma stale_batch:
  assumes fs: "fs_ok p" and cached: "current_file p = Some (ino, False)" "current_file_path p = Some fid"
    and gone: "dget (names p) fid = None" "ino \<notin> snd ` set (names p)" "ino < next_inode p"
    and batch: "batch \<noteq> []" "file_id_of (fst (hd batch)) = Inr fid"
    and pre: "pre_allocate_wal (32 + sum_list (map (\<lambda>(_, p). length p + 4) batch)) = Inr f"
  shows "visible (snd (write_batch_cached stamp done batch p)) = dset (visible p) fid f"
    and "fst (write_batch_cached stamp done batch p) = fst (write_batch_file stamp done batch (inodes p ino))"
proof -
  let ?p = "create_name fid f p"
  have o: "get_open_file fid ?p = (Inr ino, ?p)"
    using cached by (simp add: get_open_file_def create_name_def)
  have i: "inodes ?p ino = inodes p ino" using gone(3) by (simp add: create_name_def)
  have "fid \<notin> fst ` set (names p)" using gone(1) by (simp add: dget_None_iff)
  then have "ino \<notin> snd ` set (names ?p)" using gone(2,3) by (auto simp: create_name_def dset_absent)
  from visible_write_orphan [OF this] visible_create [OF fs gone(1)] o i batch gone(1) pre
  show "visible (snd (write_batch_cached stamp done batch p)) = dset (visible p) fid f"
    and "fst (write_batch_cached stamp done batch p) = fst (write_batch_file stamp done batch (inodes p ino))"
    by (simp_all add: write_batch_cached_def Let_def split_beta)
qed

text \<open>Unlinking names leaves the handle where it is.\<close>

lemma unlink_names:
  "current_file (fold unlink ids p) = current_file p" "current_file_path (fold unlink ids p) = current_file_path p"
  "inodes (fold unlink ids p) = inodes p" "next_inode (fold unlink ids p) = next_inode p"
  "names (fold unlink ids p) = filter (\<lambda>e. fst e \<notin> set ids) (names p)"
  by (induction ids arbitrary: p) (auto simp: unlink_def ddel_def intro: filter_cong)

lemma fs_ok_unlink: "fs_ok p \<Longrightarrow> fs_ok (fold unlink ids p)"
  by (auto simp: fs_ok_def unlink_names dict_ok_def distinct_map_filter)

lemma stale_after_unlink:
  assumes "io_ok p" and "current_file p = Some (ino, False)" "current_file_path p = Some fid" and "fid \<in> set ids"
  shows "dget (names (fold unlink ids p)) fid = None" "ino \<notin> snd ` set (names (fold unlink ids p))" "ino < next_inode p"
proof -
  have n: "dget (names p) fid = Some ino" and fs: "fs_ok p" using assms(1-3) by (auto simp: io_ok_def)
  then have m: "(fid, ino) \<in> set (names p)" by (force dest: map_of_SomeD)
  show "dget (names (fold unlink ids p)) fid = None" using assms(4) by (auto simp: unlink_names dget_None_iff)
  show "ino < next_inode p" using fs m by (force simp: fs_ok_def)
  have "e = (fid, ino)" if "e \<in> set (names p)" "snd e = ino" for e
    using fs m that inj_onD [of snd "set (names p)" e "(fid, ino)"] by (simp add: fs_ok_def distinct_map)
  then show "ino \<notin> snd ` set (names (fold unlink ids p))"
    using assms(4) by (force simp: unlink_names)
qed

end
