(* ===== verification/Checkpoint.thy ===== *)
theory Checkpoint
  imports Wal_Log Wal_Handle
begin

text \<open>
  \<open>recovery/checkpoint.py\<close>: one cycle of the background checkpoint, which archives every WAL file but
  the newest whose entries are all marked complete, and then removes it. An archive is given by the
  bytes it decompresses to. The thread that makes the cycles is in
  \<open>Checkpoint_Thread\<close>.
\<close>

subsection \<open>The checkpoint cycle\<close>

record checkpoint =
  cp_files :: wal_files
  cp_archives :: wal_files

definition is_file_fully_completed :: "pyfile \<Rightarrow> bool" where
  "is_file_fully_completed f =
     (let h = fread f 0 32
      in if length h < 32 then False
         else let (magic, cap, rec, used, checksum) = unpack_header h
              in if magic \<noteq> blit ''WAL1'' then False
                 else if crc32 (header_prefix magic cap rec used) \<noteq> checksum then False
                 else if rec = 0 then True
                 else list_all (\<lambda>i. let e = fread f (entry_offset i) 25 in length e = 25 \<and> e ! 16 \<noteq> 0) [0 ..< rec])"

text \<open>\<open>copied\<close> and \<open>removed\<close> tell whether compressing and unlinking the file succeed.\<close>

definition archive_file :: "(nat \<Rightarrow> bool) \<Rightarrow> (nat \<Rightarrow> bool) \<Rightarrow> nat \<Rightarrow> checkpoint \<Rightarrow> checkpoint" where
  "archive_file copied removed fid c =
     (if dget (cp_archives c) fid \<noteq> None then c
      else case dget (cp_files c) fid of
        None \<Rightarrow> c
      | Some f \<Rightarrow>
          if \<not> copied fid then c
          else let c1 = c\<lparr>cp_archives := dset (cp_archives c) fid f\<rparr>
               in if removed fid then c1\<lparr>cp_files := ddel (cp_files c1) fid\<rparr> else c1)"

definition checkpoint_one :: "(nat \<Rightarrow> bool) \<Rightarrow> (nat \<Rightarrow> bool) \<Rightarrow> nat \<Rightarrow> checkpoint \<Rightarrow> checkpoint" where
  "checkpoint_one copied removed fid c =
     (case dget (cp_files c) fid of
        None \<Rightarrow> c
      | Some f \<Rightarrow> if is_file_fully_completed f then archive_file copied removed fid c else c)"

definition run_checkpoint :: "(nat \<Rightarrow> bool) \<Rightarrow> (nat \<Rightarrow> bool) \<Rightarrow> int \<Rightarrow> checkpoint \<Rightarrow> checkpoint" where
  "run_checkpoint copied removed flushes c =
     (if flushes > 0 then c
      else if length (cp_files c) \<le> 1 then c
      else fold (checkpoint_one copied removed) (butlast (sorted_ids (cp_files c))) c)"

text \<open>A cycle removes names; a handle that is open on a removed file stays open.\<close>

definition unlink_archived :: "checkpoint \<Rightarrow> wal_io \<Rightarrow> wal_io" where
  "unlink_archived c p = fold unlink (filter (\<lambda>i. dget (cp_files c) i = None) (dkeys (names p))) p"

subsection \<open>Completed files hold no pending record\<close>

lemma fully_completed_rel:
  assumes r: "file_rel fid rs f" and b: "fid * WAL_CAPACITY + WAL_CAPACITY \<le> 2 ^ 63"
  shows "is_file_fully_completed f \<longleftrightarrow> (\<forall>r \<in> set rs. snd r)"
proof -
  have h: "length (fread f 0 32) = 32" "check_header (fread f 0 32) = Inr (WAL_CAPACITY, length rs, space_used rs)"
    by (rule file_rel_header [OF r])+
  obtain magic cap rec used cs where u: "unpack_header (fread f 0 32) = (magic, cap, rec, used, cs)"
    by (cases "unpack_header (fread f 0 32)") auto
  with h(2) have c: "magic = blit ''WAL1''" "crc32 (header_prefix magic cap rec used) = cs" "rec = length rs"
    by (auto simp: check_header_def split: if_splits)
  have e: "(let e = fread f (entry_offset i) 25 in length e = 25 \<and> e ! 16 \<noteq> 0) \<longleftrightarrow> snd (rs ! i)" if i: "i < length rs" for i
  proof -
    obtain st where "fread f (entry_offset i) 25 =
        entry_image (fid * WAL_CAPACITY + i) st (snd (rs ! i)) (header_block_size + space_used (take i rs))"
      by (rule file_rel_entry [OF r i])
    then show ?thesis by (simp add: entry_image_def nth_append)
  qed
  have "list_all (\<lambda>i. let e = fread f (entry_offset i) 25 in length e = 25 \<and> e ! 16 \<noteq> 0) [0 ..< length rs] \<longleftrightarrow>
      (\<forall>i < length rs. snd (rs ! i))"
    using e by (auto simp: list_all_iff)
  then show ?thesis
    using h(1) c by (simp add: is_file_fully_completed_def u all_set_conv_all_nth)
qed

lemma pending_completed: "pending_from tx rs = [] \<longleftrightarrow> (\<forall>r \<in> set rs. snd r)"
  by (induction tx rs rule: pending_from.induct) auto

text \<open>What a directory replays when every file replays on its own.\<close>

definition replays :: "wal_files \<Rightarrow> (nat \<Rightarrow> tx_record list) \<Rightarrow> bool" where
  "replays files P \<longleftrightarrow> dict_ok files \<and> (\<forall>fid f. dget files fid = Some f \<longrightarrow> read_wal_file f = (P fid, None))"

lemma read_files_replays:
  "(\<forall>fid f. dget files fid = Some f \<longrightarrow> read_wal_file f = (P fid, None)) \<Longrightarrow> \<forall>fid \<in> set fids. dget files fid \<noteq> None \<Longrightarrow>
   read_files (map (\<lambda>i. the (dget files i)) fids) = (concat (map P fids), None)"
  by (induction fids) auto

lemma set_sorted_ids: "set (sorted_ids files) = fst ` set files"
  by (simp add: sorted_ids_def dkeys_def)

lemma read_wal_replays: "replays files P \<Longrightarrow> read_wal files = (concat (map P (sorted_ids files)), None)"
  unfolding read_wal_def replays_def
  by (intro read_files_replays) (auto simp: set_sorted_ids dget_None_iff)

lemma sorted_ids_ddel: "sorted_ids (ddel files fid) = filter (\<lambda>i. i \<noteq> fid) (sorted_ids files)"
  by (simp add: sorted_ids_def dkeys_def ddel_def filter_sort filter_map comp_def)

lemma concat_drop_empty: "P fid = [] \<Longrightarrow> concat (map P (filter (\<lambda>i. i \<noteq> fid) ids)) = concat (map P ids)"
  by (induction ids) auto

lemma replays_ddel: "replays files P \<Longrightarrow> replays (ddel files fid) P"
  by (auto simp: replays_def)

lemma wal_run_replays:
  assumes "wal_run w D M"
  obtains db where "files_rel (wal_files w) db" "replays (wal_files w) (\<lambda>fid. pending_from (fid * WAL_CAPACITY) (db fid))"
    "\<forall>fid \<in> fst ` set (wal_files w). id_ok (fid * WAL_CAPACITY)"
proof -
  obtain db n where a: "files_rel (wal_files w) db" "\<forall>fid \<in> fst ` set (wal_files w). id_ok (fid * WAL_CAPACITY)"
    by (rule wal_invE [OF wal_run_inv [OF assms]])
  have "read_wal_file f = (pending_from (fid * WAL_CAPACITY) (db fid), None)" if f: "dget (wal_files w) fid = Some f" for fid f
  proof -
    have "fid \<in> fst ` set (wal_files w)" using f by (force dest: map_of_SomeD)
    then have "fid * WAL_CAPACITY + WAL_CAPACITY \<le> 2 ^ 63" using a(2) by (auto simp: id_ok_def)
    then show ?thesis using read_wal_file_db [OF a(1) f] by blast
  qed
  then have "replays (wal_files w) (\<lambda>fid. pending_from (fid * WAL_CAPACITY) (db fid))"
    using a(1) by (simp add: replays_def files_rel_def)
  from that [OF a(1) this a(2)] show thesis .
qed

text \<open>The state of a cycle: what replays, and which file every archive holds.\<close>

definition cycle_inv :: "wal_files \<Rightarrow> (nat \<Rightarrow> log_records) \<Rightarrow> wal_files \<Rightarrow> checkpoint \<Rightarrow> bool" where
  "cycle_inv files db arch c \<longleftrightarrow>
     replays (cp_files c) (\<lambda>fid. pending_from (fid * WAL_CAPACITY) (db fid)) \<and>
     (\<forall>fid f. dget (cp_files c) fid = Some f \<longrightarrow> dget files fid = Some f) \<and>
     read_wal (cp_files c) = read_wal files \<and>
     (\<forall>fid f. dget arch fid = Some f \<longrightarrow> dget (cp_archives c) fid = Some f) \<and>
     (\<forall>fid f. dget files fid = Some f \<longrightarrow> dget (cp_files c) fid \<noteq> Some f \<longrightarrow>
        dget arch fid = None \<and> dget (cp_archives c) fid = Some f \<and> is_file_fully_completed f)"

lemma checkpoint_one_inv:
  assumes inv: "cycle_inv files db arch c" and r: "files_rel files db"
    and ok: "\<forall>fid \<in> fst ` set files. id_ok (fid * WAL_CAPACITY)"
  shows "cycle_inv files db arch (checkpoint_one copied removed fid c)"
proof (cases "dget (cp_files c) fid")
  case (Some f)
  show ?thesis
  proof (cases "is_file_fully_completed f \<and> dget (cp_archives c) fid = None \<and> copied fid")
    case True
    have f: "dget files fid = Some f" using inv Some by (simp add: cycle_inv_def)
    then have "id_ok (fid * WAL_CAPACITY)" using ok by (force dest: map_of_SomeD)
    then have "fid * WAL_CAPACITY + WAL_CAPACITY \<le> 2 ^ 63" by (auto simp: id_ok_def)
    from fully_completed_rel [OF files_rel_get [OF r f] this] True
    have P: "pending_from (fid * WAL_CAPACITY) (db fid) = []" by (simp add: pending_completed)
    have rep: "replays (cp_files c) (\<lambda>fid. pending_from (fid * WAL_CAPACITY) (db fid))"
      using inv by (simp add: cycle_inv_def)
    have "read_wal (ddel (cp_files c) fid) = read_wal (cp_files c)"
      using read_wal_replays [OF rep] read_wal_replays [OF replays_ddel [OF rep, of fid]] P
      by (simp add: sorted_ids_ddel concat_drop_empty)
    moreover have "dget arch fid = None"
      using inv True by (cases "dget arch fid") (auto simp: cycle_inv_def)
    ultimately show ?thesis
      using inv True Some f replays_ddel [OF rep, of fid]
      by (auto simp: cycle_inv_def checkpoint_one_def archive_file_def Let_def)
  next
    case False
    then show ?thesis using inv Some by (auto simp: checkpoint_one_def archive_file_def)
  qed
qed (use inv in \<open>simp add: checkpoint_one_def\<close>)

lemma fold_checkpoint_inv:
  "cycle_inv files db arch c \<Longrightarrow> files_rel files db \<Longrightarrow> \<forall>fid \<in> fst ` set files. id_ok (fid * WAL_CAPACITY) \<Longrightarrow>
   cycle_inv files db arch (fold (checkpoint_one copied removed) ids c)"
  by (induction ids arbitrary: c) (auto intro: checkpoint_one_inv)

lemma run_checkpoint_inv:
  assumes "wal_run w D M"
  shows "\<exists>db. files_rel (wal_files w) db \<and>
    cycle_inv (wal_files w) db arch (run_checkpoint copied removed n \<lparr>cp_files = wal_files w, cp_archives = arch\<rparr>)"
proof -
  obtain db where a: "files_rel (wal_files w) db" "replays (wal_files w) (\<lambda>fid. pending_from (fid * WAL_CAPACITY) (db fid))"
    "\<forall>fid \<in> fst ` set (wal_files w). id_ok (fid * WAL_CAPACITY)"
    by (rule wal_run_replays [OF assms])
  have "cycle_inv (wal_files w) db arch \<lparr>cp_files = wal_files w, cp_archives = arch\<rparr>"
    using a(2) by (simp add: cycle_inv_def)
  from fold_checkpoint_inv [OF this a(1,3)] this a(1) show ?thesis by (auto simp: run_checkpoint_def)
qed

text \<open>C25: A checkpoint cycle never loses a pending record: replay of the directory gives the same records
  before and after, every file it removed is the content of an archive that did not exist before, and
  no existing archive is overwritten, whichever of its system calls fail.\<close>

theorem checkpoint_keeps_pending_records:
  assumes "wal_run w D M"
    and "run_checkpoint copied removed (active_flushes w) \<lparr>cp_files = wal_files w, cp_archives = arch\<rparr> = c"
  shows "read_wal (cp_files c) = read_wal (wal_files w) \<and>
    (\<forall>fid f. dget arch fid = Some f \<longrightarrow> dget (cp_archives c) fid = Some f) \<and>
    (\<forall>fid f. dget (wal_files w) fid = Some f \<longrightarrow> dget (cp_files c) fid = None \<longrightarrow>
       dget arch fid = None \<and> dget (cp_archives c) fid = Some f)"
  using run_checkpoint_inv [OF assms(1), of arch copied removed "active_flushes w"]
  unfolding assms(2) cycle_inv_def by fastforce

theorem checkpoint_keeps_pending_records_witness:
  "\<exists>(w :: wal) c. run_checkpoint (\<lambda>_. True) (\<lambda>_. True) (active_flushes w) \<lparr>cp_files = wal_files w, cp_archives = []\<rparr> = c \<and>
     read_wal (cp_files c) = ([(0, [7])], None)"
proof -
  obtain w where w: "wal_run w [(0, [7])] {}" using one_record by blast
  then show ?thesis using checkpoint_keeps_pending_records [OF w refl] read_wal_run [OF w] by auto
qed

subsection \<open>Archiving the file that is still written to\<close>

text \<open>
  The newest file is the pre-allocated next one, so the cycle takes the file that the log still
  appends to for a sealed one. When that file is gone, the next batch goes to a fresh file, at a slot
  behind the record count of its header.
\<close>

lemma fresh_file_bytes:
  assumes "pre_allocate_wal n = Inr f" and "32 \<le> n"
  shows "32 \<le> i \<Longrightarrow> fbyte f i = 0" and "fread f 0 32 = header_image (blit ''WAL1'') WAL_CAPACITY 0 0"
proof -
  have h: "header_image (blit ''WAL1'') WAL_CAPACITY 0 0 \<noteq> []"
    using length_header_image by (metis list.size(3) zero_neq_numeral)
  have f: "f = fwrite (zero_file n) 0 (header_image (blit ''WAL1'') WAL_CAPACITY 0 0)"
    using assms(1) by (simp add: pre_allocate_wal_def create_file_header_def)
  show "32 \<le> i \<Longrightarrow> fbyte f i = 0" using h by (simp add: f fwrite_def zero_file_def)
  show "fread f 0 32 = header_image (blit ''WAL1'') WAL_CAPACITY 0 0"
    using fread_fwrite_same [of "zero_file n" 0 "header_image (blit ''WAL1'') WAL_CAPACITY 0 0"] by (simp add: f)
qed

lemma read_zero_entry:
  assumes "fread f 0 32 = header_image (blit ''WAL1'') WAL_CAPACITY 1 used" and "used \<le> PAYLOAD_AREA_SIZE"
    and "fread f 32 25 = replicate 25 0"
  shows "read_wal_file f = ([], None)"
proof -
  have "check_header (fread f 0 32) = Inr (WAL_CAPACITY, 1, used)"
    unfolding assms(1) using sizes(1) sizes(3) [OF assms(2)] by (intro check_header_image) simp_all
  moreover have "length (fread f 0 32) = 32" by (simp add: assms(1))
  moreover have "read_entries f [0] = ([], None)"
  proof -
    have "fread f 0 4 = slice (fread f 0 32) 0 4" using fread_within [of 0 4 f 0 32] \<open>length (fread f 0 32) = 32\<close> by simp
    also have "\<dots> = blit ''WAL1''" by (simp add: assms(1) header_image_def header_prefix_def slice_def)
    finally have "fread f 0 4 = blit ''WAL1''" .
    moreover have "be_val (blit ''WAL1'') > PAYLOAD_AREA_SIZE"
      by (simp add: be_val_def blit_def PAYLOAD_AREA_SIZE_def)
    moreover have "be_val (slice (replicate 25 0) 17 25) = 0" "be_val (slice (replicate 25 0) 0 8) = 0"
      by (simp_all add: slice_def be_val_def numeral_eq_Suc)
    ultimately show ?thesis using assms(3) by (simp add: entry_offset_def Let_def)
  qed
  ultimately show ?thesis by (simp add: read_wal_file_def)
qed

lemma write_to_fresh_file:
  assumes f: "pre_allocate_wal (32 + (length r + 4)) = Inr f" and tx: "tx < 2 ^ 63" "0 < tx mod WAL_CAPACITY"
    and r: "length r + 4 \<le> PAYLOAD_AREA_SIZE"
  shows "\<exists>f'. write_batch_file stamp done [(tx, r)] f = (Inr (), f') \<and> read_wal_file f' = ([], None)"
proof -
  let ?k = "tx mod WAL_CAPACITY"
  let ?es = "entry_image tx (stamp 0) (tx \<in> done) header_block_size"
  let ?block = "frame r"
  let ?hd = "header_image (blit ''WAL1'') WAL_CAPACITY 1 (length r + 4)"
  define f1 where "f1 = fwrite f header_block_size ?block"
  define f2 where "f2 = fwrite f1 (entry_offset ?k) ?es"
  define f3 where "f3 = fwrite f2 0 ?hd"
  have h: "check_header (fread f 0 32) = Inr (WAL_CAPACITY, 0, 0)" "length (fread f 0 32) = 32"
    using fresh_file_bytes(2) [OF f] check_header_image [of WAL_CAPACITY 0 0] sizes(1) by simp_all
  have l: "layout_payloads [(tx, r)] 0 = Inr ([header_block_size], ?block, length r + 4)"
    using layout_payloads_fits [of 0 "done" "[(tx, r)]"] r by (simp del: layout_payloads.simps)
  have e: "layout_entries stamp done [(tx, r)] [header_block_size] = Inr ?es"
    using layout_entries_ok [of "[(tx, r)]" tx 0 "done" stamp] tx(1) r by simp
  have s: "get_slot_index tx = Inr ?k"
    using validate_tx_id_nat [OF tx(1)] by (simp add: get_slot_index_def)
  have "length r + 4 < 2 ^ 32" using sizes(3) [OF r] .
  then have c: "bind_result (to_be 4 (int (0 + length [(tx, r)]))) (\<lambda>_. to_be 8 (int (length r + 4))) = Inr (be_bytes 8 (length r + 4))"
    by (simp add: to_be_def nat_add_distrib)
  have w: "write_batch_file stamp done [(tx, r)] f = (Inr (), f3)"
    using h c s e unfolding write_batch_file_def Let_def l f1_def f2_def f3_def
    by (simp only: h l sum.case prod.case s e fst_conv list.sel add_0 add_0_right if_True if_False refl HOL.simp_thms)
      (simp del: to_be_Inr)
  have lt: "57 \<le> entry_offset ?k" "entry_offset ?k + 25 \<le> header_block_size" "57 \<le> header_block_size"
    using tx(2) sizes(5) mod_less_divisor [OF sizes(5), of tx]
    by (auto simp: entry_offset_def header_block_size_def)
  have ne: "?block \<noteq> []" "?es \<noteq> []" "?hd \<noteq> []"
    using length_frame [of r] length_entry_image [of tx "stamp 0" "tx \<in> done" header_block_size] length_header_image
    by (metis list.size(3) add_is_0 zero_neq_numeral)+
  have "57 \<le> fsize f1" using ne(1) lt(3) by (simp add: f1_def fsize_fwrite)
  then have sz: "57 \<le> fsize f2" "57 \<le> fsize f3" using ne by (simp_all add: f3_def f2_def fsize_fwrite)
  have z: "fbyte f3 i = 0" if i: "32 \<le> i" "i < 57" for i
    using i lt fresh_file_bytes(1) [OF f _ i(1)] ne by (simp add: f3_def f2_def f1_def fwrite_def)
  have "fread f3 32 25 = replicate 25 0"
    using z sz(2) by (intro nth_equalityI) (auto simp: length_fread nth_fread)
  moreover have "fread f3 0 32 = ?hd" using fread_fwrite_same [of f2 0 ?hd] by (simp add: f3_def)
  ultimately have "read_wal_file f3 = ([], None)" using read_zero_entry r by blast
  with w show ?thesis by blast
qed

lemma fold_keeps_removed:
  "dget (cp_files c) q = None \<Longrightarrow> dget (cp_files (fold (checkpoint_one copied removed) ids c)) q = None"
  by (induction ids arbitrary: c) (auto simp: checkpoint_one_def archive_file_def Let_def split: option.splits)

lemma fold_removes:
  "dget (cp_files c) q = Some f \<Longrightarrow> dget (cp_archives c) q = None \<Longrightarrow> is_file_fully_completed f \<Longrightarrow> q \<in> set ids \<Longrightarrow>
   dget (cp_files (fold (checkpoint_one (\<lambda>_. True) (\<lambda>_. True)) ids c)) q = None"
proof (induction ids arbitrary: c)
  case (Cons i ids)
  let ?c = "checkpoint_one (\<lambda>_. True) (\<lambda>_. True) i c"
  show ?case
  proof (cases "i = q")
    case True
    then have "dget (cp_files ?c) q = None"
      using Cons.prems by (simp add: checkpoint_one_def archive_file_def Let_def)
    then show ?thesis using fold_keeps_removed by simp
  next
    case False
    then have "dget (cp_files ?c) q = Some f" "dget (cp_archives ?c) q = None"
      using Cons.prems by (auto simp: checkpoint_one_def archive_file_def Let_def split: option.splits)
    from Cons.IH [OF this Cons.prems(3)] Cons.prems(4) False show ?thesis by simp
  qed
qed simp

lemma butlast_sorted: "sorted_wrt (<) xs \<Longrightarrow> q \<in> set xs \<Longrightarrow> (p::nat) \<in> set xs \<Longrightarrow> q < p \<Longrightarrow> q \<in> set (butlast xs)"
proof (induction xs rule: rev_induct)
  case (snoc x xs)
  then show ?case by (auto simp: sorted_wrt_append)
qed simp

lemma replays_fresh:
  assumes rep: "replays files P" and f: "read_wal_file f = ([], None)"
  shows "set (fst (read_wal (dset files q f))) \<subseteq> set (fst (read_wal files))"
proof -
  have "replays (dset files q f) (P(q := []))" using rep f by (auto simp: replays_def)
  from read_wal_replays [OF this] read_wal_replays [OF rep] show ?thesis
    by (auto simp: set_sorted_ids split: if_splits)
qed

lemma write_one_fresh:
  assumes "dget files (tx div WAL_CAPACITY) = None" and "tx < 2 ^ 63" and "0 < tx mod WAL_CAPACITY"
    and "length r + 4 \<le> PAYLOAD_AREA_SIZE"
  shows "\<exists>f. write_batches stamp done (split_batches [(tx, r)]) files = (Inr (), dset files (tx div WAL_CAPACITY) f) \<and>
    read_wal_file f = ([], None)"
proof -
  obtain f0 where f0: "pre_allocate_wal (32 + (length r + 4)) = Inr f0"
    using pre_allocate_rel [of "32 + (length r + 4)" 0] by auto
  from write_to_fresh_file [OF f0 assms(2,3,4), of stamp "done"] obtain f where
    f: "write_batch_file stamp done [(tx, r)] f0 = (Inr (), f)" "read_wal_file f = ([], None)" by blast
  have "split_batches [(tx, r)] = [(tx div WAL_CAPACITY, [(tx, r)])]"
    by (simp add: split_batches_def add_to_batches_def)
  moreover have "file_id_of tx = Inr (tx div WAL_CAPACITY)"
    using validate_tx_id_nat [OF assms(2)] by (simp add: file_id_of_def)
  ultimately have "write_batches stamp done (split_batches [(tx, r)]) files = (Inr (), dset files (tx div WAL_CAPACITY) f)"
    using f f0 assms(1) by (simp add: write_batch_def Let_def)
  with f(2) show ?thesis by blast
qed

text \<open>The file the log appends to, when all its records are complete and the next file exists.\<close>

lemma current_file_completed:
  assumes run: "wal_run w D M" and buf: "wal_buffer w = []" and mid: "0 < global_tx_id w mod WAL_CAPACITY"
    and id: "id_ok (global_tx_id w)"
    and complete: "\<forall>tx \<in> fst ` set D. tx div WAL_CAPACITY = global_tx_id w div WAL_CAPACITY \<longrightarrow> tx \<in> M"
  obtains f where "dget (wal_files w) (global_tx_id w div WAL_CAPACITY) = Some f" "is_file_fully_completed f"
proof -
  let ?n = "global_tx_id w" and ?C = WAL_CAPACITY
  let ?q = "?n div ?C"
  obtain db where a: "files_rel (wal_files w) db" "disk_next db ?n" "durable_rel db D M ?n"
    using wal_invE [OF wal_run_inv [OF run]] buf by (metis add_0_right list.size(3))
  have lim: "?q * ?C + ?C \<le> 2 ^ 63" "?n < 2 ^ 63"
    using id div_mult_mod_eq [of ?n ?C] sizes(5) unfolding id_ok_def by linarith+
  have len: "length (db ?q) = ?n mod ?C" using a(2) by (simp add: disk_next_def)
  then have "db ?q \<noteq> []" using mid by auto
  then obtain f where f: "dget (wal_files w) ?q = Some f" "file_rel ?q (db ?q) f"
    using a(1) by (cases "dget (wal_files w) ?q") (auto simp: files_rel_def dest!: spec [of _ ?q])
  have marked: "snd (db ?q ! i)" if i: "i < length (db ?q)" for i
  proof -
    have "i < ?C" using i len mod_less_divisor [OF sizes(5), of ?n] by simp
    from block_div_mod [OF this refl, of ?q] have t: "(?q * ?C + i) div ?C = ?q" "(?q * ?C + i) mod ?C = i" by simp_all
    then have "rec_at db (?q * ?C + i) = Some (db ?q ! i)" using i by (simp add: rec_at_def)
    with a(3) obtain p where p: "map_of D (?q * ?C + i) = Some p" "db ?q ! i = (p, ?q * ?C + i \<in> M)"
      by (auto simp: durable_rel_def)
    then have "?q * ?C + i \<in> fst ` set D" by (force dest: map_of_SomeD)
    with complete t(1) have "?q * ?C + i \<in> M" by blast
    with p(2) show ?thesis by simp
  qed
  have comp: "is_file_fully_completed f"
    unfolding fully_completed_rel [OF f(2) lim(1)]
  proof
    fix x assume "x \<in> set (db ?q)"
    then obtain i where "i < length (db ?q)" "x = db ?q ! i" unfolding in_set_conv_nth by blast
    then show "snd x" using marked by simp
  qed
  from that [OF f(1) this] show thesis .
qed

lemma current_file_archived:
  assumes run: "wal_run w D M" and f: "dget (wal_files w) q = Some f" "is_file_fully_completed f"
    and nxt: "dget (wal_files w) (q + 1) \<noteq> None"
  shows "dget (cp_files (run_checkpoint (\<lambda>_. True) (\<lambda>_. True) 0 \<lparr>cp_files = wal_files w, cp_archives = []\<rparr>)) q = None"
proof -
  obtain db where a: "files_rel (wal_files w) db"
    by (rule wal_run_replays [OF run])
  have keys: "q \<in> set (sorted_ids (wal_files w))" "q + 1 \<in> set (sorted_ids (wal_files w))"
    using dget_None_iff [of "wal_files w" q] dget_None_iff [of "wal_files w" "q + 1"] f(1) nxt
    unfolding set_sorted_ids by simp_all
  have srt: "sorted_wrt (<) (sorted_ids (wal_files w))"
    using a(1) by (simp add: sorted_ids_def dkeys_def files_rel_def dict_ok_def strict_sorted_iff)
  have "length (sorted_ids (wal_files w)) = length (wal_files w)" by (simp add: sorted_ids_def dkeys_def)
  moreover have "card {q, q + 1} \<le> card (set (sorted_ids (wal_files w)))" using keys by (intro card_mono) auto
  ultimately have "\<not> length (wal_files w) \<le> 1" using card_length [of "sorted_ids (wal_files w)"] by simp
  then show ?thesis
    unfolding run_checkpoint_def
    using fold_removes [of "\<lparr>cp_files = wal_files w, cp_archives = []\<rparr>" q f] f butlast_sorted [OF srt keys] by simp
qed

text \<open>The batch that goes to the removed file through the handle: replay yields nothing new.\<close>

lemma replays_unlink: "replays (visible p) P \<Longrightarrow> replays (visible (fold unlink ids p)) P"
  by (induction ids arbitrary: p) (simp_all add: visible_unlink replays_ddel)

lemma replays_names:
  assumes "replays files P" and "replays files' P" and "fst ` set files' \<subseteq> fst ` set files"
  shows "set (fst (read_wal files')) \<subseteq> set (fst (read_wal files))"
proof -
  have r: "set (fst (read_wal fs)) = (\<Union>k \<in> fst ` set fs. set (P k))" if "replays fs P" for fs
    using read_wal_replays [OF that] by (simp add: set_sorted_ids)
  show ?thesis unfolding r [OF assms(1)] r [OF assms(2)] using assms(3) by (rule UN_mono) simp
qed

lemma batch_through_stale_handle:
  assumes io: "io_ok p" "current_file_path p = Some q" "current_file p = Some (ino, False)"
    and rep: "replays (visible p) P" and gone: "dget (cp_files c) q = None"
    and tx: "file_id_of tx = Inr q" "q * WAL_CAPACITY + WAL_CAPACITY \<le> 2 ^ 63"
  shows "set (fst (read_wal (visible (snd (write_batch_cached stamp done [(tx, r)] (unlink_archived c p)))))) \<subseteq>
    set (fst (read_wal (visible p)))"
proof -
  let ?ids = "filter (\<lambda>i. dget (cp_files c) i = None) (dkeys (names p))"
  let ?p = "fold unlink ?ids p"
  have "dget (names p) q \<noteq> None" using io by (auto simp: io_ok_def)
  then have "q \<in> fst ` set (names p)" by (simp only: dget_None_iff not_not)
  then have q: "q \<in> set ?ids" using gone by (simp add: dkeys_def)
  obtain f where f: "pre_allocate_wal (32 + (length r + 4)) = Inr f" "file_rel q [] f"
    using pre_allocate_rel [of "32 + (length r + 4)" q] by auto
  have "read_wal_file f = ([], None)" using read_wal_file_rel [OF f(2) tx(2)] by simp
  then have fresh: "set (fst (read_wal (dset (visible ?p) q f))) \<subseteq> set (fst (read_wal (visible ?p)))"
    using replays_fresh replays_unlink [OF rep] by blast
  have "fst ` set (visible ?p) \<subseteq> fst ` set (visible p)" by (auto simp: visible_def unlink_names)
  from replays_names [OF rep replays_unlink [OF rep] this] fresh
  have "set (fst (read_wal (dset (visible ?p) q f))) \<subseteq> set (fst (read_wal (visible p)))" by blast
  moreover have "visible (snd (write_batch_cached stamp done [(tx, r)] ?p)) = dset (visible ?p) q f"
    by (rule stale_batch(1) [OF fs_ok_unlink _ _ stale_after_unlink(1,2) [OF io(1,3,2) q]])
      (use io f(1) tx(1) stale_after_unlink(3) [OF io(1,3,2) q] in \<open>simp_all add: unlink_names io_ok_def\<close>)
  ultimately show ?thesis by (simp add: unlink_archived_def)
qed

text \<open>C26: When every record of the file the log appends to is complete and the next file is already
  pre-allocated, a checkpoint cycle archives and removes the current file. Whatever is then appended and
  flushed is not found by replay: neither without a handle on the removed file, when the flush makes
  a fresh file of the same name and raises nothing, nor through the handle that is still open on it.\<close>

theorem checkpoint_of_current_file_loses_next_record:
  assumes "wal_run w D M" and "wal_buffer w = []" and "0 < global_tx_id w mod WAL_CAPACITY" and "id_ok (global_tx_id w)"
    and "\<forall>tx \<in> fst ` set D. tx div WAL_CAPACITY = global_tx_id w div WAL_CAPACITY \<longrightarrow> tx \<in> M"
    and "dget (wal_files w) (global_tx_id w div WAL_CAPACITY + 1) \<noteq> None"
    and "r \<noteq> []" and "length r + 4 \<le> PAYLOAD_AREA_SIZE"
    and "run_checkpoint (\<lambda>_. True) (\<lambda>_. True) 0 \<lparr>cp_files = wal_files w, cp_archives = []\<rparr> = c"
    and "append_to_buffer r (w\<lparr>wal_files := cp_files c\<rparr>) = Some (tx, w1)"
    and "io_ok p" and "visible p = wal_files w"
    and "current_file_path p = Some (tx div WAL_CAPACITY)" and "current_file p = Some (ino, False)"
  shows "(\<exists>w2. write_buffer_to_disk stamp (wal_buffer w1) (w1\<lparr>wal_buffer := []\<rparr>) = (Inr (), w2) \<and>
      (tx, r) \<notin> set (fst (read_wal (wal_files w2)))) \<and>
    (tx, r) \<notin> set (fst (read_wal (visible (snd
      (write_batch_cached stamp (ram_completed_tx w1) (wal_buffer w1) (unlink_archived c p))))))"
proof -
  let ?n = "global_tx_id w" and ?C = WAL_CAPACITY
  let ?q = "?n div ?C"
  obtain db where a: "durable_rel db D M ?n"
    using wal_invE [OF wal_run_inv [OF assms(1)]] assms(2) by (metis add_0_right list.size(3))
  have lim: "?q * ?C + ?C \<le> 2 ^ 63" "?n < 2 ^ 63"
    using assms(4) div_mult_mod_eq [of ?n ?C] sizes(5) unfolding id_ok_def by linarith+
  obtain f where f: "dget (wal_files w) ?q = Some f" "is_file_fully_completed f"
    by (rule current_file_completed [OF assms(1-5)])
  have gone: "dget (cp_files c) ?q = None"
    using current_file_archived [OF assms(1) f assms(6)] assms(9) by simp
  obtain db' where rep: "replays (cp_files c) (\<lambda>fid. pending_from (fid * ?C) (db' fid))"
      "read_wal (cp_files c) = read_wal (wal_files w)"
    using run_checkpoint_inv [OF assms(1), of "[]" "\<lambda>_. True" "\<lambda>_. True" 0] unfolding assms(9) cycle_inv_def by blast
  have "\<forall>t \<in> fst ` set D. t < ?n" using a by (simp add: durable_rel_def)
  then have notin: "(?n, r) \<notin> set (fst (read_wal (cp_files c)))"
    unfolding rep(2) read_wal_run [OF assms(1)] by force
  have w1: "tx = ?n" "wal_buffer w1 = [(?n, r)]" "wal_files w1 = cp_files c"
    using assms(2,10) by (auto simp: append_to_buffer_def split: if_splits)
  obtain f2 where f2: "write_batches stamp (ram_completed_tx w1) (split_batches [(?n, r)]) (cp_files c) =
      (Inr (), dset (cp_files c) ?q f2)" "read_wal_file f2 = ([], None)"
    using write_one_fresh [OF gone lim(2) assms(3,8)] by blast
  have "(?n, r) \<notin> set (fst (read_wal (dset (cp_files c) ?q f2)))"
    using replays_fresh [OF rep(1) f2(2)] notin by blast
  then have 1: "\<exists>w2. write_buffer_to_disk stamp (wal_buffer w1) (w1\<lparr>wal_buffer := []\<rparr>) = (Inr (), w2) \<and>
      (tx, r) \<notin> set (fst (read_wal (wal_files w2)))"
    using f2(1) w1 by (simp add: write_buffer_to_disk_def)
  obtain db2 where "replays (wal_files w) (\<lambda>fid. pending_from (fid * ?C) (db2 fid))"
    by (rule wal_run_replays [OF assms(1)])
  then have rp: "replays (visible p) (\<lambda>fid. pending_from (fid * ?C) (db2 fid))" using assms(12) by simp
  have "file_id_of ?n = Inr ?q" using validate_tx_id_nat [OF lim(2)] by (simp add: file_id_of_def)
  from batch_through_stale_handle [OF assms(11) assms(13) [unfolded w1(1)] assms(14) rp gone this lim(1),
      of stamp "ram_completed_tx w1" r]
  have "(?n, r) \<notin> set (fst (read_wal (visible (snd
      (write_batch_cached stamp (ram_completed_tx w1) [(?n, r)] (unlink_archived c p))))))"
    using notin rep(2) assms(12) by auto
  with 1 w1(1,2) show ?thesis by simp
qed

theorem checkpoint_of_current_file_loses_next_record_witness:
  "\<exists>w w1 w2 tx. wal_run w [(0, [7])] {0} \<and>
     append_to_buffer [8] (w\<lparr>wal_files := cp_files (run_checkpoint (\<lambda>_. True) (\<lambda>_. True) 0
       \<lparr>cp_files = wal_files w, cp_archives = []\<rparr>)\<rparr>) = Some (tx, w1) \<and>
     write_buffer_to_disk (\<lambda>_. 0) (wal_buffer w1) (w1\<lparr>wal_buffer := []\<rparr>) = (Inr (), w2) \<and>
     (tx, [8]) \<notin> set (fst (read_wal (wal_files w2))) \<and>
     (tx, [8]) \<notin> set (fst (read_wal (visible (snd (write_batch_cached (\<lambda>_. 0) (ram_completed_tx w1) (wal_buffer w1)
       (unlink_archived (run_checkpoint (\<lambda>_. True) (\<lambda>_. True) 0
         \<lparr>cp_files = wal_files w, cp_archives = []\<rparr>) (opened (wal_files w) 0)))))))"
proof -
  obtain w0 where w0: "wal_run w0 [(0, [7])] {}" "wal_buffer w0 = []" "global_tx_id w0 = 1"
    using one_record_flushed by blast
  define wc where "wc = mark_many_jobs_complete [0] w0"
  define w where "w = wc\<lparr>wal_files := pre_allocate_async 1 (wal_files wc)\<rparr>"
  have wc: "wal_run wc [(0, [7])] {0}" "wal_buffer wc = []" "global_tx_id wc = 1"
    using wal_run.complete [OF w0(1), of "[0]"] w0(2,3) by (simp_all add: wc_def mark_many_jobs_complete_def Let_def)
  have "id_ok (1 * WAL_CAPACITY)" by (simp add: id_ok_def WAL_CAPACITY_def)
  from wal_run.pre_allocate [OF wc(1) this] have run: "wal_run w [(0, [7])] {0}" by (simp add: w_def)
  have w: "wal_buffer w = []" "global_tx_id w = 1" using wc by (simp_all add: w_def)
  have pre: "dget (wal_files w) 1 \<noteq> None"
    using pre_allocate_rel [of "header_block_size + PAYLOAD_AREA_SIZE" 1]
    by (auto simp: w_def pre_allocate_async_def header_block_size_def)
  let ?c = "run_checkpoint (\<lambda>_. True) (\<lambda>_. True) 0 \<lparr>cp_files = wal_files w, cp_archives = []\<rparr>"
  obtain w1 where w1: "append_to_buffer [8] (w\<lparr>wal_files := cp_files ?c\<rparr>) = Some (1, w1)"
    using w by (simp add: append_to_buffer_def BATCH_SIZE_def)
  obtain db where db: "replays (wal_files w) db" using wal_run_replays [OF run] by blast
  have "\<forall>tx \<in> fst ` set [(0::nat, [7::8 word])]. tx div WAL_CAPACITY = global_tx_id w div WAL_CAPACITY \<longrightarrow> tx \<in> {0}"
    by simp
  moreover have "0 < global_tx_id w mod WAL_CAPACITY" "id_ok (global_tx_id w)"
    using w by (simp_all add: id_ok_def WAL_CAPACITY_def)
  ultimately obtain f where "dget (wal_files w) 0 = Some f"
    using current_file_completed [OF run w(1)] w(2) by (auto simp: WAL_CAPACITY_def)
  then have cur: "dget (wal_files w) 0 \<noteq> None" by simp
  have "dict_ok (wal_files w)" using db by (simp add: replays_def)
  note io = opened_ok [OF this cur]
  obtain ino where ino: "current_file (opened (wal_files w) 0) = Some (ino, False)" using io(4) by blast
  have "(\<exists>w2. write_buffer_to_disk (\<lambda>_. 0) (wal_buffer w1) (w1\<lparr>wal_buffer := []\<rparr>) = (Inr (), w2) \<and>
      (1, [8]) \<notin> set (fst (read_wal (wal_files w2)))) \<and>
    (1, [8]) \<notin> set (fst (read_wal (visible (snd (write_batch_cached (\<lambda>_. 0) (ram_completed_tx w1) (wal_buffer w1)
      (unlink_archived ?c (opened (wal_files w) 0)))))))"
    by (rule checkpoint_of_current_file_loses_next_record [OF run w(1) _ _ _ _ _ _ refl w1 io(1,2) _ ino])
      (use w pre io(3) in \<open>simp_all add: id_ok_def WAL_CAPACITY_def PAYLOAD_AREA_SIZE_def\<close>)
  with run w1 show ?thesis by blast
qed

end
