(* ===== verification/Checkpoint_Thread.thy ===== *)
theory Checkpoint_Thread
  imports Checkpoint
begin

text \<open>
  The life of the checkpoint thread of \<open>recovery/checkpoint.py\<close>: the constructor with its archive directory,
  the start, the loop and the stop. A turn of the loop is one cycle of \<open>Checkpoint\<close>; the sleep between
  turns is the freedom of when the next turn is made. No cycle raises in the model, so the \<open>except\<close>
  clause of the loop is never entered.
\<close>

record checkpointer =
  archive_mode :: "int option"
  stop_event :: bool
  thread :: "bool option"
  cycle :: checkpoint

text \<open>\<open>mkdir_mode\<close> is the mode of a directory that \<open>mkdir\<close> has to make, or \<open>None\<close> if it fails.\<close>

definition create_wal_archive_directory ::
    "int option \<Rightarrow> bool \<Rightarrow> checkpointer \<Rightarrow> (checkpointer, unit) step_result" where
  "create_wal_archive_directory mkdir_mode chmod_ok c =
     (case mkdir_mode of
        None \<Rightarrow> (Inl OSError, c)
      | Some m \<Rightarrow>
          if chmod_ok then (Inr (), c\<lparr>archive_mode := Some 448\<rparr>)
          else (Inl OSError, c\<lparr>archive_mode := Some (case archive_mode c of None \<Rightarrow> m | Some m' \<Rightarrow> m')\<rparr>))"

definition checkpoint_init ::
    "int option \<Rightarrow> bool \<Rightarrow> int option \<Rightarrow> checkpoint \<Rightarrow> checkpointer result" where
  "checkpoint_init mkdir_mode chmod_ok dir c =
     (case create_wal_archive_directory mkdir_mode chmod_ok
             \<lparr>archive_mode = dir, stop_event = False, thread = None, cycle = c\<rparr> of
        (Inl e, _) \<Rightarrow> Inl e
      | (Inr _, s) \<Rightarrow> Inr s)"

text \<open>\<open>thread\<close> is whether the thread is alive, if one was ever made.\<close>

definition start_thread :: "checkpointer \<Rightarrow> checkpointer" where
  "start_thread c = (if thread c = Some True then c else c\<lparr>stop_event := False, thread := Some True\<rparr>)"

definition run_loop ::
    "(nat \<Rightarrow> bool) \<Rightarrow> (nat \<Rightarrow> bool) \<Rightarrow> int \<Rightarrow> checkpointer \<Rightarrow> checkpointer" where
  "run_loop copied removed flushes c =
     (if thread c \<noteq> Some True then c
      else if stop_event c then c\<lparr>thread := Some False\<rparr>
      else c\<lparr>cycle := run_checkpoint copied removed flushes (cycle c)\<rparr>)"

text \<open>Setting the event wakes the thread, and the join waits for the turn that ends it.\<close>

definition stop_thread :: "checkpointer \<Rightarrow> checkpointer" where
  "stop_thread c = (if thread c = Some True then run_loop (\<lambda>_. False) (\<lambda>_. False) 0 (c\<lparr>stop_event := True\<rparr>) else c)"

text \<open>After a stop no turn does anything, until the next start.\<close>

lemma stopped_thread_idle: "run_loop copied removed flushes (stop_thread c) = stop_thread c"
  by (simp add: stop_thread_def run_loop_def)

text \<open>A cycle that the thread makes is a checkpoint cycle, so it keeps what replay yields.\<close>

lemma run_loop_keeps_replay:
  assumes "wal_run w D M" and "cp_files (cycle c) = wal_files w"
  shows "read_wal (cp_files (cycle (run_loop copied removed n c))) = read_wal (wal_files w)"
proof -
  have c: "\<lparr>cp_files = wal_files w, cp_archives = cp_archives (cycle c)\<rparr> = cycle c"
    using assms(2) by (metis checkpoint.surjective old.unit.exhaust)
  show ?thesis
    using run_checkpoint_inv [OF assms(1), of "cp_archives (cycle c)" copied removed n] assms(2)
    unfolding c by (auto simp: run_loop_def cycle_inv_def)
qed

end
