(* ===== verification/Json_Log.thy ===== *)
theory Json_Log
  imports Json_Roundtrip
begin

text \<open>
  \<open>JsonFormatter\<close> of \<open>logger/log_handler.py\<close>: a log record as one line of JSON, written by \<open>json.dumps\<close>
  with \<open>ensure_ascii=False\<close>. The message of the record with its arguments filled in, the formatted time
  and the formatted traceback come from the standard library and are fields of the record here.
\<close>

subsection \<open>Records\<close>

datatype attr = Missing | Number int | Text pystr

record log_record =
  asctime :: attr
  levelname :: attr
  record_name :: attr
  threadName :: attr
  process_id :: attr
  record_module :: attr
  funcName :: attr
  lineno :: attr
  record_message :: attr
  exception_text :: "pystr option"
  stack_text :: "pystr option"

definition field_map :: "(string \<times> (log_record \<Rightarrow> attr)) list" where
  "field_map = [(''timestamp'', asctime), (''level'', levelname), (''logger'', record_name), (''thread'', threadName),
     (''process'', process_id), (''module'', record_module), (''func'', funcName), (''line'', lineno),
     (''message'', record_message)]"

definition optional_field :: "string \<Rightarrow> pystr option \<Rightarrow> (pystr \<times> attr) list" where
  "optional_field name x = (case x of None \<Rightarrow> [] | Some s \<Rightarrow> [(lit name, Text s)])"

definition payload :: "log_record \<Rightarrow> (pystr \<times> attr) list" where
  "payload r = map (\<lambda>(name, f). (lit name, f r)) field_map @
     optional_field ''exception'' (exception_text r) @ optional_field ''stack_info'' (stack_text r)"

subsection \<open>Writing without \<open>ensure_ascii\<close>\<close>

definition raw_char :: "nat \<Rightarrow> pystr" where
  "raw_char c =
     (if c = 34 then [92, 34] else if c = 92 then [92, 92]
      else if c = 10 then [92, 110] else if c = 13 then [92, 114] else if c = 9 then [92, 116]
      else if c = 12 then [92, 102] else if c = 8 then [92, 98]
      else if c < 32 then u_escape c else [c])"

definition raw_str :: "pystr \<Rightarrow> pystr" where
  "raw_str s = 34 # concat (map raw_char s) @ [34]"

fun raw_attr :: "attr \<Rightarrow> pystr result" where
  "raw_attr Missing = Inr (lit ''null'')"
| "raw_attr (Number i) = int_text i"
| "raw_attr (Text s) = Inr (raw_str s)"

fun raw_members :: "(pystr \<times> attr) list \<Rightarrow> pystr result" where
  "raw_members [] = Inr []"
| "raw_members ((k, a) # kvs) = bind_result (raw_attr a) (\<lambda>t.
     if kvs = [] then Inr (raw_str k @ [58, 32] @ t)
     else bind_result (raw_members kvs) (\<lambda>u. Inr (raw_str k @ [58, 32] @ t @ [44, 32] @ u)))"

definition format_record :: "log_record \<Rightarrow> pystr result" where
  "format_record r = bind_result (raw_members (payload r)) (\<lambda>t. Inr (123 # t @ [125]))"

subsection \<open>Reading it back\<close>

fun attr_value :: "attr \<Rightarrow> pyval" where
  "attr_value Missing = PyNone"
| "attr_value (Number i) = PyInt i"
| "attr_value (Text s) = PyStr s"

lemma raw_char_shape:
  "(\<exists>e. raw_char c = [92, e] \<and> (e, c) \<in> {(34, 34), (92, 92), (110, 10), (114, 13), (116, 9), (102, 12), (98, 8)}) \<or>
   raw_char c = u_escape c \<and> c < 32 \<or> raw_char c = [c] \<and> 32 \<le> c \<and> c \<noteq> 34 \<and> c \<noteq> 92"
  by (simp add: raw_char_def)

lemma raw_char_cases:
  assumes "\<And>e. raw_char c = [92, e] \<Longrightarrow> (e, c) \<in> {(34, 34), (92, 92), (110, 10), (114, 13), (116, 9), (102, 12), (98, 8)} \<Longrightarrow> P"
    and "raw_char c = u_escape c \<Longrightarrow> c < 32 \<Longrightarrow> P" and "raw_char c = [c] \<Longrightarrow> 32 \<le> c \<Longrightarrow> c \<noteq> 34 \<Longrightarrow> c \<noteq> 92 \<Longrightarrow> P"
  shows P
  using raw_char_shape [of c] assms by blast

lemma json_char_raw: "json_char (raw_char c @ r) = Some (c, length (raw_char c))"
proof (rule raw_char_cases [of c])
  assume u: "raw_char c = u_escape c" "c < 32"
  then have "\<not> high_surrogate c" by (simp add: high_surrogate_def)
  then show ?thesis using u json_char_u [of c r] by simp
qed (auto simp: json_char_def)

lemma scan_string_raw: "scan_string (concat (map raw_char s) @ 34 # r) = Inr (s, r)"
proof (induction s)
  case Nil
  then show ?case by (subst scan_string.simps) simp
next
  case (Cons c s)
  have "raw_char c \<noteq> [] \<and> hd (raw_char c) \<noteq> 34" by (rule raw_char_cases [of c]) (auto simp: u_escape_def)
  then show ?case
    using Cons json_char_raw [of c "concat (map raw_char s) @ 34 # r"]
    by (subst scan_string.simps) (simp add: hd_append)
qed

lemma parse_raw_str: "0 < n \<Longrightarrow> parse_value n (raw_str s @ r) = Inr (PyStr s, r)"
  by (cases n) (simp_all add: raw_str_def scan_string_raw)

definition number_ok :: "attr \<Rightarrow> bool" where
  "number_ok a \<longleftrightarrow> (case a of Number i \<Rightarrow> length (dec_nat (nat \<bar>i\<bar>)) \<le> 4300 | _ \<Rightarrow> True)"

lemma parse_raw_attr:
  assumes "number_ok a"
  shows "\<exists>t. raw_attr a = Inr t \<and> t \<noteq> [] \<and> \<not> ws (hd t) \<and>
    (\<forall>n r. length t \<le> n \<longrightarrow> delim r \<longrightarrow> parse_value n (t @ r) = Inr (attr_value a, r))"
proof (cases a)
  case (Text s)
  have "parse_value n (raw_str s @ r) = Inr (PyStr s, r)" if "length (raw_str s) \<le> n" for n r
    by (rule parse_raw_str) (use that in \<open>simp add: raw_str_def\<close>)
  moreover have "raw_str s \<noteq> []" "\<not> ws (hd (raw_str s))" by (simp_all add: raw_str_def ws_def)
  ultimately show ?thesis using Text by simp
next
  case Missing
  have "json_value PyNone" by simp
  then obtain t where "dumps PyNone = Inr t" "\<forall>n r. length t \<le> n \<longrightarrow> delim r \<longrightarrow> parse_value n (t @ r) = Inr (PyNone, r)"
    using parse_dumps(1) by blast
  then show ?thesis using Missing by (auto simp: lit_def ws_def)
next
  case (Number i)
  have j: "json_value (PyInt i)" using assms Number by (simp add: number_ok_def)
  then obtain t where t: "dumps (PyInt i) = Inr t" "\<forall>n r. length t \<le> n \<longrightarrow> delim r \<longrightarrow> parse_value n (t @ r) = Inr (PyInt i, r)"
    using parse_dumps(1) by blast
  then show ?thesis using Number text_start [OF t(1) j] by auto
qed

definition plain_key :: "pystr \<Rightarrow> bool" where
  "plain_key k \<longleftrightarrow> (\<forall>c \<in> set k. 32 \<le> c \<and> c < 127 \<and> c \<noteq> 34 \<and> c \<noteq> 92)"

lemma raw_plain_key:
  assumes "plain_key k"
  shows "raw_str k = dumps_str k" and "json_text k"
proof -
  have "map raw_char k = map esc_char k"
    using assms by (intro map_cong) (auto simp: plain_key_def raw_char_def esc_char_def)
  then show "raw_str k = dumps_str k" unfolding raw_str_def dumps_str_def by (simp only:)
  show "json_text k"
    using assms by (induction k rule: json_text.induct) (auto simp: plain_key_def code_point_def high_surrogate_def)
qed

lemma parse_raw_members:
  assumes "kvs \<noteq> []" and "\<forall>(k, a) \<in> set kvs. plain_key k \<and> number_ok a"
  shows "\<exists>t. raw_members kvs = Inr t \<and> t \<noteq> [] \<and> hd t = 34 \<and>
    (\<forall>n r. length t < n \<longrightarrow> parse_members n (t @ 125 # r) = Inr (map (\<lambda>(k, a). (k, attr_value a)) kvs, r))"
  using assms
proof (induction kvs)
  case (Cons ka kvs)
  obtain k a where ka: "ka = (k, a)" by fastforce
  have k: "raw_str k = dumps_str k" "json_text k" using raw_plain_key [of k] Cons.prems(2) ka by simp_all
  have q: "dumps_str k \<noteq> []" "hd (dumps_str k) = 34" by (simp_all add: dumps_str_def)
  obtain t where t: "raw_attr a = Inr t" "t \<noteq> []" "\<not> ws (hd t)"
    "\<And>n r. length t \<le> n \<Longrightarrow> delim r \<Longrightarrow> parse_value n (t @ r) = Inr (attr_value a, r)"
    using parse_raw_attr [of a] Cons.prems(2) ka by auto
  show ?case
  proof (cases "kvs = []")
    case True
    have "parse_members n ((dumps_str k @ [58, 32] @ t) @ 125 # r) = Inr ([(k, attr_value a)], r)"
      if "length (dumps_str k @ [58, 32] @ t) < n" for n r
      using that by (intro parse_members_last [OF k(2) t(4) t(2,3)])
    then show ?thesis using True ka k(1) q t(1) by auto
  next
    case False
    have "\<forall>(k, a) \<in> set kvs. plain_key k \<and> number_ok a" using Cons.prems(2) by simp
    with False Cons.IH obtain u where u: "raw_members kvs = Inr u" "u \<noteq> []" "hd u = 34"
      "\<And>n r. length u < n \<Longrightarrow> parse_members n (u @ 125 # r) = Inr (map (\<lambda>(k, a). (k, attr_value a)) kvs, r)" by blast
    have "parse_members n ((dumps_str k @ [58, 32] @ t @ [44, 32] @ u) @ 125 # r) =
        Inr ((k, attr_value a) # map (\<lambda>(k, a). (k, attr_value a)) kvs, r)"
      if "length (dumps_str k @ [58, 32] @ t @ [44, 32] @ u) < n" for n r
      using that by (intro parse_members_Cons [OF k(2) t(4) t(2,3) u(4) u(2,3)])
    then show ?thesis using False ka k(1) q t(1) u(1) by auto
  qed
qed simp

lemma payload_keys: "(k, a) \<in> set (payload r) \<Longrightarrow> plain_key k"
  by (auto simp: payload_def field_map_def optional_field_def plain_key_def lit_def split: option.splits)

lemma payload_distinct: "distinct (map fst (payload r))"
  by (auto simp: payload_def field_map_def optional_field_def lit_def split: option.split)

definition record_ok :: "log_record \<Rightarrow> bool" where
  "record_ok r \<longleftrightarrow> (\<forall>(k, a) \<in> set (payload r). number_ok a)"

lemma raw_char_printable: "x \<in> set (raw_char c) \<Longrightarrow> 32 \<le> x"
proof (rule raw_char_cases [of c])
  assume "x \<in> set (raw_char c)" "raw_char c = u_escape c"
  then show "32 \<le> x" by (auto simp: u_escape_def hex_digit_def)
qed auto

lemma raw_attr_printable: "raw_attr a = Inr t \<Longrightarrow> x \<in> set t \<Longrightarrow> 32 \<le> x"
  using raw_char_printable dec_nat_digits
  by (cases a) (fastforce simp: lit_def raw_str_def int_text_def dec_int_def digit_def split: if_splits)+

lemma raw_members_printable: "raw_members kvs = Inr t \<Longrightarrow> x \<in> set t \<Longrightarrow> 32 \<le> x"
proof (induction kvs arbitrary: t)
  case (Cons ka kvs)
  obtain k a where ka: "ka = (k, a)" by fastforce
  have "y \<in> set (raw_str k) \<Longrightarrow> 32 \<le> y" for y using raw_char_printable by (auto simp: raw_str_def)
  then show ?case using Cons ka raw_attr_printable [of a] by (auto split: if_splits)
qed simp



end
