(* ===== verification/Structured_Log.thy ===== *)
theory Structured_Log
  imports Py_Dict Py_Float
begin

text \<open>
  \<open>logger/structured_logger.py\<close>: the structured log lines of the components, the level at which a line
  is logged, and the calls that make them. A logger of the standard library is its effective level and
  the lines that it has emitted. What \<open>uuid4\<close> and the clock return are arguments; \<open>context_data\<close> gives
  the value of a key as its \<open>str\<close>.
\<close>

subsection \<open>The context of an operation\<close>

datatype operation_type =
    GET | SET | DELETE | FLUSH | COMPACT | CHECKPOINT | RECOVERY | PAGE_READ | PAGE_WRITE | WAL_APPEND
  | MEMTABLE_INSERT | CACHE_LOOKUP | DISK_SCAN

fun op_value :: "operation_type \<Rightarrow> pystr" where
  "op_value GET = lit ''GET''"
| "op_value SET = lit ''SET''"
| "op_value DELETE = lit ''DELETE''"
| "op_value FLUSH = lit ''FLUSH''"
| "op_value COMPACT = lit ''COMPACT''"
| "op_value CHECKPOINT = lit ''CHECKPOINT''"
| "op_value RECOVERY = lit ''RECOVERY''"
| "op_value PAGE_READ = lit ''PAGE_READ''"
| "op_value PAGE_WRITE = lit ''PAGE_WRITE''"
| "op_value WAL_APPEND = lit ''WAL_APPEND''"
| "op_value MEMTABLE_INSERT = lit ''MEMTABLE_INSERT''"
| "op_value CACHE_LOOKUP = lit ''CACHE_LOOKUP''"
| "op_value DISK_SCAN = lit ''DISK_SCAN''"

datatype status_code = SUCCESS | CACHE_HIT | CACHE_MISS | NOT_FOUND | STATUS_ERROR | TIMEOUT | DEGRADED

fun status_value :: "status_code \<Rightarrow> pystr" where
  "status_value SUCCESS = lit ''success''"
| "status_value CACHE_HIT = lit ''cache_hit''"
| "status_value CACHE_MISS = lit ''cache_miss''"
| "status_value NOT_FOUND = lit ''not_found''"
| "status_value STATUS_ERROR = lit ''error''"
| "status_value TIMEOUT = lit ''timeout''"
| "status_value DEGRADED = lit ''degraded''"

record log_context =
  trace_id :: pystr
  operation_type :: operation_type
  component :: pystr
  status :: status_code
  latency_ms :: rat
  log_table :: "pystr option"
  key_pattern :: "pystr option"
  data_size_bytes :: "int option"
  records_affected :: "int option"
  error_code :: int
  error_message :: "pystr option"
  cache_hit_rate :: "rat option"
  throughput_kops :: "rat option"
  warnings :: "pystr list option"
  context_data :: "(pystr \<times> pystr option) list option"

definition new_context :: "pystr \<Rightarrow> operation_type \<Rightarrow> pystr \<Rightarrow> status_code \<Rightarrow> rat \<Rightarrow> log_context" where
  "new_context tid op cname st ms =
     \<lparr>trace_id = tid, operation_type = op, component = cname, status = st, latency_ms = ms, log_table = None,
      key_pattern = None, data_size_bytes = None, records_affected = None, error_code = 0, error_message = None,
      cache_hit_rate = None, throughput_kops = None, warnings = None, context_data = None\<rparr>"

subsection \<open>The log line\<close>

definition part :: "pystr \<Rightarrow> pystr \<Rightarrow> pystr" where
  "part name v = 91 # name @ 61 # v @ [93]"

text \<open>Python's truth of an optional string or list: neither \<open>None\<close> nor empty.\<close>

definition truthy :: "'a list option \<Rightarrow> bool" where
  "truthy x = (case x of None \<Rightarrow> False | Some l \<Rightarrow> l \<noteq> [])"

fun join :: "pystr \<Rightarrow> pystr list \<Rightarrow> pystr" where
  "join sep [] = []"
| "join sep [x] = x"
| "join sep (x # xs) = x @ sep @ join sep xs"

definition opt_text :: "bool \<Rightarrow> pystr \<Rightarrow> pystr \<Rightarrow> (pystr \<times> pystr) list" where
  "opt_text b name v = (if b then [(name, v)] else [])"

text \<open>The fields in the order in which \<open>to_log_string\<close> writes them.\<close>

definition log_fields :: "log_context \<Rightarrow> (pystr \<times> pystr) list" where
  "log_fields c =
     [(lit ''trace_id'', trace_id c), (lit ''op_type'', op_value (operation_type c)), (lit ''component'', component c),
      (lit ''status'', status_value (status c)), (lit ''latency_ms'', fixed_point 3 (latency_ms c))] @
     opt_text (truthy (log_table c)) (lit ''table'') (the (log_table c)) @
     opt_text (truthy (key_pattern c)) (lit ''key_pattern'') (the (key_pattern c)) @
     opt_text (data_size_bytes c \<noteq> None) (lit ''data_size_bytes'') (dec_int (the (data_size_bytes c))) @
     opt_text (records_affected c \<noteq> None) (lit ''records_affected'') (dec_int (the (records_affected c))) @
     [(lit ''error_code'', dec_int (error_code c))] @
     opt_text (truthy (error_message c)) (lit ''error_msg'') (the (error_message c)) @
     opt_text (cache_hit_rate c \<noteq> None) (lit ''cache_hit_rate'') (fixed_point 1 (the (cache_hit_rate c)) @ lit ''%'') @
     opt_text (throughput_kops c \<noteq> None) (lit ''throughput_kops/s'') (fixed_point 2 (the (throughput_kops c))) @
     opt_text (truthy (warnings c)) (lit ''warnings'') (join (lit ''; '') (the (warnings c))) @
     concat (map (\<lambda>(k, v). case v of None \<Rightarrow> [] | Some s \<Rightarrow> [(k, s)])
       (case context_data c of None \<Rightarrow> [] | Some d \<Rightarrow> d))"

definition to_log_string :: "log_context \<Rightarrow> pystr" where
  "to_log_string c = concat (map (\<lambda>(name, v). part name v) (log_fields c))"

subsection \<open>The logger\<close>

definition DEBUG :: int where "DEBUG = 10"
definition INFO :: int where "INFO = 20"
definition WARNING :: int where "WARNING = 30"
definition ERROR :: int where "ERROR = 40"

lemmas levels = DEBUG_def INFO_def WARNING_def ERROR_def

record slogger =
  sl_component :: pystr
  effective_level :: int
  emitted :: "(int \<times> pystr) list"

definition latency_threshold :: "operation_type \<Rightarrow> rat" where
  "latency_threshold op =
     (case op of GET \<Rightarrow> 100 | SET \<Rightarrow> 150 | CACHE_LOOKUP \<Rightarrow> 250 | PAGE_READ \<Rightarrow> 100 | PAGE_WRITE \<Rightarrow> 150
      | WAL_APPEND \<Rightarrow> 200 | DISK_SCAN \<Rightarrow> 500 | _ \<Rightarrow> 100)"

definition slow :: "log_context \<Rightarrow> bool" where
  "slow c \<longleftrightarrow> latency_threshold (operation_type c) < latency_ms c"

definition latency_warning :: "log_context \<Rightarrow> pystr" where
  "latency_warning c =
     lit ''latency '' @ fixed_point 2 (latency_ms c) @ lit ''ms exceeds threshold '' @
     fixed_point 2 (latency_threshold (operation_type c)) @ lit ''ms''"

definition check_latency_warnings :: "log_context \<Rightarrow> log_context" where
  "check_latency_warnings c =
     (if slow c
      then c\<lparr>warnings := Some ((case warnings c of None \<Rightarrow> [] | Some ws \<Rightarrow> ws) @ [latency_warning c])\<rparr>
      else c)"

definition target_level :: "int \<Rightarrow> log_context \<Rightarrow> int" where
  "target_level level c =
     (if error_code c \<noteq> 0 \<or> level = ERROR then ERROR else if truthy (warnings c) \<or> slow c then WARNING else level)"

text \<open>The context is changed in place; every way to emit ends in a line at the target level.\<close>

definition log_operation :: "pystr \<Rightarrow> int \<Rightarrow> log_context \<times> slogger \<Rightarrow> log_context \<times> slogger" where
  "log_operation uid level s =
     (case s of (c, lg) \<Rightarrow>
        let target = target_level level c
        in if target < effective_level lg then (c, lg)
           else let c1 = (if trace_id c = [] then c\<lparr>trace_id := take 8 uid\<rparr> else c);
                    c2 = check_latency_warnings c1
                in (c2, lg\<lparr>emitted := emitted lg @ [(target, to_log_string c2)]\<rparr>))"

text \<open>
  The context manager around a body that may change the context: \<open>Inl\<close> is the \<open>str\<close> of the exception
  that the body raises, which is raised again after logging.
\<close>

definition operation ::
  "pystr \<Rightarrow> rat \<Rightarrow> operation_type \<Rightarrow> pystr option \<Rightarrow> pystr option \<Rightarrow> (pystr \<times> pystr option) list option \<Rightarrow>
   (log_context \<Rightarrow> (pystr + 'a) \<times> log_context) \<Rightarrow> slogger \<Rightarrow> (pystr + 'a) \<times> log_context \<times> slogger" where
  "operation uid elapsed op table key data body lg =
     (let c = (new_context [] op (sl_component lg) SUCCESS 0)
                \<lparr>log_table := table, key_pattern := key, context_data := Some (case data of None \<Rightarrow> [] | Some d \<Rightarrow> d)\<rparr>
      in case body c of
           (Inl exc, c1) \<Rightarrow>
             (Inl exc, log_operation uid ERROR
                (c1\<lparr>status := STATUS_ERROR, error_code := 1, error_message := Some exc, latency_ms := elapsed\<rparr>, lg))
         | (Inr x, c1) \<Rightarrow> (Inr x, log_operation uid INFO (c1\<lparr>latency_ms := elapsed\<rparr>, lg)))"

definition log_cache_operation ::
  "pystr \<Rightarrow> pystr \<Rightarrow> bool \<Rightarrow> pystr \<Rightarrow> pystr \<Rightarrow> rat \<Rightarrow> rat option \<Rightarrow> slogger \<Rightarrow> slogger" where
  "log_cache_operation uid tid hit key table ms rate lg =
     (let c = (new_context tid CACHE_LOOKUP (sl_component lg) (if hit then CACHE_HIT else CACHE_MISS) ms)
                \<lparr>log_table := Some table, key_pattern := Some key, cache_hit_rate := rate\<rparr>
      in snd (log_operation uid DEBUG (check_latency_warnings c, lg)))"

definition log_write_operation ::
  "pystr \<Rightarrow> pystr \<Rightarrow> operation_type \<Rightarrow> pystr \<Rightarrow> int \<Rightarrow> int \<Rightarrow> rat \<Rightarrow> rat option \<Rightarrow> int \<Rightarrow> pystr option \<Rightarrow>
   slogger \<Rightarrow> slogger" where
  "log_write_operation uid tid op table cnt nbytes ms kops code msg lg =
     (let c = (new_context tid op (sl_component lg) (if code = 0 then SUCCESS else STATUS_ERROR) ms)
                \<lparr>log_table := Some table, records_affected := Some cnt, data_size_bytes := Some nbytes,
                 throughput_kops := kops, error_code := code, error_message := msg\<rparr>;
          level = (if code \<noteq> 0 then ERROR else if op = FLUSH \<or> op = COMPACT then INFO else DEBUG)
      in snd (log_operation uid level (check_latency_warnings c, lg)))"

definition log_recovery_operation ::
  "pystr \<Rightarrow> pystr \<Rightarrow> int \<Rightarrow> rat \<Rightarrow> int \<Rightarrow> pystr option \<Rightarrow> slogger \<Rightarrow> slogger" where
  "log_recovery_operation uid tid cnt ms code msg lg =
     (let c = (new_context tid RECOVERY (sl_component lg) (if code = 0 then SUCCESS else STATUS_ERROR) ms)
                \<lparr>records_affected := Some cnt, error_code := code, error_message := msg\<rparr>
      in snd (log_operation uid (if code \<noteq> 0 then ERROR else INFO) (check_latency_warnings c, lg)))"

text \<open>The registry: the logger of a component is the entry under its name; \<open>level\<close> is the effective level of
  the logger that \<open>getLogger\<close> gives.\<close>

definition get_structured_logger :: "(pystr \<Rightarrow> int) \<Rightarrow> pystr \<Rightarrow> (pystr, slogger) dict \<Rightarrow> (pystr, slogger) dict" where
  "get_structured_logger level cname reg =
     (case dget reg cname of
        Some lg \<Rightarrow> reg
      | None \<Rightarrow> dset reg cname \<lparr>sl_component = cname, effective_level = level (lit ''cachyDB.'' @ cname), emitted = []\<rparr>)"

subsection \<open>Reading a line back\<close>

function read_fields :: "pystr \<Rightarrow> (pystr \<times> pystr) list" where
  "read_fields [] = []"
| "read_fields (c # t) =
     (let name = takeWhile (\<lambda>x. x \<noteq> 61) t; u = drop (Suc (length name)) t; v = takeWhile (\<lambda>x. x \<noteq> 93) u
      in (name, v) # read_fields (drop (Suc (length v)) u))"
  by pat_completeness auto
termination by (relation "measure length") auto

lemma takeWhile_to: "x \<notin> set a \<Longrightarrow> takeWhile (\<lambda>y. y \<noteq> x) (a @ x # b) = a"
  by (induction a) auto

lemma read_part:
  assumes "61 \<notin> set name" and "93 \<notin> set v"
  shows "read_fields (part name v @ s) = (name, v) # read_fields s"
proof -
  have "part name v @ s = 91 # (name @ 61 # (v @ 93 # s))" by (simp add: part_def)
  then show ?thesis
    using takeWhile_to [OF assms(1), of "v @ 93 # s"] takeWhile_to [OF assms(2), of s] by (simp add: Let_def)
qed

definition plain_fields :: "log_context \<Rightarrow> bool" where
  "plain_fields c \<longleftrightarrow> (\<forall>(name, v) \<in> set (log_fields c). 61 \<notin> set name \<and> 93 \<notin> set v)"



subsection \<open>What is logged\<close>

lemma latency_field:
  "\<exists>ys. log_fields c = [(lit ''trace_id'', trace_id c), (lit ''op_type'', op_value (operation_type c)),
     (lit ''component'', component c), (lit ''status'', status_value (status c))] @
     (lit ''latency_ms'', fixed_point 3 (latency_ms c)) # ys"
  by (simp add: log_fields_def)

text \<open>The latency in a log line is exact to half a thousandth of a millisecond, and a line is emitted only
  at or above the logger's level, at most one for a call, with the text of the context as it is left.\<close>

theorem log_operation_line:
  "case log_operation uid level (c, lg) of (c', lg') \<Rightarrow>
     if target_level level c < effective_level lg then c' = c \<and> lg' = lg
     else lg' = lg\<lparr>emitted := emitted lg @ [(target_level level c, to_log_string c')]\<rparr> \<and>
       (\<exists>pre t post. to_log_string c' = pre @ part (lit ''latency_ms'') t @ post \<and>
          \<bar>fixed_value t - latency_ms c\<bar> \<le> 1 / 2000)"
proof -
  obtain c' lg' where r: "log_operation uid level (c, lg) = (c', lg')" by fastforce
  have ms: "latency_ms c' = latency_ms c"
    using r by (auto simp: log_operation_def Let_def check_latency_warnings_def split: if_splits)
  obtain xs ys where "log_fields c' = xs @ (lit ''latency_ms'', fixed_point 3 (latency_ms c')) # ys"
    using latency_field [of c'] by blast
  then have "to_log_string c' = concat (map (\<lambda>(name, v). part name v) xs) @
      part (lit ''latency_ms'') (fixed_point 3 (latency_ms c')) @ concat (map (\<lambda>(name, v). part name v) ys)"
    by (simp add: to_log_string_def)
  moreover have "\<bar>fixed_value (fixed_point 3 (latency_ms c')) - latency_ms c\<bar> \<le> 1 / 2000"
    using fixed_point_near [of 3 "latency_ms c"] ms by simp
  moreover have "if target_level level c < effective_level lg then c' = c \<and> lg' = lg
     else lg' = lg\<lparr>emitted := emitted lg @ [(target_level level c, to_log_string c')]\<rparr>"
    using r by (auto simp: log_operation_def Let_def)
  ultimately show ?thesis unfolding r by (auto split: if_splits)
qed

lemma log_operation_frame:
  assumes "log_operation uid level (c, lg) = (c', lg')"
  shows "status c' = status c \<and> error_code c' = error_code c \<and> error_message c' = error_message c \<and>
    latency_ms c' = latency_ms c \<and>
    lg' = (if target_level level c < effective_level lg then lg
           else lg\<lparr>emitted := emitted lg @ [(target_level level c, to_log_string c')]\<rparr>)"
  using assms by (auto simp: log_operation_def Let_def check_latency_warnings_def split: if_splits)


lemma same_speed:
  assumes "operation_type c' = operation_type c" and "latency_ms c' = latency_ms c"
  shows "slow c' = slow c" and "latency_warning c' = latency_warning c"
  using assms by (simp_all add: slow_def latency_warning_def)

definition warned_twice :: "slogger \<Rightarrow> slogger \<Rightarrow> bool" where
  "warned_twice lg lg' \<longleftrightarrow> (\<exists>c. lg' = lg\<lparr>emitted := emitted lg @ [(WARNING, to_log_string c)]\<rparr> \<and>
     warnings c = Some [latency_warning c, latency_warning c])"

lemma slow_twice:
  assumes s: "slow c" "warnings c = None" "error_code c = 0" "level \<noteq> ERROR" "effective_level lg \<le> WARNING"
  shows "warned_twice lg (snd (log_operation uid level (check_latency_warnings c, lg)))"
proof -
  let ?w = "latency_warning c"
  define c1 where "c1 = c\<lparr>warnings := Some [?w]\<rparr>"
  define c2 where "c2 = (if trace_id c1 = [] then c1\<lparr>trace_id := take 8 uid\<rparr> else c1)"
  define c3 where "c3 = c2\<lparr>warnings := Some [?w, ?w]\<rparr>"
  have 1: "check_latency_warnings c = c1" using s(1,2) by (simp add: check_latency_warnings_def c1_def)
  have k: "operation_type c2 = operation_type c" "latency_ms c2 = latency_ms c" "warnings c2 = Some [?w]"
    by (simp_all add: c2_def c1_def)
  have 2: "check_latency_warnings c2 = c3"
    using same_speed [OF k(1,2)] s(1) k(3) by (simp add: check_latency_warnings_def c3_def)
  have "target_level level c1 = WARNING" using s(3,4) by (simp add: target_level_def c1_def truthy_def)
  then have "snd (log_operation uid level (c1, lg)) = lg\<lparr>emitted := emitted lg @ [(WARNING, to_log_string c3)]\<rparr>"
    using s(5) 2 by (simp add: log_operation_def Let_def c2_def [symmetric])
  moreover have "latency_warning c3 = ?w" using same_speed(2) [of c3 c] k(1,2) by (simp add: c3_def)
  then have "warnings c3 = Some [latency_warning c3, latency_warning c3]" by (simp add: c3_def)
  ultimately show ?thesis unfolding warned_twice_def 1 by blast
qed

text \<open>A slow call is warned about twice: the latency warnings of the cache, write and recovery calls are
  checked before \<open>log_operation\<close> and again inside it, so that a line for a call above its threshold
  carries the same warning two times.\<close>

theorem slow_call_warned_twice:
  assumes "effective_level lg \<le> WARNING" and "latency_threshold op < ms" and "250 < ms"
  shows "warned_twice lg (log_write_operation uid tid op table cnt nbytes ms kops 0 msg lg) \<and>
    warned_twice lg (log_cache_operation uid tid hit key table ms rate lg) \<and>
    warned_twice lg (log_recovery_operation uid tid cnt ms 0 msg lg)"
  unfolding log_write_operation_def log_cache_operation_def log_recovery_operation_def Let_def
  using assms
  by (intro conjI slow_twice) (simp_all add: new_context_def slow_def latency_threshold_def levels)

theorem slow_call_warned_twice_witness:
  "warned_twice \<lparr>sl_component = [], effective_level = INFO, emitted = []\<rparr>
     (log_write_operation [] (lit ''abc'') SET (lit ''t'') 1 10 300 None 0 None
       \<lparr>sl_component = [], effective_level = INFO, emitted = []\<rparr>)"
proof -
  let ?lg = "\<lparr>sl_component = [], effective_level = INFO, emitted = []\<rparr>"
  have "effective_level ?lg \<le> WARNING" "latency_threshold SET < 300" by (simp_all add: levels latency_threshold_def)
  from slow_call_warned_twice [OF this] show ?thesis by simp
qed

end
