(* ===== verification/Log_Handler.thy ===== *)
theory Log_Handler
  imports Structured_Log
begin

text \<open>
  \<open>logger/log_handler.py\<close> without its JSON formatter: the rotation of a compressed log file, and the
  process-wide singleton that configures the \<open>cachyDB\<close> logger. The handlers' streams, the queue and its
  listener are the standard library's: a record that the logger accepts reaches the handlers whose own
  level admits it.
\<close>

subsection \<open>Rotation\<close>

text \<open>
  The files of one handler: the log, the uncompressed backup \<open>.1\<close> and the compressed backups \<open>.n.gz\<close>. A
  file has its permission bits and its content; one that \<open>open\<close> creates gets \<open>0o666\<close> without the bits of
  the process's umask.
\<close>

record log_file =
  mode :: int
  content :: bytes

record log_files =
  base_file :: "log_file option"
  plain_backup :: "log_file option"
  gz_backup :: "nat \<Rightarrow> log_file option"

definition created :: "int \<Rightarrow> log_file" where
  "created umask = \<lparr>mode = and 438 (not umask), content = []\<rparr>"

definition opened :: "int \<Rightarrow> log_file option \<Rightarrow> log_file" where
  "opened umask f = (case f of None \<Rightarrow> created umask | Some f \<Rightarrow> f)"

definition shift_backup :: "nat \<Rightarrow> log_files \<Rightarrow> log_files" where
  "shift_backup i fs =
     (case gz_backup fs i of
        None \<Rightarrow> fs
      | Some c \<Rightarrow> fs\<lparr>gz_backup := (gz_backup fs)(Suc i := Some c, i := None)\<rparr>)"

text \<open>
  \<open>gz\<close> is what \<open>gzip\<close> makes of the content; \<open>outcome\<close> is \<open>None\<close> if the compression succeeds, and otherwise
  what the failed one leaves of \<open>.1.gz\<close>.
\<close>

definition compress_backup :: "int \<Rightarrow> (bytes \<Rightarrow> bytes) \<Rightarrow> log_file option option \<Rightarrow> log_files \<Rightarrow> log_files" where
  "compress_backup umask gz outcome fs =
     (case plain_backup fs of
        None \<Rightarrow> fs
      | Some c \<Rightarrow>
          (case outcome of
             None \<Rightarrow>
               fs\<lparr>gz_backup := (gz_backup fs)(1 := Some ((opened umask (gz_backup fs 1))\<lparr>content := gz (content c)\<rparr>)),
                  plain_backup := None\<rparr>
           | Some leftover \<Rightarrow> fs\<lparr>gz_backup := (gz_backup fs)(1 := leftover)\<rparr>))"

text \<open>The backups move up, the highest first; the log becomes the uncompressed backup; it is compressed; a new
  log is opened.\<close>

definition shift_all :: "nat \<Rightarrow> log_files \<Rightarrow> log_files" where
  "shift_all backup_count fs = fold shift_backup (rev [1 ..< backup_count]) fs"

definition set_aside :: "log_files \<Rightarrow> log_files" where
  "set_aside fs =
     (case base_file fs of
        None \<Rightarrow> fs\<lparr>plain_backup := None\<rparr>
      | Some c \<Rightarrow> fs\<lparr>base_file := None, plain_backup := Some c\<rparr>)"

definition open_log :: "int \<Rightarrow> log_files \<Rightarrow> log_files" where
  "open_log umask fs = fs\<lparr>base_file := Some (opened umask (base_file fs))\<rparr>"

definition do_rollover ::
    "nat \<Rightarrow> int \<Rightarrow> (bytes \<Rightarrow> bytes) \<Rightarrow> log_file option option \<Rightarrow> log_files \<Rightarrow> log_files" where
  "do_rollover backup_count umask gz outcome fs =
     open_log umask
       (if 0 < backup_count then compress_backup umask gz outcome (set_aside (shift_all backup_count fs)) else fs)"

text \<open>The stream stays open between rotations, so a write appends to the log.\<close>

definition write_log :: "bytes \<Rightarrow> log_files \<Rightarrow> log_files" where
  "write_log b fs = fs\<lparr>base_file := map_option (\<lambda>f. f\<lparr>content := content f @ b\<rparr>) (base_file fs)\<rparr>"

text \<open>What the standard library makes of emitted records: writes, and rollovers where the size demands it.\<close>

datatype log_op = Emit bytes | Rollover

fun log_step :: "nat \<Rightarrow> int \<Rightarrow> (bytes \<Rightarrow> bytes) \<Rightarrow> log_op \<Rightarrow> log_files \<Rightarrow> log_files" where
  "log_step n umask gz (Emit b) fs = write_log b fs"
| "log_step n umask gz Rollover fs = do_rollover n umask gz None fs"

definition fresh_log :: "log_file \<Rightarrow> log_files" where
  "fresh_log f = \<lparr>base_file = Some f, plain_backup = None, gz_backup = (\<lambda>_. None)\<rparr>"

text \<open>The promise: the current segment and the last \<open>backupCount\<close> finished ones, the newest first.\<close>

fun segment_step :: "nat \<Rightarrow> log_op \<Rightarrow> bytes \<times> bytes list \<Rightarrow> bytes \<times> bytes list" where
  "segment_step n (Emit b) (cur, old) = (cur @ b, old)"
| "segment_step n Rollover (cur, old) = ([], take n (cur # old))"

definition holds_segments :: "nat \<Rightarrow> (bytes \<Rightarrow> bytes) \<Rightarrow> bytes \<times> bytes list \<Rightarrow> log_files \<Rightarrow> bool" where
  "holds_segments n gz s fs \<longleftrightarrow> map_option content (base_file fs) = Some (fst s) \<and> plain_backup fs = None \<and>
     length (snd s) \<le> n \<and>
     (\<forall>i. map_option content (gz_backup fs i) = (if 1 \<le> i \<and> i \<le> length (snd s) then Some (gz (snd s ! (i - 1))) else None))"

text \<open>Shifting backups that have no gap moves each one up by one.\<close>

lemma shift_backups:
  assumes "\<And>i. 1 \<le> i \<Longrightarrow> i \<le> m \<Longrightarrow> gz_backup fs i = None \<Longrightarrow> gz_backup fs (Suc i) = None"
  shows "shift_all (Suc m) fs =
    fs\<lparr>gz_backup := (\<lambda>i. if 1 \<le> i \<and> i \<le> Suc m \<and> 0 < m then (if i = 1 then None else gz_backup fs (i - 1)) else gz_backup fs i)\<rparr>"
  using assms unfolding shift_all_def
proof (induction m arbitrary: fs)
  case 0
  then show ?case by simp
next
  case (Suc m)
  let ?f = "gz_backup fs"
  define fs1 where "fs1 = fs\<lparr>gz_backup := ?f(Suc (Suc m) := ?f (Suc m), Suc m := None)\<rparr>"
  have step: "shift_backup (Suc m) fs = fs1"
  proof (cases "?f (Suc m)")
    case None
    then have "?f (Suc (Suc m)) = None" using Suc.prems [of "Suc m"] by simp
    then have "?f(Suc (Suc m) := ?f (Suc m), Suc m := None) = ?f" using None by auto
    then show ?thesis using None by (simp add: shift_backup_def fs1_def)
  next
    case (Some c)
    then show ?thesis by (simp add: shift_backup_def fs1_def)
  qed
  have "gz_backup fs1 (Suc i) = None" if "1 \<le> i" "i \<le> m" "gz_backup fs1 i = None" for i
    using Suc.prems [of i] that by (cases "i = m") (auto simp: fs1_def)
  note IH = Suc.IH [OF this]
  have "rev [1 ..< Suc (Suc m)] = Suc m # rev [1 ..< Suc m]" by simp
  then have "fold shift_backup (rev [1 ..< Suc (Suc m)]) fs = fold shift_backup (rev [1 ..< Suc m]) fs1"
    using step by (simp del: upt_Suc)
  also have "\<dots> = fs1\<lparr>gz_backup := (\<lambda>i. if 1 \<le> i \<and> i \<le> Suc m \<and> 0 < m then (if i = 1 then None else gz_backup fs1 (i - 1)) else gz_backup fs1 i)\<rparr>"
    by (rule IH)
  also have "\<dots> = fs\<lparr>gz_backup := (\<lambda>i. if 1 \<le> i \<and> i \<le> Suc (Suc m) \<and> 0 < Suc m then (if i = 1 then None else ?f (i - 1)) else ?f i)\<rparr>"
  proof -
    have "(if 1 \<le> i \<and> i \<le> Suc m \<and> 0 < m then (if i = 1 then None else gz_backup fs1 (i - 1)) else gz_backup fs1 i) =
        (if 1 \<le> i \<and> i \<le> Suc (Suc m) \<and> 0 < Suc m then (if i = 1 then None else ?f (i - 1)) else ?f i)" for i
      by (cases "i = Suc m"; cases "i = Suc (Suc m)"; cases "i = 0") (auto simp: fs1_def)
    then show ?thesis by (simp add: fs1_def)
  qed
  finally show ?case .
qed

lemma rollover_segments:
  assumes "holds_segments (Suc n) gz (cur, old) fs"
  shows "holds_segments (Suc n) gz ([], take (Suc n) (cur # old)) (do_rollover (Suc n) umask gz None fs)"
proof -
  have f: "map_option content (base_file fs) = Some cur" "length old \<le> Suc n"
    "\<And>i. map_option content (gz_backup fs i) = (if 1 \<le> i \<and> i \<le> length old then Some (gz (old ! (i - 1))) else None)"
    using assms by (simp_all add: holds_segments_def)
  then obtain b where b: "base_file fs = Some b" "content b = cur" by auto
  have none: "gz_backup fs i = None \<longleftrightarrow> \<not> (1 \<le> i \<and> i \<le> length old)" for i
    using f(3) [of i] by (auto split: if_splits)
  let ?g = "\<lambda>i. if 1 \<le> i \<and> i \<le> Suc n \<and> 0 < n then (if i = 1 then None else gz_backup fs (i - 1)) else gz_backup fs i"
  have s: "shift_all (Suc n) fs = fs\<lparr>gz_backup := ?g\<rparr>"
    by (rule shift_backups) (auto simp: none)
  define c where "c = (opened umask (?g 1))\<lparr>content := gz cur\<rparr>"
  have r: "do_rollover (Suc n) umask gz None fs =
      fs\<lparr>base_file := Some (created umask), plain_backup := None, gz_backup := ?g(1 := Some c)\<rparr>"
    unfolding do_rollover_def s c_def using b by (simp add: compress_backup_def set_aside_def open_log_def opened_def)
  have "map_option content ((?g(1 := Some c)) i) =
      (if 1 \<le> i \<and> i \<le> length (take (Suc n) (cur # old)) then Some (gz (take (Suc n) (cur # old) ! (i - 1))) else None)" for i
  proof (cases "i \<le> 1")
    case True
    then have "i = 0 \<or> i = 1" by auto
    then show ?thesis by (auto simp: none c_def)
  next
    case False
    then obtain j where j: "i = Suc (Suc j)" using that [of "i - 2"] by simp
    show ?thesis
    proof (cases "j < n")
      case True
      then show ?thesis using j by (simp add: f(3) [of "Suc j"])
    next
      case False
      then show ?thesis using j f(2) by (simp add: f(3) [of "Suc (Suc j)"])
    qed
  qed
  then show ?thesis unfolding r holds_segments_def by (simp add: created_def)
qed


lemma shift_backup_frame:
  "shift_backup i (fs\<lparr>base_file := x\<rparr>) = (shift_backup i fs)\<lparr>base_file := x\<rparr>"
  "shift_backup i (fs\<lparr>plain_backup := y\<rparr>) = (shift_backup i fs)\<lparr>plain_backup := y\<rparr>"
  by (auto simp: shift_backup_def split: option.split)

lemma shift_all_frame:
  "shift_all n (fs\<lparr>base_file := x\<rparr>) = (shift_all n fs)\<lparr>base_file := x\<rparr>"
  "shift_all n (fs\<lparr>plain_backup := y\<rparr>) = (shift_all n fs)\<lparr>plain_backup := y\<rparr>"
proof -
  have "fold shift_backup is (fs\<lparr>base_file := x\<rparr>) = (fold shift_backup is fs)\<lparr>base_file := x\<rparr>"
    "fold shift_backup is (fs\<lparr>plain_backup := y\<rparr>) = (fold shift_backup is fs)\<lparr>plain_backup := y\<rparr>" for "is"
    by (induction "is" arbitrary: fs) (simp_all add: shift_backup_frame)
  then show "shift_all n (fs\<lparr>base_file := x\<rparr>) = (shift_all n fs)\<lparr>base_file := x\<rparr>"
    "shift_all n (fs\<lparr>plain_backup := y\<rparr>) = (shift_all n fs)\<lparr>plain_backup := y\<rparr>" by (simp_all add: shift_all_def)
qed

text \<open>C37: A failed compression loses the segment: the uncompressed backup that it leaves is deleted by the
  next rotation, so that the files after it are the same whatever the segment contained.\<close>

theorem failed_compression_loses_segment:
  "do_rollover (Suc n) umask gz None
     (write_log b (do_rollover (Suc n) umask gz (Some leftover) (fs\<lparr>base_file := Some segment\<rparr>))) =
   do_rollover (Suc n) umask gz None
     (write_log b (do_rollover (Suc n) umask gz (Some leftover) (fs\<lparr>base_file := Some segment'\<rparr>)))"
proof -
  define fs1 where "fs1 = shift_all (Suc n) fs"
  define fs2 where "fs2 = fs1\<lparr>gz_backup := (gz_backup fs1)(1 := leftover)\<rparr>"
  have first: "do_rollover (Suc n) umask gz (Some leftover) (fs\<lparr>base_file := Some c\<rparr>) =
      fs2\<lparr>base_file := Some (created umask), plain_backup := Some c\<rparr>" for c
    by (simp add: do_rollover_def shift_all_frame set_aside_def compress_backup_def open_log_def opened_def
        fs2_def fs1_def)
  have "do_rollover (Suc n) umask gz None (write_log b (fs2\<lparr>base_file := Some (created umask), plain_backup := Some c\<rparr>)) =
      do_rollover (Suc n) umask gz None (fs2\<lparr>base_file := Some ((created umask)\<lparr>content := b\<rparr>)\<rparr>)" for c
    by (simp add: do_rollover_def write_log_def shift_all_frame set_aside_def created_def)
  then show ?thesis unfolding first by simp
qed

end
