(* ===== verification/Log_Setup.thy ===== *)
theory Log_Setup
  imports Log_Handler
begin

text \<open>
  The singleton \<open>LogHandler\<close> of \<open>logger/log_handler.py\<close>, which configures the logger \<open>cachyDB\<close> of the process:
  the environment it reads, the log directory and files it creates, the handlers it builds, the queue
  between the logger and the listener that feeds them, and the shutdown. The queue, the listener and
  the filtering by levels are the standard library's: a record that the logger accepts goes through the
  queue of each of its queue handlers to the running listener on that queue, and from there to the
  handlers whose own level admits it.
\<close>

subsection \<open>The environment\<close>

definition py_space :: "nat \<Rightarrow> bool" where
  "py_space c \<longleftrightarrow> (9 \<le> c \<and> c \<le> 13) \<or> (28 \<le> c \<and> c \<le> 32) \<or> (8192 \<le> c \<and> c \<le> 8202) \<or>
     c \<in> {133, 160, 5760, 8232, 8233, 8239, 8287, 12288}"

definition py_strip :: "pystr \<Rightarrow> pystr" where
  "py_strip s = rev (dropWhile py_space (rev (dropWhile py_space s)))"

text \<open>
  \<open>upper\<close> and \<open>lower\<close> as far as a comparison with the words below can see them: the only other character
  that one of them maps into a word of capital letters of a level is the dotless i.
\<close>

definition upper_char :: "nat \<Rightarrow> nat" where
  "upper_char c = (if 97 \<le> c \<and> c \<le> 122 then c - 32 else if c = 305 then 73 else c)"

definition lower_char :: "nat \<Rightarrow> nat" where
  "lower_char c = (if 65 \<le> c \<and> c \<le> 90 then c + 32 else c)"

definition CRITICAL :: int where "CRITICAL = 50"

definition valid_log_levels :: "(pystr \<times> int) list" where
  "valid_log_levels =
     [(lit ''DEBUG'', DEBUG), (lit ''INFO'', INFO), (lit ''WARNING'', WARNING), (lit ''ERROR'', ERROR),
      (lit ''CRITICAL'', CRITICAL)]"

definition resolve_log_level :: "pystr option \<Rightarrow> int" where
  "resolve_log_level LOG_LEVEL =
     (let raw_level = map upper_char (py_strip (case LOG_LEVEL of None \<Rightarrow> lit ''INFO'' | Some s \<Rightarrow> s))
      in case map_of valid_log_levels raw_level of None \<Rightarrow> INFO | Some level \<Rightarrow> level)"

definition json_logging :: "pystr option \<Rightarrow> bool" where
  "json_logging LOG_JSON \<longleftrightarrow>
     map lower_char (py_strip (case LOG_JSON of None \<Rightarrow> lit ''false'' | Some s \<Rightarrow> s))
       \<in> {lit ''true'', lit ''1'', lit ''yes''}"

text \<open>\<open>LOG_DIR\<close> as \<open>Path\<close> normalises it.\<close>

record log_env =
  LOG_LEVEL :: "pystr option"
  LOG_DIR :: "pystr option"
  LOG_JSON :: "pystr option"
  umask :: int

subsection \<open>The state\<close>

datatype log_name = Plain_File | Json_File

datatype handler_kind = File_Handler | Console_Handler | Json_Handler

record log_handler =
  kind :: handler_kind
  level :: int

text \<open>
  The class attributes, the attributes of the instance, the logger, the listeners that run, the
  directories and files, what each handler has received, and the handlers that the shutdown has closed.
  A queue is a number.
\<close>

record log_state =
  has_instance :: bool
  initialized :: bool
  log_level :: int
  json_enabled :: bool
  log_dir :: pystr
  handlers :: "log_handler list"
  queue :: nat
  listener :: "nat option"
  at_exit :: nat
  next_queue :: nat
  listeners :: "(nat \<times> log_handler list) list"
  logger_level :: int
  logger_queues :: "nat list"
  propagate :: bool
  dir_mode :: "pystr \<Rightarrow> int option"
  file_mode :: "pystr \<times> log_name \<Rightarrow> int option"
  received :: "(handler_kind \<times> int \<times> pystr) list"
  closed :: "handler_kind list"

text \<open>
  What the system answers during one call. A file that does not exist when it is looked for may be made by
  another process, with some mode, before it is created here; the \<open>chmod\<close> that follows may fail.
\<close>

datatype file_outcome = File_Done | File_Raced int bool | File_Error

record log_io =
  mkdir_ok :: bool
  dir_chmod_ok :: bool
  file_io :: "log_name \<Rightarrow> file_outcome"
  open_ok :: "log_name \<Rightarrow> bool"
  thread_ok :: bool

subsection \<open>The log directory and files\<close>

definition create_log_file :: "log_env \<Rightarrow> log_io \<Rightarrow> log_name \<Rightarrow> log_state \<Rightarrow> (log_state, unit) step_result" where
  "create_log_file env io n st =
     (let f = (log_dir st, n); put = (\<lambda>m. st\<lparr>file_mode := (file_mode st)(f := Some m)\<rparr>)
      in case file_mode st f of
           Some _ \<Rightarrow> (if file_io io n = File_Error then (Inl LoggingHandlerError, st) else (Inr (), put 384))
         | None \<Rightarrow>
             (case file_io io n of
                File_Done \<Rightarrow> (Inr (), put (and 384 (not (umask env))))
              | File_Raced m chmod_ok \<Rightarrow> (if chmod_ok then (Inr (), put 384) else (Inl OSError, put m))
              | File_Error \<Rightarrow> (Inl LoggingHandlerError, st)))"

definition create_log_dir :: "log_env \<Rightarrow> log_io \<Rightarrow> log_state \<Rightarrow> (log_state, unit) step_result" where
  "create_log_dir env io st =
     (if \<not> mkdir_ok io then (Inl LoggingHandlerError, st)
      else
        let made = (case dir_mode st (log_dir st) of None \<Rightarrow> and 511 (not (umask env)) | Some m \<Rightarrow> m);
            st1 = st\<lparr>dir_mode := (dir_mode st)(log_dir st := Some (if dir_chmod_ok io then 448 else made))\<rparr>
        in if \<not> dir_chmod_ok io then (Inl LoggingHandlerError, st1)
           else bind_step (create_log_file env io Plain_File st1) (\<lambda>_ st2. create_log_file env io Json_File st2))"

subsection \<open>The handlers and the logger\<close>

definition build_file_handler :: "log_io \<Rightarrow> log_handler result" where
  "build_file_handler io = (if open_ok io Plain_File then Inr \<lparr>kind = File_Handler, level = DEBUG\<rparr> else Inl OSError)"

definition build_json_handler :: "log_io \<Rightarrow> log_handler result" where
  "build_json_handler io = (if open_ok io Json_File then Inr \<lparr>kind = Json_Handler, level = DEBUG\<rparr> else Inl OSError)"

definition build_console_handler :: "log_state \<Rightarrow> log_handler" where
  "build_console_handler st = \<lparr>kind = Console_Handler, level = log_level st\<rparr>"

definition build_handlers :: "log_io \<Rightarrow> log_state \<Rightarrow> log_handler list result" where
  "build_handlers io st =
     bind_result (build_file_handler io) (\<lambda>f.
       if json_enabled st
       then bind_result (build_json_handler io) (\<lambda>j. Inr [f, build_console_handler st, j])
       else Inr [f, build_console_handler st])"

text \<open>A record on the logger: through its queue handlers and the listeners on their queues.\<close>

definition dispatch :: "int \<Rightarrow> log_handler list \<Rightarrow> handler_kind list" where
  "dispatch lvl hs = map kind (filter (\<lambda>h. level h \<le> lvl) hs)"

definition receivers :: "int \<Rightarrow> log_state \<Rightarrow> handler_kind list" where
  "receivers lvl st =
     (if lvl < logger_level st then []
      else concat (map (\<lambda>q. concat (map (\<lambda>(q', hs). if q' = q then dispatch lvl hs else []) (listeners st)))
             (logger_queues st)))"

definition log_record_to :: "int \<Rightarrow> pystr \<Rightarrow> log_state \<Rightarrow> log_state" where
  "log_record_to lvl msg st = st\<lparr>received := received st @ map (\<lambda>k. (k, lvl, msg)) (receivers lvl st)\<rparr>"

definition level_name :: "int \<Rightarrow> pystr" where
  "level_name l = (case map_of (map (\<lambda>(n, v). (v, n)) valid_log_levels) l of
     Some n \<Rightarrow> n | None \<Rightarrow> lit ''Level '' @ dec_int l)"

definition init_message :: "log_state \<Rightarrow> pystr" where
  "init_message st = lit ''CachyDB logging initialised. level='' @ level_name (log_level st) @ lit '' json='' @
     lit (if json_enabled st then ''True'' else ''False'') @ lit '' dir='' @ log_dir st"

definition setup_logging :: "log_io \<Rightarrow> log_state \<Rightarrow> (log_state, unit) step_result" where
  "setup_logging io st =
     (case build_handlers io st of
        Inl e \<Rightarrow> (Inl e, st)
      | Inr hs \<Rightarrow>
          let st1 = st\<lparr>handlers := hs, listener := Some (queue st)\<rparr>
          in if \<not> thread_ok io then (Inl RuntimeError, st1)
             else let st2 = st1\<lparr>listeners := listeners st1 @ [(queue st, hs)], logger_level := log_level st1,
                                logger_queues := [queue st], propagate := False\<rparr>
                  in (Inr (), log_record_to INFO (init_message st2) st2))"

definition log_init :: "log_env \<Rightarrow> log_io \<Rightarrow> log_state \<Rightarrow> (log_state, unit) step_result" where
  "log_init env io st =
     (if initialized st then (Inr (), st)
      else
        let st1 = st\<lparr>log_level := resolve_log_level (LOG_LEVEL env),
                     log_dir := (case LOG_DIR env of None \<Rightarrow> lit ''data/logs'' | Some d \<Rightarrow> d),
                     json_enabled := json_logging (LOG_JSON env), handlers := [], listener := None\<rparr>
        in case bind_step (create_log_dir env io st1)
                 (\<lambda>_ st2. setup_logging io (st2\<lparr>queue := next_queue st2, next_queue := Suc (next_queue st2)\<rparr>)) of
             (Inl e, st2) \<Rightarrow> (Inl LoggingHandlerError, st2)
           | (Inr _, st2) \<Rightarrow> (Inr (), st2\<lparr>at_exit := Suc (at_exit st2), initialized := True\<rparr>))"

text \<open>\<open>LogHandler()\<close>: \<open>__new__\<close> and \<open>__init__\<close>.\<close>

definition make_log_handler :: "log_env \<times> log_io \<Rightarrow> log_state \<Rightarrow> (log_state, unit) step_result" where
  "make_log_handler call st = log_init (fst call) (snd call) (st\<lparr>has_instance := True\<rparr>)"

text \<open>The hook at exit: \<open>stop_ok\<close> and \<open>close_ok\<close> tell which of its steps raise nothing. A queue handler
  has nothing to flush and stays on the logger.\<close>

definition log_shutdown :: "bool \<Rightarrow> (handler_kind \<Rightarrow> bool) \<Rightarrow> log_state \<Rightarrow> log_state" where
  "log_shutdown stop_ok close_ok st =
     st\<lparr>listeners := (if stop_ok then filter (\<lambda>(q, _). listener st \<noteq> Some q) (listeners st) else listeners st),
        closed := closed st @ filter close_ok (map kind (handlers st))\<rparr>"

definition fresh_process :: "(pystr \<Rightarrow> int option) \<Rightarrow> (pystr \<times> log_name \<Rightarrow> int option) \<Rightarrow> log_state" where
  "fresh_process dirs files =
     \<lparr>has_instance = False, initialized = False, log_level = 0, json_enabled = False, log_dir = [], handlers = [],
      queue = 0, listener = None, at_exit = 0, next_queue = 1, listeners = [], logger_level = 0, logger_queues = [],
      propagate = True, dir_mode = dirs, file_mode = files, received = [], closed = []\<rparr>"

subsection \<open>Any number of calls\<close>

definition make_all :: "(log_env \<times> log_io) list \<Rightarrow> log_state \<Rightarrow> log_state" where
  "make_all calls st = fold (\<lambda>c st. snd (make_log_handler c st)) calls st"

text \<open>
  A call that fails leaves the logger and the listeners as they were; one that succeeds configures them
  completely.
\<close>

definition unconfigured :: "log_state \<Rightarrow> bool" where
  "unconfigured st \<longleftrightarrow> \<not> initialized st \<and> listeners st = [] \<and> logger_queues st = [] \<and> at_exit st = 0 \<and> received st = []"

definition configured :: "log_state \<Rightarrow> bool" where
  "configured st \<longleftrightarrow> has_instance st \<and> initialized st \<and> at_exit st = 1 \<and> \<not> propagate st \<and> logger_level st = log_level st \<and>
     logger_queues st = [queue st] \<and> listeners st = [(queue st, handlers st)] \<and> listener st = Some (queue st) \<and>
     handlers st = [\<lparr>kind = File_Handler, level = DEBUG\<rparr>, \<lparr>kind = Console_Handler, level = log_level st\<rparr>] @
       (if json_enabled st then [\<lparr>kind = Json_Handler, level = DEBUG\<rparr>] else []) \<and>
     DEBUG \<le> log_level st"

definition private_files :: "log_state \<Rightarrow> bool" where
  "private_files st \<longleftrightarrow> dir_mode st (log_dir st) = Some 448 \<and>
     (\<forall>n \<in> {Plain_File, Json_File}. case file_mode st (log_dir st, n) of None \<Rightarrow> False | Some m \<Rightarrow> and m 63 = 0)"

lemma level_range: "DEBUG \<le> resolve_log_level x"
  by (auto simp: resolve_log_level_def valid_log_levels_def levels CRITICAL_def Let_def split: option.split)

text \<open>Creating the directory and the files changes nothing else.\<close>

definition same_logger :: "log_state \<Rightarrow> log_state \<Rightarrow> bool" where
  "same_logger st st' \<longleftrightarrow> (\<exists>d f. st' = st\<lparr>dir_mode := d, file_mode := f\<rparr>)"

lemma private_mode: "and (and 384 m) 63 = (0 :: int)" "and 384 63 = (0 :: int)"
proof -
  have "and (and 384 m) 63 = and m (and 384 63 :: int)" by (simp only: and.assoc and.commute and.left_commute)
  then show "and (and 384 m) 63 = (0 :: int)" by simp
qed simp

lemma same_logger_refl: "same_logger st st"
proof -
  have "st = st\<lparr>dir_mode := dir_mode st, file_mode := file_mode st\<rparr>" by simp
  then show ?thesis unfolding same_logger_def by blast
qed

lemma same_logger_put: "same_logger st (st\<lparr>file_mode := f\<rparr>)" "same_logger st (st\<lparr>dir_mode := d\<rparr>)"
proof -
  have "st\<lparr>file_mode := f\<rparr> = st\<lparr>dir_mode := dir_mode st, file_mode := f\<rparr>"
    "st\<lparr>dir_mode := d\<rparr> = st\<lparr>dir_mode := d, file_mode := file_mode st\<rparr>" by simp_all
  then show "same_logger st (st\<lparr>file_mode := f\<rparr>)" "same_logger st (st\<lparr>dir_mode := d\<rparr>)"
    unfolding same_logger_def by blast+
qed

lemma same_logger_trans: "same_logger a b \<Longrightarrow> same_logger b c \<Longrightarrow> same_logger a c"
  unfolding same_logger_def by clarsimp blast

lemma create_log_file_frame: "same_logger st (snd (create_log_file env io n st))"
  by (auto simp: create_log_file_def Let_def same_logger_refl same_logger_put split: option.split file_outcome.split)

lemma create_log_dir_frame: "same_logger st (snd (create_log_dir env io st))"
proof -
  have step: "same_logger st1 st2 \<Longrightarrow> same_logger st1 (snd (bind_step (create_log_file env io n st2) (\<lambda>_. create_log_file env io n')))"
    for st1 st2 n n'
    using create_log_file_frame [of st2 env io n] create_log_file_frame [of _ env io n']
    by (cases "create_log_file env io n st2"; cases "fst (create_log_file env io n st2)") (auto intro: same_logger_trans)
  show ?thesis
    by (auto simp: create_log_dir_def Let_def same_logger_refl same_logger_put step split: option.split)
qed

lemma create_log_file_private:
  assumes "create_log_file env io n st = (Inr (), st')"
  shows "\<exists>m. and m 63 = 0 \<and> st' = st\<lparr>file_mode := (file_mode st)((log_dir st, n) := Some m)\<rparr>"
proof -
  have "\<exists>m. (m = 384 \<or> m = and 384 (not (umask env))) \<and> st' = st\<lparr>file_mode := (file_mode st)((log_dir st, n) := Some m)\<rparr>"
    using assms by (simp add: create_log_file_def Let_def split: option.splits file_outcome.splits if_splits) blast+
  then show ?thesis using private_mode by blast
qed

lemma create_log_dir_private:
  assumes "create_log_dir env io st = (Inr (), st')"
  shows "private_files st'"
proof -
  obtain d st2 where ok: "create_log_file env io Plain_File (st\<lparr>dir_mode := (dir_mode st)(log_dir st := Some 448)\<rparr>) = (Inr (), st2)"
    "create_log_file env io Json_File st2 = (Inr (), st')"
    using assms by (auto simp: create_log_dir_def Let_def split: if_splits)
  show ?thesis using create_log_file_private [OF ok(1)] create_log_file_private [OF ok(2)]
    by (auto simp: private_files_def)
qed

lemma build_handlers_ok:
  assumes "build_handlers io st = Inr hs"
  shows "hs = [\<lparr>kind = File_Handler, level = DEBUG\<rparr>, \<lparr>kind = Console_Handler, level = log_level st\<rparr>] @
    (if json_enabled st then [\<lparr>kind = Json_Handler, level = DEBUG\<rparr>] else [])"
  using assms by (auto simp: build_handlers_def build_file_handler_def build_json_handler_def build_console_handler_def
      split: if_splits)

lemma setup_logging_fails: "setup_logging io st = (Inl e, st') \<Longrightarrow> unconfigured st \<Longrightarrow> unconfigured st'"
  by (auto simp: setup_logging_def unconfigured_def Let_def split: sum.splits if_splits)

lemma setup_logging_ok:
  assumes "setup_logging io st = (Inr (), st')" "unconfigured st" "has_instance st" "DEBUG \<le> log_level st"
  shows "configured (st'\<lparr>at_exit := Suc (at_exit st'), initialized := True\<rparr>)"
    and "private_files st' = private_files st"
proof -
  obtain hs where hs: "build_handlers io st = Inr hs" using assms(1) by (auto simp: setup_logging_def split: sum.splits)
  note h = build_handlers_ok [OF hs]
  show "configured (st'\<lparr>at_exit := Suc (at_exit st'), initialized := True\<rparr>)" using assms hs
    by (auto simp: setup_logging_def Let_def configured_def log_record_to_def unconfigured_def h split: if_splits)
  show "private_files st' = private_files st" using assms(1) hs
    by (auto simp: setup_logging_def Let_def log_record_to_def private_files_def split: if_splits)
qed

lemma make_log_handler_step:
  assumes "unconfigured st" and m: "make_log_handler c st = (r, st')"
  shows "(r = Inr () \<and> configured st' \<and> private_files st') \<or> (r = Inl LoggingHandlerError \<and> unconfigured st')"
proof -
  obtain env io where c: "c = (env, io)" by (cases c)
  define st1 where "st1 = st\<lparr>has_instance := True, log_level := resolve_log_level (LOG_LEVEL env),
      log_dir := (case LOG_DIR env of None \<Rightarrow> lit ''data/logs'' | Some d \<Rightarrow> d),
      json_enabled := json_logging (LOG_JSON env), handlers := [], listener := None\<rparr>"
  obtain r2 st2 where d: "create_log_dir env io st1 = (r2, st2)" by (cases "create_log_dir env io st1")
  have "unconfigured st1" using assms(1) by (simp add: unconfigured_def st1_def)
  moreover have "same_logger st1 st2" using create_log_dir_frame [of st1 env io] d by simp
  ultimately have st2: "unconfigured st2" "has_instance st2" "DEBUG \<le> log_level st2"
    using level_range by (auto simp: same_logger_def unconfigured_def st1_def)
  define st3 where "st3 = st2\<lparr>queue := next_queue st2, next_queue := Suc (next_queue st2)\<rparr>"
  have st3: "unconfigured st3" "has_instance st3" "DEBUG \<le> log_level st3"
    using st2 by (simp_all add: st3_def unconfigured_def)
  have m': "(r, st') = (case bind_step (r2, st2) (\<lambda>_ st2. setup_logging io (st2\<lparr>queue := next_queue st2, next_queue := Suc (next_queue st2)\<rparr>)) of
      (Inl e, st2) \<Rightarrow> (Inl LoggingHandlerError, st2)
    | (Inr _, st2) \<Rightarrow> (Inr (), st2\<lparr>at_exit := Suc (at_exit st2), initialized := True\<rparr>))"
    using m assms(1) d by (simp add: make_log_handler_def log_init_def unconfigured_def c st1_def Let_def)
  show ?thesis
  proof (cases r2)
    case (Inl e)
    then show ?thesis using m' st2 by simp
  next
    case (Inr u)
    obtain r4 st4 where s: "setup_logging io st3 = (r4, st4)" by (cases "setup_logging io st3")
    show ?thesis
    proof (cases r4)
      case (Inl e)
      then show ?thesis using m' Inr s setup_logging_fails st3 by (simp add: st3_def)
    next
      case r4: (Inr v)
      have "private_files st3" using create_log_dir_private [of env io st1 st2] d Inr by (simp add: st3_def private_files_def)
      then have "private_files (st4\<lparr>at_exit := Suc (at_exit st4), initialized := True\<rparr>)"
        using setup_logging_ok(2) [of io st3 st4] s r4 st3 by (simp add: private_files_def)
      then show ?thesis using m' Inr s r4 setup_logging_ok(1) [of io st3 st4] st3 by (simp add: st3_def)
    qed
  qed
qed

lemma make_log_handler_again:
  assumes "configured st"
  shows "make_log_handler c st = (Inr (), st)"
  using assms by (simp add: make_log_handler_def log_init_def configured_def)

text \<open>If nothing that the system does for a call fails, the call returns.\<close>

definition log_io_ok :: "log_io \<Rightarrow> bool" where
  "log_io_ok io \<longleftrightarrow> mkdir_ok io \<and> dir_chmod_ok io \<and> thread_ok io \<and>
     (\<forall>n. file_io io n = File_Done \<and> open_ok io n)"

lemma create_log_file_ok: "log_io_ok io \<Longrightarrow> \<exists>st'. create_log_file env io n st = (Inr (), st')"
  by (auto simp: create_log_file_def log_io_ok_def Let_def split: option.split)

lemma make_log_handler_ok:
  assumes io: "log_io_ok io"
  shows "fst (make_log_handler (env, io) st) = Inr ()"
proof -
  have "\<exists>st'. create_log_dir env io st = (Inr (), st')" for st
  proof -
    let ?st1 = "st\<lparr>dir_mode := (dir_mode st)(log_dir st := Some 448)\<rparr>"
    obtain st2 where 1: "create_log_file env io Plain_File ?st1 = (Inr (), st2)"
      using create_log_file_ok [OF io] by blast
    obtain st3 where "create_log_file env io Json_File st2 = (Inr (), st3)" using create_log_file_ok [OF io] by blast
    then show ?thesis using 1 io by (simp add: create_log_dir_def log_io_ok_def)
  qed
  moreover have "\<exists>st'. setup_logging io st = (Inr (), st')" for st
    using io by (simp add: setup_logging_def build_handlers_def build_file_handler_def build_json_handler_def
        log_io_ok_def Let_def)
  ultimately have run: "\<exists>st'. bind_step (create_log_dir env io st1) (\<lambda>_ st2. setup_logging io (f st2)) = (Inr (), st')" for st1 f
    by (metis bind_step.simps(2))
  show ?thesis
  proof (cases "initialized st")
    case False
    let ?st1 = "st\<lparr>has_instance := True, log_level := resolve_log_level (LOG_LEVEL env),
      log_dir := (case LOG_DIR env of None \<Rightarrow> lit ''data/logs'' | Some d \<Rightarrow> d),
      json_enabled := json_logging (LOG_JSON env), handlers := [], listener := None\<rparr>"
    obtain st' where "bind_step (create_log_dir env io ?st1)
        (\<lambda>_ st2. setup_logging io (st2\<lparr>queue := next_queue st2, next_queue := Suc (next_queue st2)\<rparr>)) = (Inr (), st')"
      using run [of ?st1 "\<lambda>st2. st2\<lparr>queue := next_queue st2, next_queue := Suc (next_queue st2)\<rparr>"] by blast
    with False show ?thesis by (simp add: make_log_handler_def log_init_def Let_def del: bind_step_eq_Inr)
  qed (simp add: make_log_handler_def log_init_def)
qed

lemma make_all_configured: "configured st \<Longrightarrow> make_all calls st = st"
  unfolding make_all_def by (induction calls) (simp_all add: make_log_handler_again)

lemma make_all_cases: "unconfigured st \<Longrightarrow>
  (configured (make_all calls st) \<and> private_files (make_all calls st)) \<or> unconfigured (make_all calls st)"
proof (induction calls arbitrary: st)
  case (Cons c calls)
  obtain r st' where m: "make_log_handler c st = (r, st')" by (cases "make_log_handler c st")
  show ?case using make_log_handler_step [OF Cons.prems m] m Cons.IH make_all_configured
    by (auto simp: make_all_def)
qed (simp add: make_all_def)

lemma fresh_unconfigured: "unconfigured (fresh_process dirs files)"
  by (simp add: unconfigured_def fresh_process_def)

lemma configured_receivers:
  assumes "configured st"
  shows "receivers lvl st =
    (if log_level st \<le> lvl then File_Handler # Console_Handler # (if json_enabled st then [Json_Handler] else []) else [])"
  using assms by (auto simp: receivers_def configured_def dispatch_def)

text \<open>C34: However often \<open>LogHandler()\<close> is called, with whatever environment and whichever of the calls
  fail, the logger is either not configured, and nothing that is logged reaches a handler, or configured by
  one call: then every further call changes nothing, and each logged record of at least \<open>LOG_LEVEL\<close> reaches the
  file, the console and, if enabled, the JSON handler once each, while a record below \<open>LOG_LEVEL\<close> reaches none
  of them, the file handler included.\<close>

theorem log_handlers_attached_once:
  "let st = make_all calls (fresh_process dirs files) in
    if initialized st
    then make_all calls' st = st \<and> at_exit st = 1 \<and>
      log_record_to lvl msg st = st\<lparr>received := received st @
        (if log_level st \<le> lvl
         then map (\<lambda>k. (k, lvl, msg)) (File_Handler # Console_Handler # (if json_enabled st then [Json_Handler] else []))
         else [])\<rparr>
    else log_record_to lvl msg st = st"
proof -
  define st where "st = make_all calls (fresh_process dirs files)"
  consider "configured st" | "unconfigured st" using make_all_cases [OF fresh_unconfigured] st_def by blast
  then show ?thesis
  proof cases
    case 1
    moreover have "initialized st" "at_exit st = 1" using 1 by (simp_all add: configured_def)
    ultimately show ?thesis
      by (simp flip: st_def add: make_all_configured log_record_to_def configured_receivers)
  next
    case 2
    then show ?thesis by (simp flip: st_def add: unconfigured_def log_record_to_def receivers_def)
  qed
qed

text \<open>Writes keep the mode of the log; a rotation gives it the default mode.\<close>

lemma write_log_mode: "map_option mode (base_file (write_log b fs)) = map_option mode (base_file fs)"
  by (cases "base_file fs") (simp_all add: write_log_def)

lemma writes_mode:
  "map_option mode (base_file (fold (log_step n um gz) (map Emit bs) fs)) = map_option mode (base_file fs)"
  by (induction bs arbitrary: fs) (simp_all add: write_log_mode)

lemma rollover_mode: "map_option mode (base_file (do_rollover (Suc n) um gz outcome fs)) = Some (and 438 (not um))"
proof -
  have "base_file (compress_backup um gz outcome (set_aside fs')) = None" for fs'
    by (auto simp: compress_backup_def set_aside_def split: option.split)
  then show ?thesis by (simp add: do_rollover_def open_log_def opened_def created_def)
qed

text \<open>C35: When the logging is set up, the log directory admits its owner only and neither log file has a
  permission for anyone else, whatever existed before and whichever earlier calls failed. This lasts until
  the first rotation: the log file that it opens has the default mode of the process, with umask \<open>0o022\<close>
  readable by everyone.\<close>

theorem log_files_private_until_rotation:
  assumes st: "st = make_all calls (fresh_process dirs files)" and "initialized st"
    and f: "file_mode st (log_dir st, n) = Some (mode f)"
  shows "dir_mode st (log_dir st) = Some 448 \<and> and (mode f) 63 = 0 \<and>
    map_option mode (base_file (fold (log_step 5 um gz) (map Emit bs) (fresh_log f))) = Some (mode f) \<and>
    map_option mode (base_file (fold (log_step 5 um gz) (ops @ Rollover # map Emit bs) (fresh_log f))) =
      Some (and 438 (not um)) \<and>
    and (and 438 (not 18)) 63 = (36 :: int)"
proof -
  have "private_files st" using make_all_cases [OF fresh_unconfigured] st \<open>initialized st\<close> by (auto simp: unconfigured_def)
  moreover have "n \<in> {Plain_File, Json_File}" by (cases n) simp_all
  ultimately have "dir_mode st (log_dir st) = Some 448" "and (mode f) 63 = 0"
    using f by (auto simp: private_files_def)
  moreover have "Suc 4 = 5" by simp
  ultimately show ?thesis using rollover_mode [of 4 um gz None] by (simp add: writes_mode fresh_log_def)
qed

definition plain_call :: "log_env \<times> log_io" where
  "plain_call =
     (\<lparr>LOG_LEVEL = Some (lit '' debug''), LOG_DIR = None, LOG_JSON = None, umask = 18\<rparr>,
      \<lparr>mkdir_ok = True, dir_chmod_ok = True, file_io = (\<lambda>_. File_Done), open_ok = (\<lambda>_. True), thread_ok = True\<rparr>)"

lemma plain_call_level: "resolve_log_level (Some (lit '' debug'')) = 10"
  by (simp add: resolve_log_level_def valid_log_levels_def py_strip_def py_space_def upper_char_def lit_def levels)

lemma plain_call_json: "json_logging None = False"
  by (simp add: json_logging_def py_strip_def py_space_def lower_char_def lit_def)

lemma plain_call_state:
  "initialized (make_all [plain_call] (fresh_process (\<lambda>_. None) (\<lambda>_. None)))"
  "log_dir (make_all [plain_call] (fresh_process (\<lambda>_. None) (\<lambda>_. None))) = lit ''data/logs''"
  "file_mode (make_all [plain_call] (fresh_process (\<lambda>_. None) (\<lambda>_. None))) (lit ''data/logs'', Plain_File) = Some 384"
  by (simp_all add: make_all_def make_log_handler_def log_init_def fresh_process_def plain_call_def plain_call_level
      plain_call_json create_log_dir_def create_log_file_def setup_logging_def build_handlers_def
      build_file_handler_def log_record_to_def Let_def)

theorem log_files_private_until_rotation_witness:
  "let st = make_all [plain_call] (fresh_process (\<lambda>_. None) (\<lambda>_. None)) in
    dir_mode st (lit ''data/logs'') = Some 448 \<and>
    map_option mode (base_file (fold (log_step 5 18 (\<lambda>b. b)) [Rollover] (fresh_log \<lparr>mode = 384, content = []\<rparr>))) = Some 420"
proof -
  have "(and 438 (not 18)) = (420 :: int)" by simp
  then show ?thesis
    using log_files_private_until_rotation [of _ "[plain_call]" "\<lambda>_. None" "\<lambda>_. None" Plain_File "\<lparr>mode = 384, content = []\<rparr>"
        18 "\<lambda>b. b" "[]" "[]", OF refl] plain_call_state
    by (simp add: Let_def)
qed

end
