(* ===== verification/Cachydb_System.thy ===== *)
theory Cachydb_System
  imports Durability Router_Total Compactor Checkpoint_Thread Json_Log Log_Setup
begin

text \<open>
  The whole engine: the facade of \<open>database.py\<close> with the threads that it starts and the logging that it
  configures, each component in its own model. The files of the write-ahead log belong to the router's
  log while the engine is open; a checkpoint cycle works on them.
\<close>

subsection \<open>State\<close>

record system =
  base :: database
  checkpoints :: checkpointer
  compactions :: compactor
  logging :: log_state

text \<open>What the system answers when the engine is opened, beside the table files of \<open>env\<close>.\<close>

record config =
  environment :: env
  log_call :: "log_env \<times> log_io"
  archive_mkdir :: "int option"
  archive_chmod :: bool

definition new_system :: "int \<Rightarrow> int \<Rightarrow> log_state \<Rightarrow> system" where
  "new_system mx cap lg =
     \<lparr>base = new_database mx cap,
      checkpoints = \<lparr>archive_mode = None, stop_event = False, thread = None,
                     cycle = \<lparr>cp_files = [], cp_archives = []\<rparr>\<rparr>,
      compactions = compactor_init DEFAULT_THRESHOLD, logging = lg\<rparr>"

subsection \<open>Opening, calling and closing\<close>

text \<open>\<open>_ensure_initialized\<close>: the logging, the log, the router, the checkpoint thread, the compactor, recovery.\<close>

definition sys_open :: "config \<Rightarrow> system \<Rightarrow> (system, unit) step_result" where
  "sys_open cfg s =
     (if engine (base s) \<noteq> None then (Inr (), s)
      else
        case make_log_handler (log_call cfg) (logging s) of
          (lr, lg) \<Rightarrow>
            let cp = checkpoint_init (archive_mkdir cfg) (archive_chmod cfg) (archive_mode (checkpoints s)) (cycle (checkpoints s))
            in case ensure_initialized (environment cfg) \<lparr>logging_ok = is_ok lr, archive_ok = is_ok cp\<rparr> (base s) of
                 (Inl err, d) \<Rightarrow> (Inl err, s\<lparr>base := d, logging := lg\<rparr>)
               | (Inr _, d) \<Rightarrow>
                   (Inr (), s\<lparr>base := d, logging := lg,
                              checkpoints := (case cp of Inl _ \<Rightarrow> checkpoints s | Inr c \<Rightarrow> start_thread c),
                              compactions := start_background (compactor_init DEFAULT_THRESHOLD)\<rparr>))"

text \<open>The calls that open the engine: those with a table and a key.\<close>

fun opens :: "db_op \<Rightarrow> bool" where
  "opens (DB_Set t k v) \<longleftrightarrow> t \<noteq> [] \<and> k \<noteq> []"
| "opens (DB_Set_Many t kvs) \<longleftrightarrow> t \<noteq> [] \<and> kvs \<noteq> []"
| "opens (DB_Get t k) \<longleftrightarrow> t \<noteq> [] \<and> k \<noteq> []"
| "opens (DB_Delete t k) \<longleftrightarrow> t \<noteq> [] \<and> k \<noteq> []"
| "opens (DB_Flush_Stage t) \<longleftrightarrow> False"
| "opens DB_Writer_Round \<longleftrightarrow> False"

definition opened_env :: start_env where
  "opened_env = \<lparr>logging_ok = True, archive_ok = True\<rparr>"

definition sys_call :: "config \<Rightarrow> db_op \<Rightarrow> system \<Rightarrow> (system, pyval) step_result" where
  "sys_call cfg x s =
     bind_step (if opens x then sys_open cfg s else (Inr (), s)) (\<lambda>_ s1.
       case db_step (environment cfg) opened_env x (base s1) of (a, d) \<Rightarrow> (a, s1\<lparr>base := d\<rparr>))"

text \<open>A turn of the checkpoint thread, on the files of the open log, and of the compactor.\<close>

definition sys_checkpoint :: "(nat \<Rightarrow> bool) \<Rightarrow> (nat \<Rightarrow> bool) \<Rightarrow> system \<Rightarrow> system" where
  "sys_checkpoint copied removed s =
     (case engine (base s) of
        None \<Rightarrow> s
      | Some r \<Rightarrow>
          let c = run_loop copied removed (active_flushes (rwal r))
                    ((checkpoints s)\<lparr>cycle := (cycle (checkpoints s))\<lparr>cp_files := wal_files (rwal r)\<rparr>\<rparr>)
          in s\<lparr>checkpoints := c,
               base := (base s)\<lparr>engine := Some (r\<lparr>rwal := (rwal r)\<lparr>wal_files := cp_files (cycle c)\<rparr>\<rparr>)\<rparr>\<rparr>)"

definition sys_compact :: "config \<Rightarrow> bool \<Rightarrow> (pystr \<Rightarrow> pyfile option) \<Rightarrow> system \<Rightarrow> system" where
  "sys_compact cfg swap_ok left s =
     (case engine (base s) of
        None \<Rightarrow> s
      | Some r \<Rightarrow>
          (case run_loop_step swap_ok left (environment cfg) (compactions s, r) of
             (c, r') \<Rightarrow> s\<lparr>compactions := c, base := (base s)\<lparr>engine := Some r'\<rparr>\<rparr>))"

text \<open>\<open>close\<close>: the threads are stopped first, the compactor before the checkpoint.\<close>

definition sys_close :: "config \<Rightarrow> bool \<Rightarrow> bool \<Rightarrow> (pystr \<Rightarrow> pyfile option) \<Rightarrow> system \<Rightarrow> system option" where
  "sys_close cfg waiting swap_ok left s =
     (case engine (base s) of
        None \<Rightarrow> Some s
      | Some r \<Rightarrow>
          (case stop_background swap_ok left (environment cfg) (compactions s, r) of
             (c, r') \<Rightarrow>
               map_option (\<lambda>d. s\<lparr>base := d, compactions := c, checkpoints := stop_thread (checkpoints s)\<rparr>)
                 (db_close (environment cfg) waiting ((base s)\<lparr>engine := Some r'\<rparr>))))"

subsection \<open>Histories\<close>

datatype sys_op =
    Call db_op
  | Checkpoint_Turn "nat \<Rightarrow> bool" "nat \<Rightarrow> bool"
  | Compactor_Turn bool "pystr \<Rightarrow> pyfile option"

fun sys_step :: "config \<Rightarrow> sys_op \<Rightarrow> system \<Rightarrow> (system, pyval) step_result" where
  "sys_step cfg (Call x) s = sys_call cfg x s"
| "sys_step cfg (Checkpoint_Turn copied removed) s = (Inr PyNone, sys_checkpoint copied removed s)"
| "sys_step cfg (Compactor_Turn swap_ok left) s = (Inr PyNone, sys_compact cfg swap_ok left s)"

text \<open>The promise: background turns answer nothing and change nothing that a client can see.\<close>

fun sys_map_step :: "sys_op \<Rightarrow> key_map \<Rightarrow> pyval result \<times> key_map" where
  "sys_map_step (Call x) V = db_map_step x V"
| "sys_map_step (Checkpoint_Turn copied removed) V = (Inr PyNone, V)"
| "sys_map_step (Compactor_Turn swap_ok left) V = (Inr PyNone, V)"

fun sys_op_ok :: "sys_op \<Rightarrow> bool" where
  "sys_op_ok (Call x) = db_op_ok x"
| "sys_op_ok _ = True"

fun sys_cost :: "env \<Rightarrow> sys_op \<Rightarrow> key_map \<Rightarrow> nat" where
  "sys_cost e (Call x) V = db_cost e x V"
| "sys_cost e _ V = 0"

text \<open>The answers of the system that matter here: the engine can be opened.\<close>

definition config_ok :: "config \<Rightarrow> bool" where
  "config_ok cfg \<longleftrightarrow> env_ok (environment cfg) \<and>
     (\<forall>x. decompress (environment cfg) (compress (environment cfg) x) = Inr x) \<and>
     log_io_ok (snd (log_call cfg)) \<and> archive_mkdir cfg \<noteq> None \<and> archive_chmod cfg"

definition sys_inv :: "config \<Rightarrow> nat \<Rightarrow> key_map \<Rightarrow> system \<Rightarrow> bool" where
  "sys_inv cfg n W s \<longleftrightarrow> db_inv (environment cfg) n W (base s) \<and> (configured (logging s) \<or> unconfigured (logging s))"


lemma sys_open_ok:
  assumes inv: "sys_inv cfg n W s" and cfg: "config_ok cfg"
  obtains s' where "sys_open cfg s = (Inr (), s')" "sys_inv cfg n W s'"
proof (cases "engine (base s)")
  case (Some r)
  then show thesis using that [of s] inv by (simp add: sys_open_def)
next
  case None
  obtain env io where c: "log_call cfg = (env, io)" by (cases "log_call cfg")
  obtain lr lg where l: "make_log_handler (env, io) (logging s) = (lr, lg)" by (cases "make_log_handler (env, io) (logging s)")
  have "lr = Inr ()" using make_log_handler_ok [of io env "logging s"] l cfg c by (simp add: config_ok_def)
  have "configured lg \<or> unconfigured lg"
    using inv l make_log_handler_step [of "logging s" "(env, io)" lr lg] make_log_handler_again [of "logging s" "(env, io)"]
    by (auto simp: sys_inv_def)
  obtain cp where cp: "checkpoint_init (archive_mkdir cfg) (archive_chmod cfg) (archive_mode (checkpoints s)) (cycle (checkpoints s)) = Inr cp"
    using cfg by (auto simp: config_ok_def checkpoint_init_def create_wal_archive_directory_def)
  obtain d where d: "ensure_initialized (environment cfg) opened_env (base s) = (Inr (), d)" "db_inv (environment cfg) n W d"
    using ensure_initialized_ok [of "environment cfg" n W "base s" opened_env] inv
    by (metis (no_types, lifting) sys_inv_def opened_env_def start_env.select_convs db_inv_def option.simps(5))
  show thesis
    using that d l c cp \<open>lr = Inr ()\<close> \<open>configured lg \<or> unconfigured lg\<close> None
    by (simp add: sys_open_def sys_inv_def opened_env_def)
qed

lemma opened_env_ok [simp]: "logging_ok opened_env" "archive_ok opened_env"
  by (simp_all add: opened_env_def)

lemma sys_call_ok:
  assumes inv: "sys_inv cfg n W s" and cfg: "config_ok cfg" and x: "db_op_ok x"
    and n: "n + db_cost (environment cfg) x W < 2 ^ 31"
  obtains s' where "sys_call cfg x s = (fst (db_map_step x W), s')"
    "sys_inv cfg (n + db_cost (environment cfg) x W) (snd (db_map_step x W)) s'"
proof -
  have "\<exists>s1. (if opens x then sys_open cfg s else (Inr (), s)) = (Inr (), s1) \<and> sys_inv cfg n W s1"
    using sys_open_ok [OF inv cfg] inv by metis
  then obtain s1 where s1: "(if opens x then sys_open cfg s else (Inr (), s)) = (Inr (), s1)" "sys_inv cfg n W s1"
    by blast
  have e: "env_ok (environment cfg)" "\<And>x. decompress (environment cfg) (compress (environment cfg) x) = Inr x"
    using cfg by (simp_all add: config_ok_def)
  obtain d where "db_step (environment cfg) opened_env x (base s1) = (fst (db_map_step x W), d)"
    "db_inv (environment cfg) (n + db_cost (environment cfg) x W) (snd (db_map_step x W)) d"
    using db_step_ok [OF _ opened_env_ok e x n] s1(2) by (auto simp: sys_inv_def)
  then show thesis using that s1 by (simp add: sys_call_def sys_inv_def)
qed

lemma db_inv_log:
  assumes "db_inv e n W d" and "engine d = Some r"
  shows "db_inv e n W (d\<lparr>engine := Some (r\<lparr>rwal := w\<rparr>)\<rparr>)"
  using assms router_inv_wal unfolding db_inv_def client_inv_def by fastforce

lemma sys_checkpoint_ok: "sys_inv cfg n W s \<Longrightarrow> sys_inv cfg n W (sys_checkpoint copied removed s)"
  by (auto simp: sys_inv_def sys_checkpoint_def Let_def db_inv_log split: option.split)

lemma sys_compact_ok:
  assumes "sys_inv cfg n W s"
  shows "sys_inv cfg n W (sys_compact cfg swap_ok left s)"
proof (cases "engine (base s)")
  case (Some r)
  obtain c r' where c: "run_loop_step swap_ok left (environment cfg) (compactions s, r) = (c, r')"
    by (cases "run_loop_step swap_ok left (environment cfg) (compactions s, r)")
  then have "r' = r" by (auto simp: run_loop_step_def compactor_round_idle split: if_splits)
  then show ?thesis using assms c Some by (simp add: sys_compact_def sys_inv_def db_inv_def)
qed (use assms in \<open>simp add: sys_compact_def\<close>)

interpretation sys_machine: simulation "sys_step cfg" sys_map_step
  "\<lambda>n W s. sys_inv cfg n W s \<and> config_ok cfg" sys_op_ok "sys_cost (environment cfg)" "2 ^ 31" for cfg
proof
  fix n W s x
  assume a: "sys_inv cfg n W s \<and> config_ok cfg" "sys_op_ok x" "n + sys_cost (environment cfg) x W < 2 ^ 31"
  show "\<exists>s'. sys_step cfg x s = (fst (sys_map_step x W), s') \<and>
      sys_inv cfg (n + sys_cost (environment cfg) x W) (snd (sys_map_step x W)) s' \<and> config_ok cfg"
  proof (cases x)
    case (Call y)
    then have y: "db_op_ok y" "n + db_cost (environment cfg) y W < 2 ^ 31" using a(2,3) by simp_all
    obtain s' where "sys_call cfg y s = (fst (db_map_step y W), s')"
      "sys_inv cfg (n + db_cost (environment cfg) y W) (snd (db_map_step y W)) s'"
      using sys_call_ok [OF _ _ y] a(1) by blast
    then show ?thesis using a(1) Call by simp
  qed (use a(1) sys_checkpoint_ok sys_compact_ok in simp_all)
qed

lemma new_system_inv:
  "1 \<le> mx \<Longrightarrow> 1 \<le> cap \<Longrightarrow> sys_inv cfg 0 (\<lambda>_. PyNone) (new_system mx cap (fresh_process dirs files))"
  by (simp add: sys_inv_def new_system_def new_database_inv fresh_unconfigured)


definition plain_config :: config where
  "plain_config = \<lparr>environment = plain_env, log_call = plain_call, archive_mkdir = Some 511, archive_chmod = True\<rparr>"

lemma plain_config_ok: "config_ok plain_config"
  using plain_env_ok by (simp add: config_ok_def plain_config_def plain_call_def log_io_ok_def)


end
