(* ===== verification/Record_Codec.thy ===== *)
theory Record_Codec
  imports Json_Roundtrip Crc32
begin

text \<open>
  \<open>record/record.py\<close>: the self-describing record format with an encrypted value. The cipher is the
  third-party \<open>ChaCha20Poly1305\<close>: \<open>encrypt key nonce plain\<close> and \<open>decrypt key nonce cipher\<close> are
  parameters, and so is the nonce that \<open>os.urandom\<close> returns.
\<close>

subsection \<open>Packing\<close>

definition validate_encryption_key :: "bytes \<Rightarrow> unit result" where
  "validate_encryption_key k = (if length k \<noteq> 32 then Inl ValueError else Inr ())"

definition validate_key_length :: "nat \<Rightarrow> unit result" where
  "validate_key_length n = (if n < 1 then Inl ValueError else if n > 4096 then Inl ValueError else Inr ())"

definition validate_value_length :: "nat \<Rightarrow> unit result" where
  "validate_value_length n = (if n > 16 * 1024 * 1024 then Inl ValueError else Inr ())"

definition calculate_checksum :: "bytes \<Rightarrow> bytes \<Rightarrow> bytes \<Rightarrow> bytes \<Rightarrow> bytes \<Rightarrow> nat" where
  "calculate_checksum rl kl k vl v = crc32 (rl @ kl @ k @ vl @ v)"

definition record_magic :: nat where "record_magic = 0x43444231"

definition pack_record ::
  "(bytes \<Rightarrow> bytes \<Rightarrow> bytes \<Rightarrow> bytes) \<Rightarrow> bytes \<Rightarrow> pystr \<Rightarrow> pyval \<Rightarrow> bytes \<Rightarrow> bytes result" where
  "pack_record encrypt nonce key v ekey =
     bind_result (validate_encryption_key ekey) (\<lambda>_.
     bind_result (utf8_encode key) (\<lambda>kb.
     bind_result (dumps v) (\<lambda>json.
     bind_result (utf8_encode json) (\<lambda>raw.
       let vb = nonce @ encrypt ekey nonce raw
       in bind_result (validate_key_length (length kb)) (\<lambda>_.
          bind_result (validate_value_length (length vb)) (\<lambda>_.
          bind_result (to_be 4 (int (length kb))) (\<lambda>kl.
          bind_result (to_be 4 (int (length vb))) (\<lambda>vl.
            let n = 4 + 4 + length kb + 4 + length vb + 4 + 4
            in if n > 0xFFFFFFFF then Inl ValueError
               else bind_result (to_be 4 (int n)) (\<lambda>rl.
                 Inr (rl @ be_bytes 4 record_magic @ kl @ kb @ vl @ vb @
                      be_bytes 4 (calculate_checksum rl kl kb vl vb)))))))))))"

subsection \<open>Unpacking\<close>

text \<open>
  The checks up to the checksum: the key, the encrypted value and the end of the record as the length
  fields give it.
\<close>

definition parse_record :: "bytes \<Rightarrow> (pystr \<times> bytes \<times> nat) result" where
  "parse_record bs =
     (if length bs < 20 then Inl ValueError
      else let n = be_val (slice bs 0 4)
      in if n > 0x10000000 then Inl ValueError
         else if n < 20 then Inl ValueError
         else if be_val (slice bs 4 8) \<noteq> record_magic then Inl ValueError
         else let klen = be_val (slice bs 8 12)
         in bind_result (validate_key_length klen) (\<lambda>_.
            let kend = 12 + klen
            in if kend > length bs then Inl ValueError
               else case utf8_decode (slice bs 12 kend) of
                 Inl e \<Rightarrow> Inl (if e = UnicodeDecodeError then ValueError else e)
               | Inr key \<Rightarrow>
                  if kend + 4 > length bs then Inl ValueError
                  else let vlen = be_val (slice bs kend (kend + 4))
                  in bind_result (validate_value_length vlen) (\<lambda>_.
                     let vend = kend + 4 + vlen
                     in if vend > length bs then Inl ValueError
                        else if vend + 4 > length bs then Inl ValueError
                        else if be_val (slice bs vend (vend + 4)) \<noteq>
                            calculate_checksum (slice bs 0 4) (slice bs 8 12) (slice bs 12 kend)
                              (slice bs kend (kend + 4)) (slice bs (kend + 4) vend) then Inl ValueError
                        else Inr (key, slice bs (kend + 4) vend, vend + 4))))"

definition unpack_record ::
  "(bytes \<Rightarrow> bytes \<Rightarrow> bytes \<Rightarrow> bytes result) \<Rightarrow> bytes \<Rightarrow> bytes \<Rightarrow> (pystr \<times> pyval) result" where
  "unpack_record decrypt bs ekey =
     bind_result (validate_encryption_key ekey) (\<lambda>_.
     bind_result (parse_record bs) (\<lambda>(key, vb, end).
       if length vb < 28 then Inl ValueError
       else case decrypt ekey (take 12 vb) (drop 12 vb) of
         Inl _ \<Rightarrow> Inl ValueError
       | Inr raw \<Rightarrow>
          (case utf8_decode raw of
             Inl e \<Rightarrow> Inl (if e = UnicodeDecodeError then ValueError else e)
           | Inr json \<Rightarrow>
              (case loads json of
                 Inl e \<Rightarrow> Inl (if e = JSONDecodeError then ValueError else e)
               | Inr v \<Rightarrow>
                   if end \<noteq> be_val (slice bs 0 4) then Inl ValueError
                   else if length bs \<noteq> be_val (slice bs 0 4) then Inl ValueError
                   else Inr (key, v)))))"

subsection \<open>The layout of a record\<close>

definition record_layout :: "bytes \<Rightarrow> bytes \<Rightarrow> bytes \<Rightarrow> bytes \<Rightarrow> bytes" where
  "record_layout rl kb vb c =
     rl @ be_bytes 4 record_magic @ be_bytes 4 (length kb) @ kb @ be_bytes 4 (length vb) @ vb @ c"

definition record_image :: "bytes \<Rightarrow> bytes \<Rightarrow> bytes" where
  "record_image kb vb =
     (let rl = be_bytes 4 (20 + length kb + length vb); kl = be_bytes 4 (length kb); vl = be_bytes 4 (length vb)
      in record_layout rl kb vb (be_bytes 4 (calculate_checksum rl kl kb vl vb)))"

lemma record_layout_fields:
  assumes "length rl = 4" and "length c = 4"
  shows "slice (record_layout rl kb vb c) 0 4 = rl" "slice (record_layout rl kb vb c) 4 8 = be_bytes 4 record_magic"
    "slice (record_layout rl kb vb c) 8 12 = be_bytes 4 (length kb)"
    "slice (record_layout rl kb vb c) 12 (12 + length kb) = kb"
    "slice (record_layout rl kb vb c) (12 + length kb) (12 + length kb + 4) = be_bytes 4 (length vb)"
    "slice (record_layout rl kb vb c) (12 + length kb + 4) (12 + length kb + 4 + length vb) = vb"
    "slice (record_layout rl kb vb c) (12 + length kb + 4 + length vb) (12 + length kb + 4 + length vb + 4) = c"
    "length (record_layout rl kb vb c) = 20 + length kb + length vb"
  using assms by (simp_all add: record_layout_def slice_def)

lemma parse_record_layout:
  assumes l: "length rl = 4" "length c = 4" "length kb \<le> 4096" "length vb \<le> 16 * 1024 * 1024"
  shows "parse_record (record_layout rl kb vb c) =
    (if be_val rl > 0x10000000 \<or> be_val rl < 20 \<or> kb = [] then Inl ValueError
     else case utf8_decode kb of
       Inl _ \<Rightarrow> Inl ValueError
     | Inr key \<Rightarrow>
        if be_val c \<noteq> calculate_checksum rl (be_bytes 4 (length kb)) kb (be_bytes 4 (length vb)) vb
        then Inl ValueError else Inr (key, vb, 20 + length kb + length vb))"
proof -
  note f = record_layout_fields [OF l(1,2), of kb vb]
  have v: "be_val (be_bytes 4 (length kb)) = length kb" "be_val (be_bytes 4 (length vb)) = length vb"
    "be_val (be_bytes 4 record_magic) = record_magic"
    using l(3,4) by (simp_all add: record_magic_def)
  show ?thesis
    unfolding parse_record_def Let_def f v
    using l(3,4) utf8_decode_error [of kb]
    by (auto simp: validate_key_length_def validate_value_length_def Suc_le_eq split: sum.splits)
qed

lemma pack_record_image:
  assumes "length ekey = 32" and "utf8_encode key = Inr kb" and "1 \<le> length kb" and "length kb \<le> 4096"
    and "dumps v = Inr t" and "utf8_encode t = Inr raw"
    and "length (nonce @ encrypt ekey nonce raw) \<le> 16 * 1024 * 1024"
  shows "pack_record encrypt nonce key v ekey = Inr (record_image kb (nonce @ encrypt ekey nonce raw))"
proof -
  let ?vb = "nonce @ encrypt ekey nonce raw"
  have "to_be 4 (int (length kb)) = Inr (be_bytes 4 (length kb))"
    "to_be 4 (int (length ?vb)) = Inr (be_bytes 4 (length ?vb))"
    "to_be 4 (int (4 + 4 + length kb + 4 + length ?vb + 4 + 4)) = Inr (be_bytes 4 (20 + length kb + length ?vb))"
    using assms(4,7) by (auto simp: to_be_def nat_add_distrib nat_int_add add.assoc)
  then show ?thesis
    unfolding pack_record_def Let_def
    using assms by (simp add: validate_encryption_key_def validate_key_length_def validate_value_length_def
        record_image_def record_layout_def Let_def Suc_le_eq ac_simps del: to_be_Inr)
qed

subsection \<open>Round trip and corruption\<close>

lemma crc_bytes: "be_val (be_bytes 4 (calculate_checksum a b c d e)) = calculate_checksum a b c d e"
  using crc32_bound by (simp add: calculate_checksum_def)

lemma pack_record_shape:
  assumes "pack_record encrypt nonce key v ekey = Inr bs" and "utf8_encode key = Inr kb"
  obtains vb where "bs = record_image kb vb" "length ekey = 32" "kb \<noteq> []" "length kb \<le> 4096"
    "length vb \<le> 16 * 1024 * 1024"
proof -
  obtain t raw where v: "length ekey = 32" "validate_key_length (length kb) = Inr ()" "dumps v = Inr t"
      "utf8_encode t = Inr raw" "validate_value_length (length (nonce @ encrypt ekey nonce raw)) = Inr ()"
    using assms by (auto simp: pack_record_def validate_encryption_key_def Let_def split: if_splits)
  then have l: "1 \<le> length kb" "length kb \<le> 4096" "length (nonce @ encrypt ekey nonce raw) \<le> 16 * 1024 * 1024"
    by (auto simp: validate_key_length_def validate_value_length_def Suc_le_eq split: if_splits)
  have "bs = record_image kb (nonce @ encrypt ekey nonce raw)"
    using pack_record_image [where encrypt = encrypt, OF v(1) assms(2) l(1,2) v(3,4) l(3)] assms(1) by simp
  moreover have "kb \<noteq> []" using l(1) by auto
  ultimately show thesis using that v(1) l(2,3) by blast
qed

definition packable :: "pystr \<Rightarrow> pyval \<Rightarrow> bool" where
  "packable key v \<longleftrightarrow> json_value v \<and>
     (\<exists>kb. utf8_encode key = Inr kb \<and> 1 \<le> length kb \<and> length kb \<le> 4096) \<and>
     (\<exists>t. dumps v = Inr t \<and> length t + 28 \<le> 16 * 1024 * 1024)"

lemma pack_packable:
  assumes "packable key v" and "length ekey = 32" and "length nonce = 12"
    and "\<forall>k n p. length (encrypt k n p) = length p + 16"
  obtains kb t where "utf8_encode key = Inr kb" "1 \<le> length kb" "length kb \<le> 4096" "dumps v = Inr t"
    "json_value v" "utf8_encode t = Inr (map mk_byte t)"
    "length (nonce @ encrypt ekey nonce (map mk_byte t)) \<le> 16 * 1024 * 1024"
    "pack_record encrypt nonce key v ekey = Inr (record_image kb (nonce @ encrypt ekey nonce (map mk_byte t)))"
proof -
  obtain kb t where k: "utf8_encode key = Inr kb" "1 \<le> length kb" "length kb \<le> 4096" "json_value v"
      "dumps v = Inr t" "length t + 28 \<le> 16 * 1024 * 1024"
    using assms(1) by (auto simp: packable_def)
  have u: "utf8_encode t = Inr (map mk_byte t)" using dumps_ascii(1) [OF k(4,5)] by (intro utf8_ascii) blast
  have l: "length (nonce @ encrypt ekey nonce (map mk_byte t)) \<le> 16 * 1024 * 1024" using assms(3,4) k(6) by simp
  from that [OF k(1-3,5,4) u l pack_record_image [where encrypt = encrypt, OF assms(2) k(1-3,5) u l]] show thesis .
qed

text \<open>C23: With a cipher that decrypts what it encrypted and adds a tag of 16 bytes, every key of 1 to 4096
  UTF-8 bytes and every JSON value that fits packs into a record, and unpacking the record with the
  same key gives the key and the value back.\<close>

theorem record_roundtrip:
  assumes "\<forall>k n p. decrypt k n (encrypt k n p) = Inr p" and "\<forall>k n p. length (encrypt k n p) = length p + 16"
    and "packable key v" and "length ekey = 32" and "length nonce = 12"
  shows "\<exists>bs. pack_record encrypt nonce key v ekey = Inr bs \<and> unpack_record decrypt bs ekey = Inr (key, v)"
proof -
  obtain kb t where k: "utf8_encode key = Inr kb" "1 \<le> length kb" "length kb \<le> 4096" "dumps v = Inr t"
    "json_value v" "utf8_encode t = Inr (map mk_byte t)"
    "length (nonce @ encrypt ekey nonce (map mk_byte t)) \<le> 16 * 1024 * 1024"
    "pack_record encrypt nonce key v ekey = Inr (record_image kb (nonce @ encrypt ekey nonce (map mk_byte t)))"
    by (rule pack_packable [OF assms(3-5,2)])
  let ?vb = "nonce @ encrypt ekey nonce (map mk_byte t)"
  let ?n = "20 + length kb + length ?vb"
  have n: "be_val (be_bytes 4 ?n) = ?n" using k(3,7) by simp
  have p: "parse_record (record_image kb ?vb) = Inr (key, ?vb, ?n)"
    using k(2,3,7) n utf8_roundtrip [OF k(1)]
    by (simp add: record_image_def Let_def parse_record_layout crc_bytes Suc_le_eq)
  have len: "be_val (slice (record_image kb ?vb) 0 4) = ?n" "length (record_image kb ?vb) = ?n"
    using n by (simp_all add: record_image_def Let_def record_layout_fields)
  have "28 \<le> length ?vb" "take 12 ?vb = nonce" "drop 12 ?vb = encrypt ekey nonce (map mk_byte t)"
    using assms(2,5) by simp_all
  then have "unpack_record decrypt (record_image kb ?vb) ekey = Inr (key, v)"
    using assms(1,4) p len utf8_roundtrip [OF k(6)] json_roundtrip [OF k(5)] k(4)
    by (simp add: unpack_record_def validate_encryption_key_def)
  with k(8) show ?thesis by blast
qed

definition pad_cipher :: "bytes \<Rightarrow> bytes \<Rightarrow> bytes \<Rightarrow> bytes" where
  "pad_cipher k n p = p @ replicate 16 0"

definition pad_decipher :: "bytes \<Rightarrow> bytes \<Rightarrow> bytes \<Rightarrow> bytes result" where
  "pad_decipher k n c = (if length c < 16 then Inl InvalidTag else Inr (take (length c - 16) c))"

lemma packable_example: "packable (lit ''k'') (PyList [PyInt 7, PyNone])"
proof -
  have "dumps (PyList [PyInt 7, PyNone]) = Inr (lit ''[7, null]'')"
    by (simp add: int_text_def dec_int_def dec_nat.simps lit_def)
  then show ?thesis by (simp add: packable_def utf8_char_def lit_def dec_nat.simps)
qed

theorem record_roundtrip_witness:
  "\<exists>bs. pack_record pad_cipher (replicate 12 1) (lit ''k'') (PyList [PyInt 7, PyNone]) (replicate 32 2) = Inr bs \<and>
     unpack_record pad_decipher bs (replicate 32 2) = Inr (lit ''k'', PyList [PyInt 7, PyNone])"
  by (rule record_roundtrip [OF _ _ packable_example]) (simp_all add: pad_cipher_def pad_decipher_def)

text \<open>Changing the length field, the key or the encrypted value of a record.\<close>

lemma layout_assign:
  assumes "length rl = 4" and "length c = 4"
  shows "a + length w \<le> 4 \<Longrightarrow> slice_assign (record_layout rl kb vb c) a (a + length w) w =
      record_layout (slice_assign rl a (a + length w) w) kb vb c"
    and "a + length w \<le> length kb \<Longrightarrow> slice_assign (record_layout rl kb vb c) (12 + a) (12 + a + length w) w =
      record_layout rl (slice_assign kb a (a + length w) w) vb c"
    and "a + length w \<le> length vb \<Longrightarrow>
      slice_assign (record_layout rl kb vb c) (16 + length kb + a) (16 + length kb + a + length w) w =
      record_layout rl kb (slice_assign vb a (a + length w) w) c"
  using assms by (auto simp: record_layout_def slice_assign_def max_def)

lemma slice_parts: "a + n \<le> length xs \<Longrightarrow> xs = take a xs @ slice xs a (a + n) @ drop (a + n) xs"
  by (metis add.commute add_diff_cancel_left' append_take_drop_id drop_drop slice_def)

lemma window_differs:
  assumes "a + length w \<le> length xs" and "w \<noteq> slice xs a (a + length w)" and "length w \<le> 4"
  shows "crc32 (p @ slice_assign xs a (a + length w) w @ q) \<noteq> crc32 (p @ xs @ q)"
proof -
  let ?s = "slice xs a (a + length w)"
  have "crc32 ((p @ take a xs) @ w @ (drop (a + length w) xs @ q)) \<noteq> crc32 ((p @ take a xs) @ ?s @ (drop (a + length w) xs @ q))"
    using assms by (intro crc32_window) (simp_all add: length_slice)
  moreover have "slice_assign xs a (a + length w) w = take a xs @ w @ drop (a + length w) xs"
    by (simp add: slice_assign_def)
  ultimately show ?thesis
    by (subst (2) slice_parts [OF assms(1)]) simp
qed

text \<open>A record whose stored checksum is that of other fields is rejected.\<close>

lemma mismatch_rejected:
  assumes l: "length rl' = 4" "length kb' \<le> 4096" "length vb' \<le> 16 * 1024 * 1024" "length ekey = 32"
    and c: "c = be_bytes 4 (calculate_checksum rl (be_bytes 4 (length kb)) kb (be_bytes 4 (length vb)) vb)"
    and d: "crc32 (rl' @ be_bytes 4 (length kb') @ kb' @ be_bytes 4 (length vb') @ vb') \<noteq>
       crc32 (rl @ be_bytes 4 (length kb) @ kb @ be_bytes 4 (length vb) @ vb)"
  shows "unpack_record decrypt (record_layout rl' kb' vb' c) ekey = Inl ValueError"
proof -
  have "be_val c \<noteq> calculate_checksum rl' (be_bytes 4 (length kb')) kb' (be_bytes 4 (length vb')) vb'"
    unfolding c crc_bytes using d by (simp add: calculate_checksum_def)
  moreover have "length c = 4" by (simp add: c)
  ultimately have "parse_record (record_layout rl' kb' vb' c) = Inl ValueError"
    using l(1-3) by (auto simp: parse_record_layout split: sum.splits)
  with l(4) show ?thesis by (simp add: unpack_record_def validate_encryption_key_def)
qed

text \<open>C24: Changing any one to four adjacent bytes of the length field, of the key or of the encrypted value
  of a packed record makes \<open>unpack_record\<close> raise \<open>ValueError\<close>, whatever the cipher does.\<close>

theorem record_corruption_detected:
  assumes "pack_record encrypt nonce key v ekey = Inr bs" and "utf8_encode key = Inr kb"
    and "length w \<le> 4" and "w \<noteq> slice bs a (a + length w)"
    and "a + length w \<le> 4 \<or> (12 \<le> a \<and> a + length w \<le> 12 + length kb) \<or>
      (16 + length kb \<le> a \<and> a + length w + 4 \<le> length bs)"
  shows "unpack_record decrypt (slice_assign bs a (a + length w) w) ekey = Inl ValueError"
proof -
  obtain vb where b: "bs = record_image kb vb" "length ekey = 32" "kb \<noteq> []" "length kb \<le> 4096"
      "length vb \<le> 16 * 1024 * 1024"
    by (rule pack_record_shape [OF assms(1,2)])
  define rl where "rl = be_bytes 4 (20 + length kb + length vb)"
  define c where "c = be_bytes 4 (calculate_checksum rl (be_bytes 4 (length kb)) kb (be_bytes 4 (length vb)) vb)"
  have bs: "bs = record_layout rl kb vb c" by (simp add: b(1) record_image_def Let_def rl_def c_def)
  have l: "length rl = 4" "length c = 4" by (simp_all add: rl_def c_def)
  have lb: "length bs = 20 + length kb + length vb" unfolding bs by (rule record_layout_fields [OF l])
  note fail = mismatch_rejected [OF _ _ _ b(2) c_def, of _ _ _ decrypt]
  note f = record_layout_fields [OF l, of kb vb]
  consider "a + length w \<le> 4" | i where "a = 12 + i" "i + length w \<le> length kb"
    | i where "a = 16 + length kb + i" "i + length w \<le> length vb"
    using assms(5) lb by (auto simp: le_iff_add)
  then show ?thesis
  proof cases
    case 1
    have "slice bs a (a + length w) = slice rl a (a + length w)"
      using slice_slice [of "a + length w" 4 0 bs a] 1 f(1) bs by simp
    then have "w \<noteq> slice rl a (a + length w)" using assms(4) by simp
    from window_differs [OF _ this assms(3), of "[]"] 1 l
    show ?thesis unfolding bs layout_assign(1) [OF l 1]
      by (intro fail) (use b(4,5) in \<open>simp_all add: length_slice_assign\<close>)
  next
    case 2
    have "slice bs a (a + length w) = slice kb i (i + length w)"
      using slice_slice [of "i + length w" "12 + length kb" 12 bs i] 2 f(4) bs by (simp add: add.assoc)
    then have "w \<noteq> slice kb i (i + length w)" using assms(4) by simp
    from window_differs [OF 2(2) this assms(3), of "rl @ be_bytes 4 (length kb)"] 2
    show ?thesis unfolding bs 2(1) layout_assign(2) [OF l 2(2)]
      by (intro fail) (use b(4,5) l in \<open>simp_all add: length_slice_assign\<close>)
  next
    case 3
    have "slice bs a (a + length w) = slice vb i (i + length w)"
      using slice_slice [of "i + length w" "12 + length kb + 4 + length vb" "12 + length kb + 4" bs i] 3 f(6) bs
      by (simp add: ac_simps)
    then have "w \<noteq> slice vb i (i + length w)" using assms(4) by simp
    from window_differs [OF 3(2) this assms(3), of "rl @ be_bytes 4 (length kb) @ kb @ be_bytes 4 (length vb)" "[]"] 3
    show ?thesis unfolding bs 3(1) layout_assign(3) [OF l 3(2)]
      by (intro fail) (use b(4,5) l in \<open>simp_all add: length_slice_assign\<close>)
  qed
qed

theorem record_corruption_detected_witness:
  "\<exists>bs. pack_record pad_cipher (replicate 12 1) (lit ''k'') (PyList [PyInt 7, PyNone]) (replicate 32 2) = Inr bs \<and>
     unpack_record pad_decipher (slice_assign bs 12 13 [0]) (replicate 32 2) = Inl ValueError"
proof -
  have d: "dumps (PyList [PyInt 7, PyNone]) = Inr (lit ''[7, null]'')"
    by (simp add: int_text_def dec_int_def dec_nat.simps lit_def)
  have k: "utf8_encode (lit ''k'') = Inr [mk_byte 107]" by (simp add: utf8_char_def lit_def)
  obtain raw where raw: "utf8_encode (lit ''[7, null]'') = Inr raw" "length raw = 9"
    by (simp add: utf8_char_def lit_def)
  let ?vb = "replicate 12 1 @ pad_cipher (replicate 32 2) (replicate 12 1) raw"
  have "pack_record pad_cipher (replicate 12 1) (lit ''k'') (PyList [PyInt 7, PyNone]) (replicate 32 2) =
      Inr (record_image [mk_byte 107] ?vb)"
    by (rule pack_record_image [OF _ k _ _ d raw(1)]) (simp_all add: pad_cipher_def raw(2))
  moreover have "slice (record_image [mk_byte 107] ?vb) 12 (12 + length [0 :: byte]) = [mk_byte 107]"
    by (simp add: record_image_def record_layout_def Let_def slice_def)
  ultimately show ?thesis
    using record_corruption_detected [OF _ k, of pad_cipher "replicate 12 1" "PyList [PyInt 7, PyNone]" "replicate 32 2"
        "record_image [mk_byte 107] ?vb" "[0]" 12 pad_decipher]
    by (simp add: mk_byte_def)
qed

end
