(* ===== verification/Spec2Isabelle.thy ===== *)
theory Spec2Isabelle
  imports Cachydb_System Record_Codec
begin

text \<open>
  cachyDB is an embedded key-value store written in Python (\<open>src/src/cachyDB\<close>). This development models
  its code, component by component, and proves what makes the components and their composition correct.
  Where the code does not do what it means to, the behaviour is proved as it is.

  The parts of the program, and how they interact.
  A client calls \<open>set\<close>, \<open>set_many\<close>, \<open>get\<close> and \<open>delete\<close> of \<open>database.py\<close>. The first call configures the
  logging (\<open>logger/log_handler.py\<close>), opens the write-ahead log (\<open>recovery/wal.py\<close>), makes the router
  (\<open>storage/router.py\<close>), starts the threads of the checkpoint (\<open>recovery/checkpoint.py\<close>) and of the
  compactor (\<open>garbage/compactor.py\<close>), and replays the pending records of the log into the memtables. The
  router packs a record, appends it to the log's buffer, inserts it into the table's active memtable
  (\<open>index/btree.py\<close>) and puts the value into the cache (\<open>cache/cache.py\<close>). A memtable that is full becomes
  the immutable one, and a background flush writes its records to the pages (\<open>pager/pager.py\<close>) of the
  table's file (\<open>storage/table_handler.py\<close>), updates the index of the file and marks the log's entries
  complete. Values of more than 2000 bytes are compressed and split into chunk records under a manifest.
  The checkpoint archives log files whose entries are all complete. \<open>record/record.py\<close> is a record format
  with encrypted values that no other component uses; \<open>logger/structured_logger.py\<close> makes the log lines.

  The theories.
  \<open>Prelude\<close>: exceptions as values of a sum, Python strings (code points), bytes, big-endian fields, slices,
  decimal numbers and files, with the lemma collections \<open>field_be\<close> and \<open>slice_rules\<close>. \<open>Py_Dict\<close>: dictionaries
  in insertion order, and the locale of a keyed store. \<open>Py_Float\<close>: finite floats as rationals. \<open>Machines\<close>:
  histories of a component, and the locale \<open>simulation\<close>, in which the refinement of a step is carried
  to histories; it is interpreted on pages, table files, the router, the database and the whole system.
  \<open>Crc32\<close>, \<open>Utf8\<close>, \<open>Json\<close>, \<open>Json_Roundtrip\<close>, \<open>Base64\<close>: what the program uses of \<open>zlib.crc32\<close>, \<open>str.encode\<close>,
  \<open>json\<close> and \<open>base64\<close>.
  \<open>Lfu_Cache\<close> models \<open>Cache\<close>, with the locale \<open>read_cache\<close> for what the router relies on.
  \<open>BTree_Memtable\<close> models \<open>BTreeMemTable\<close> and its nodes, which interpret the keyed store.
  \<open>Pager\<close> models \<open>Pager\<close>: the page object, its 4096 bytes, and the locale \<open>block_codec\<close> that
  \<open>Table_Handler\<close>, the model of \<open>TableHandler\<close>, rests on.
  \<open>Wal\<close> models \<open>WAL\<close> with its files byte by byte; \<open>Wal_Log\<close> has the reachable logs and what replay yields,
  \<open>Wal_Handle\<close> the names, the inodes and the cached handle that the operations go through.
  \<open>Checkpoint\<close> and \<open>Checkpoint_Thread\<close> model \<open>WALCheckpoint\<close>.
  \<open>Record_Codec\<close> models \<open>Record\<close>.
  \<open>Router_Format\<close> and \<open>Router\<close> model \<open>Router\<close>. \<open>Router_Disk\<close>, \<open>Router_Map\<close> and \<open>Router_Chunks\<close> show, layer by
  layer, that a table file with its index, a table with its memtables and a running flush, and the
  router with large values are maps; \<open>Router_Faults\<close>, \<open>Router_Oversize\<close> and \<open>Router_Total\<close> have
  restarts, failures and termination.
  \<open>Database\<close> models \<open>CachyDB\<close>; \<open>Recovery\<close>, \<open>Ghost_Log\<close> and \<open>Durability\<close> have its start and its crashes.
  \<open>Compactor\<close> models \<open>Compactor\<close>.
  \<open>Structured_Log\<close> models the structured logger; \<open>Json_Log\<close>, \<open>Log_Handler\<close> and \<open>Log_Setup\<close> model the
  formatter, the rotation and the singleton of the log handler.
  \<open>Cachydb_System\<close> composes them: opening with every component that it starts, the calls, the turns of
  the background threads, and closing.

  How state and operations correspond to the code.
  The attributes of an object are the fields of a record, an operation is a function from the state to a
  result and the state it leaves; a raise is \<open>Inl\<close> of its exception class, with the state that the code
  has changed by then. A method that runs under a lock is one transition. What other threads may do
  between the calls of a client is a step of the history: a stage of a flush, a round of the log's writer
  thread, a checkpoint cycle, a turn of the compactor. A flush has three stages (the pages are
  written, the index is updated, the log is told), since what a reader sees changes between them.
  What the operating system answers is an argument: whether files and directories can be made, opened,
  removed or renamed. \<open>zlib\<close>, \<open>gzip\<close> and the cipher are parameters, with the documented fact that
  decompressing (decrypting) gives back what was compressed (encrypted) as a hypothesis.

  What the lemmas show.
  Each component refines a plain specification on every history of its operations: the cache a textbook
  LFU, the memtable a sorted map, the page a list of optional records with a byte budget, the table
  file a list of pages, the log the list of its records with a completion flag, the router, the database
  and the whole system a map from tables and keys to values, log rotation a list of segments. Formats
  round-trip (pages, records, JSON, UTF-8, base64, log lines), and damaged bytes are detected by the
  checksums. Replay yields exactly the flushed records that are not marked; a crash loses nothing that has
  reached the log. Flushes end and decoding is total. The error properties state where the code
  breaks its contract: the full log file, the checkpoint of the current file, recovery that is not
  durable, \<open>set_many\<close> of large values, a failing \<open>set\<close> over a large value, the compactor that never
  runs, and the log backup that a failed compression leaves.

  Bounds and fuel.
  The JSON scanner recurses with the fuel \<open>2 * length s + 2\<close>; \<open>loads_total\<close> shows that it never runs out.
  All other recursion is structural or has a termination proof. The refinements of the router,
  the database and the system hold for histories that write less than \<open>2 ^ 31\<close> records, so that page
  numbers fit their four bytes. Keys are at most 1000 bytes in UTF-8 (a page takes records of at most
  4072 bytes, a chunk record has its key and at most 2668 characters of base64), and do not begin as
  chunk keys do. Crash recovery is proved for 25000 logged writes, which keeps the log in one file of
  50000 entries, and for tables whose name has no colon, since recovery takes the table from the key.
  Transaction ids stay below \<open>2 ^ 63\<close>.

  Not modelled.
  Real time, thread scheduling inside a locked method, and interleavings of two flushes on the pages of one
  table (the code waits for a running flush before it starts another). A recovery that runs
  while another thread already uses the router. Python's recursion limit and memory. Log records that
  the components emit (their lines are made by the modelled logger, but no component's behaviour
  depends on them) and latencies. File permissions, except those of the log files, of the WAL
  directory and of the archive directory. \<open>TypeError\<close> for arguments of the wrong type, which the typed model does not
  have. Infinite and NaN floats. The console handler of \<open>rich\<close>, the text formatter, the queue and
  the listener thread of the standard library. The \<open>__init__\<close> modules only re-export names.
\<close>

end
